(* ===== verification/Prelude.thy ===== *)
theory Prelude
  imports Main "HOL-Library.Word" "HOL-Library.Signed_Division"
begin

text \<open>
  What every component shares: the machine integer types of the C code, the sum-valued
  sequencing of operations that can fault, the C \<open>for\<close> loop over a 64-bit counter, and
  the generic lemmas about them.
\<close>

unbundle bit_operations_syntax

section \<open>Machine integers\<close>

type_synonym u8 = "8 word"
type_synonym u16 = "16 word"
type_synonym u32 = "32 word"
type_synonym u64 = "64 word"
type_synonym i32 = "32 word" \<comment> \<open>C \<open>int\<close>: read with \<open>sint\<close>\<close>

named_theorems kern_simps \<open>field reads after an operation of the kernel\<close>
named_theorems byte_simps \<open>byte reads after a memory write\<close>

lemma unat_u64_bound [simp]: "unat (x :: u64) < 18446744073709551616"
  using unsigned_less [of x] by simp

lemma unat_add_no_wrap:
  fixes a b :: u64
  assumes "unat a + unat b < 2 ^ 64"
  shows "unat (a + b) = unat a + unat b"
  using assms by (simp add: unat_word_ariths)

lemma unat_of_nat_u64: "n < 2 ^ 64 \<Longrightarrow> unat (of_nat n :: u64) = n"
  by (simp add: unat_of_nat)

lemma of_nat_inj_u64:
  "m < 2 ^ 64 \<Longrightarrow> n < 2 ^ 64 \<Longrightarrow> ((of_nat m :: u64) = of_nat n) = (m = n)"
  by (metis unat_of_nat_u64)

lemma unat_add_of_nat:
  fixes a :: u64
  assumes "unat a + n < 2 ^ 64"
  shows "unat (a + of_nat n) = unat a + n"
  using assms by (simp add: unat_add_no_wrap unat_of_nat_u64)

lemma add_of_nat_inj:
  fixes a :: u64
  assumes "m < 2 ^ 64" "n < 2 ^ 64"
  shows "(a + of_nat m = a + of_nat n) = (m = n)"
  using of_nat_inj_u64 [OF assms] by simp

lemma unat_Suc_u64:
  fixes i n :: u64
  assumes "i < n"
  shows "unat (i + 1) = Suc (unat i)"
  using assms unat_u64_bound [of n]
  by (simp add: word_less_nat_alt unat_word_ariths del: unat_u64_bound)

lemma loop_measure:
  fixes i n :: u64
  assumes "i < n"
  shows "unat n - unat (i + 1) < unat n - unat i"
  using assms by (simp add: unat_Suc_u64 word_less_nat_alt)

lemma sint_of_nat_i32: "b < 2 ^ 31 \<Longrightarrow> sint (of_nat b :: i32) = int b"
  by (simp add: signed_of_nat signed_take_bit_int_eq_self)

section \<open>Sequencing of operations that can fault\<close>

text \<open>
  An operation returns \<open>Inl e\<close> when it stops with the fault \<open>e\<close> and \<open>Inr x\<close> when it
  returns; \<open>sbind\<close> continues only after a return, as the C code does.
\<close>

definition sbind :: "'e + 'a \<Rightarrow> ('a \<Rightarrow> 'e + 'b) \<Rightarrow> 'e + 'b" where
  "sbind r f = (case r of Inl e \<Rightarrow> Inl e | Inr x \<Rightarrow> f x)"

lemma sbind_Inl [simp]: "sbind (Inl e) f = Inl e"
  by (simp add: sbind_def)

lemma sbind_Inr [simp]: "sbind (Inr x) f = f x"
  by (simp add: sbind_def)

lemma sbind_eq_Inr: "sbind r f = Inr y \<longleftrightarrow> (\<exists>x. r = Inr x \<and> f x = Inr y)"
  by (cases r) auto

lemma sbind_eq_Inl: "sbind r f = Inl e \<longleftrightarrow> r = Inl e \<or> (\<exists>x. r = Inr x \<and> f x = Inl e)"
  by (cases r) auto

lemma sbind_right [simp]: "sbind r Inr = r"
  by (cases r) simp_all

lemma sbind_assoc: "sbind (sbind r f) g = sbind r (\<lambda>x. sbind (f x) g)"
  by (cases r) simp_all

text \<open>The body of a loop over a list, stopped by the first fault.\<close>

fun foldE :: "('a \<Rightarrow> 's \<Rightarrow> 'e + 's) \<Rightarrow> 'a list \<Rightarrow> 's \<Rightarrow> 'e + 's" where
  "foldE f [] s = Inr s"
| "foldE f (x # xs) s = sbind (f x s) (foldE f xs)"

lemma foldE_nil_fun [simp]: "foldE f [] = Inr"
  by (simp add: fun_eq_iff)

lemma foldE_append: "foldE f (xs @ ys) s = sbind (foldE f xs s) (foldE f ys)"
  by (induction xs arbitrary: s) (simp_all add: sbind_def split: sum.split)

lemma foldE_map: "foldE f (map g xs) s = foldE (f \<circ> g) xs s"
  by (induction xs arbitrary: s) (simp_all add: sbind_def split: sum.split)

text \<open>An invariant kept by every successful body holds after a successful loop.\<close>

lemma foldE_invariant:
  assumes "foldE f xs s = Inr t" "P s"
    and "\<And>x u v. x \<in> set xs \<Longrightarrow> P u \<Longrightarrow> f x u = Inr v \<Longrightarrow> P v"
  shows "P t"
  using assms
proof (induction xs arbitrary: s)
  case Nil
  then show ?case by simp
next
  case (Cons x xs)
  then obtain u where u: "f x s = Inr u" "foldE f xs u = Inr t"
    by (auto simp: sbind_eq_Inr)
  have "P u"
    using Cons.prems(3) [of x s u] Cons.prems(2) u(1) by simp
  from Cons.IH [OF u(2) this] Cons.prems(3) show ?case
    by (meson list.set_intros(2))
qed

text \<open>A body that returns \<open>g x s\<close> whenever \<open>P s\<close>, and keeps \<open>P\<close>, never stops the loop.\<close>

lemma foldE_total:
  assumes "P s"
    and "\<And>x u. x \<in> set xs \<Longrightarrow> P u \<Longrightarrow> f x u = Inr (g x u) \<and> P (g x u)"
  shows "foldE f xs s = Inr (fold g xs s) \<and> P (fold g xs s)"
  using assms
proof (induction xs arbitrary: s)
  case Nil
  then show ?case by simp
next
  case (Cons x xs)
  have x: "f x s = Inr (g x s)" "P (g x s)"
    using Cons.prems by auto
  have "foldE f xs (g x s) = Inr (fold g xs (g x s)) \<and> P (fold g xs (g x s))"
    by (rule Cons.IH [OF x(2)]) (use Cons.prems(2) in auto)
  with x show ?case by simp
qed

lemma foldE_cong_on:
  "(\<And>x s. x \<in> set xs \<Longrightarrow> f x s = g x s) \<Longrightarrow> foldE f xs s = foldE g xs s"
  by (induction xs arbitrary: s) (simp_all add: sbind_def split: sum.split)

text \<open>Two bodies that agree on every state the loop can be in.\<close>

lemma foldE_cong_inv:
  assumes "P s"
    and "\<And>x u. P u \<Longrightarrow> x \<in> set xs \<Longrightarrow> f x u = g x u"
    and "\<And>x u v. P u \<Longrightarrow> g x u = Inr v \<Longrightarrow> P v"
  shows "foldE f xs s = foldE g xs s"
  using assms(1,2)
proof (induction xs arbitrary: s)
  case Nil
  then show ?case by simp
next
  case (Cons x xs)
  then show ?case
    using assms(3) by (cases "g x s") (auto simp: sbind_def)
qed

text \<open>
  Operations with loops that may not end return an option: \<open>None\<close> for "does not return".
\<close>

definition obind :: "('e + 'a) option \<Rightarrow> ('a \<Rightarrow> ('e + 'b) option) \<Rightarrow> ('e + 'b) option" where
  "obind r f = (case r of None \<Rightarrow> None | Some (Inl e) \<Rightarrow> Some (Inl e) | Some (Inr x) \<Rightarrow> f x)"

lemma obind_simps [simp]:
  "obind None f = None" "obind (Some (Inl e)) f = Some (Inl e)" "obind (Some (Inr x)) f = f x"
  by (simp_all add: obind_def)

lemma obind_eq_Inr: "obind r f = Some (Inr y) \<longleftrightarrow> (\<exists>x. r = Some (Inr x) \<and> f x = Some (Inr y))"
  by (auto simp: obind_def split: option.splits sum.splits)

lemma obind_sbind [simp]: "obind (Some r) (\<lambda>x. Some (f x)) = Some (sbind r f)"
  by (cases r) simp_all

fun foldO :: "('a \<Rightarrow> 's \<Rightarrow> ('e + 's) option) \<Rightarrow> 'a list \<Rightarrow> 's \<Rightarrow> ('e + 's) option" where
  "foldO f [] s = Some (Inr s)"
| "foldO f (x # xs) s = obind (f x s) (foldO f xs)"

lemma foldO_foldE: "(\<And>x s. x \<in> set xs \<Longrightarrow> f x s = Some (g x s)) \<Longrightarrow> foldO f xs s = Some (foldE g xs s)"
  by (induction xs arbitrary: s) (simp_all add: sbind_def split: sum.split)

lemma foldO_append: "foldO f (xs @ ys) s = obind (foldO f xs s) (foldO f ys)"
  by (induction xs arbitrary: s) (simp_all add: obind_def split: option.split sum.split)

lemma foldE_concat: "foldE (\<lambda>x. foldE f (g x)) xs s = foldE f (concat (map g xs)) s"
  by (induction xs arbitrary: s) (simp_all add: foldE_append sbind_def split: sum.split)

text \<open>
  What an operation leaves alone, as a relation between the states before and after it that can
  be composed along a sequence of operations and along a loop.
\<close>

locale frame =
  fixes keeps :: "'s \<Rightarrow> 's \<Rightarrow> bool"
  assumes keeps_refl: "keeps s s"
    and keeps_trans: "keeps s t \<Longrightarrow> keeps t u \<Longrightarrow> keeps s u"
begin

lemma keeps_obind:
  assumes "obind r f = Some (Inr u)" "\<And>t. r = Some (Inr t) \<Longrightarrow> keeps s t"
    and "\<And>t. f t = Some (Inr u) \<Longrightarrow> keeps t u"
  shows "keeps s u"
  using assms keeps_trans by (auto simp: obind_eq_Inr)

lemma keeps_sbind:
  assumes "sbind r f = Inr u" "\<And>t. r = Inr t \<Longrightarrow> keeps s t" "\<And>t. f t = Inr u \<Longrightarrow> keeps t u"
  shows "keeps s u"
  using assms keeps_trans by (auto simp: sbind_eq_Inr)

lemma keeps_foldE:
  assumes "foldE f xs s = Inr u" "\<And>x s t. x \<in> set xs \<Longrightarrow> f x s = Inr t \<Longrightarrow> keeps s t"
  shows "keeps s u"
  using foldE_invariant [OF assms(1), of "keeps s"] assms(2) keeps_refl keeps_trans by blast

end

section \<open>The C loop \<open>for (i; i < n; i += st)\<close> over \<open>uint64_t\<close>\<close>

text \<open>
  \<open>None\<close> is "the loop does not end": the counter wraps around when \<open>n\<close> is within \<open>st\<close> of
  \<open>2 ^ 64\<close>. \<open>for_u64_foldE\<close> gives the value of every loop that cannot wrap.
\<close>

partial_function (option) for_u64 ::
  "u64 \<Rightarrow> u64 \<Rightarrow> u64 \<Rightarrow> (u64 \<Rightarrow> 's \<Rightarrow> 'e + 's) \<Rightarrow> 's \<Rightarrow> ('e + 's) option" where
  "for_u64 i n st body s =
     (if i < n
      then (case body i s of Inl e \<Rightarrow> Some (Inl e) | Inr s' \<Rightarrow> for_u64 (i + st) n st body s')
      else Some (Inr s))"

definition steps_count :: "u64 \<Rightarrow> u64 \<Rightarrow> u64 \<Rightarrow> nat" where
  "steps_count i n st = (unat n - unat i + unat st - 1) div unat st"

definition steps :: "u64 \<Rightarrow> u64 \<Rightarrow> u64 \<Rightarrow> u64 list" where
  "steps i n st = map (\<lambda>k. i + of_nat k * st) [0..<steps_count i n st]"

lemma steps_empty: "\<not> i < n \<Longrightarrow> steps i n st = []"
  by (cases "unat st = 0")
    (auto simp: steps_def steps_count_def word_less_nat_alt div_less)

lemma steps_count_Suc:
  assumes "i < n" "0 < st" "unat n + unat st \<le> 2 ^ 64"
  shows "steps_count i n st = Suc (steps_count (i + st) n st)"
    and "unat (i + st) = unat i + unat st"
proof -
  let ?d = "unat st"
  have d: "0 < ?d" using assms(2) by (simp add: word_less_nat_alt)
  have lt: "unat i < unat n" using assms(1) by (simp add: word_less_nat_alt)
  show add: "unat (i + st) = unat i + ?d"
    using lt assms(3) by (intro unat_add_no_wrap) linarith
  define m where "m = unat n - unat i"
  have m: "0 < m" using lt by (simp add: m_def)
  have "m + ?d - 1 = (m - 1) + ?d" using m by simp
  then have "(m + ?d - 1) div ?d = Suc ((m - 1) div ?d)"
    using d by (simp only: div_add_self2 Suc_eq_plus1)
  moreover have "(m - 1) div ?d = (m - ?d + ?d - 1) div ?d"
    using d m by (cases "?d \<le> m") simp_all
  ultimately show "steps_count i n st = Suc (steps_count (i + st) n st)"
    by (simp add: steps_count_def add m_def)
qed

lemma steps_Cons:
  assumes "i < n" "0 < st" "unat n + unat st \<le> 2 ^ 64"
  shows "steps i n st = i # steps (i + st) n st"
proof -
  have "[0..<steps_count i n st] = 0 # map Suc [0..<steps_count (i + st) n st]"
    by (simp add: steps_count_Suc(1) [OF assms] upt_conv_Cons map_Suc_upt del: upt_Suc)
  then show ?thesis
    by (simp add: steps_def algebra_simps comp_def)
qed

lemma for_u64_foldE:
  assumes "0 < st" "unat n + unat st \<le> 2 ^ 64"
  shows "for_u64 i n st body s = Some (foldE body (steps i n st) s)"
proof (induction "unat n - unat i" arbitrary: i s rule: less_induct)
  case less
  show ?case
  proof (cases "i < n")
    case False
    then show ?thesis by (simp add: for_u64.simps steps_empty)
  next
    case True
    have lt: "unat i < unat n" using True by (simp add: word_less_nat_alt)
    have "0 < unat st" using assms(1) by (simp add: word_less_nat_alt)
    then have dec: "unat n - unat (i + st) < unat n - unat i"
      using lt steps_count_Suc(2) [OF True assms] by simp
    show ?thesis
      by (subst for_u64.simps)
        (simp add: True steps_Cons [OF True assms] less [OF dec] sbind_def split: sum.split)
  qed
qed

lemma for_u64_1: "for_u64 i n 1 body s = Some (foldE body (steps i n 1) s)"
proof (rule for_u64_foldE)
  show "unat n + unat (1 :: u64) \<le> 2 ^ 64"
    using unat_u64_bound [of n] by (simp del: unat_u64_bound)
qed simp

lemma steps_1: "steps 0 n 1 = map of_nat [0..<unat n]"
  by (simp add: steps_def steps_count_def)

lemma set_steps_0:
  assumes "0 < st" "unat n + unat st \<le> 2 ^ 64" "x \<in> set (steps 0 n st)"
  shows "\<exists>k. x = of_nat k * st \<and> unat x = k * unat st \<and> unat x < unat n"
proof -
  obtain k where k: "x = of_nat k * st" "k < steps_count 0 n st"
    using assms(3) by (auto simp: steps_def)
  have d: "0 < unat st" using assms(1) by (simp add: word_less_nat_alt)
  have "k < (unat n + unat st - 1) div unat st"
    using k(2) by (simp add: steps_count_def)
  then have "Suc k * unat st \<le> unat n + unat st - 1"
    by (metis Suc_leI less_eq_div_iff_mult_less_eq d)
  then have lt: "k * unat st < unat n" using d by simp
  moreover have "unat n < 2 ^ 64" by simp
  ultimately have lt64: "k * unat st < 2 ^ 64" by linarith
  then have "k < 2 ^ 64"
    using d by (metis le_less_trans mult.right_neutral mult_le_mono2 Suc_leI One_nat_def)
  then have "unat x = k * unat st"
    using lt64 k(1) by (simp add: unat_word_ariths unat_of_nat_u64)
  then show ?thesis using k(1) lt by auto
qed

end
