(* ===== verification/Machine.thy ===== *)
theory Machine
  imports Prelude
begin

text \<open>
  The state every component works on: physical memory seen through the address translation
  in force, the terminal, the port and register accesses made so far, and the kernel's
  global variables, with the structs of the headers they are made of. Then the memory and
  port primitives (\<open>kern/include/io.c\<close>) and the \<open>cli\<close>/\<open>hlt\<close> stop of a panic.
\<close>

section \<open>Structs of the headers\<close>

text \<open>\<open>limine.h\<close>: the boot protocol's responses the kernel reads.\<close>

record limine_memmap_entry =
  me_base :: u64
  me_length :: u64
  me_type :: u64

definition LIMINE_MEMMAP_USABLE :: u64 where "LIMINE_MEMMAP_USABLE = 0"
definition LIMINE_MEMMAP_ACPI_RECLAIMABLE :: u64 where "LIMINE_MEMMAP_ACPI_RECLAIMABLE = 2"
definition LIMINE_MEMMAP_BOOTLOADER_RECLAIMABLE :: u64 where
  "LIMINE_MEMMAP_BOOTLOADER_RECLAIMABLE = 5"
definition LIMINE_MEMMAP_FRAMEBUFFER :: u64 where "LIMINE_MEMMAP_FRAMEBUFFER = 7"

record limine_kernel_address_response =
  physical_base :: u64
  virtual_base :: u64

record limine_smp_info =
  processor_id :: u32
  smp_lapic_id :: u32
  goto_address :: u64

text \<open>The members of the framebuffer the terminal is made on.\<close>

record limine_framebuffer =
  fb_address :: u64
  fb_width :: u64
  fb_height :: u64
  fb_pitch :: u64

text \<open>
  What the boot loader put behind the requests; \<open>None\<close> is a null \<open>response\<close> pointer.
  The linker symbols of \<open>linker.ld\<close> are here too.
\<close>

record boot_info =
  memmap_response :: "limine_memmap_entry list option"
  hhdm_response :: "u64 option"
  kernel_address_response :: "limine_kernel_address_response option"
  rsdp_response :: "u64 option"
  framebuffer_response :: "limine_framebuffer list option"
  text_start_addr :: u64
  text_end_addr :: u64
  rodata_start_addr :: u64
  rodata_end_addr :: u64
  data_start_addr :: u64
  data_end_addr :: u64

text \<open>\<open>gdt.h\<close>, \<open>idt.h\<close> and \<open>apic.h\<close>.\<close>

record gdtdesc =
  limit_low :: u16
  base_low :: u16
  base_middle :: u8
  access :: u8
  granularity :: u8
  base_high :: u8

record gdtptr =
  gdtr_limit_low :: u16
  gdtr_base :: u64

record idtentry =
  isr_low :: u16
  kernel_cs :: u16
  ist :: u8
  attributes :: u8
  isr_mid :: u16
  isr_high :: u32
  reserved :: u32

record idtrr =
  idtr_limit :: u16
  idtr_base :: u64

record madt_ics_t =
  ics_address :: u64
  ics_type :: u8
  ics_apic_id :: u8
  ics_present :: bool

section \<open>Devices\<close>

text \<open>
  The accesses the kernel makes to the hardware, in order. What a read returns is decided
  by the device, which may depend on everything that was done to it before.
  \<open>Load_Segments\<close> is the reload of the data segment registers and of the code segment, \<open>Goto i\<close>
  the store to \<open>goto_address\<close> that the \<open>i\<close>-th processor waits for.
\<close>

datatype io_event =
    OutB u16 u8
  | InB u16 u8
  | InL u16 u32
  | Mmio_Write u64 u32
  | Mmio_Write64 u64 u64
  | Mmio_Read u64 u32
  | RdMsr u32 u64
  | WrMsr u32 u32 u32
  | Lgdt u16 u64
  | Load_Segments u16 u16
  | Ltr u16
  | Lidt u16 u64
  | LoadCr3 u64
  | Cli
  | Sti
  | Hlt
  | Goto nat u64

record device =
  dev_inb :: "io_event list \<Rightarrow> u16 \<Rightarrow> u8"
  dev_inl :: "io_event list \<Rightarrow> u16 \<Rightarrow> u32"
  dev_mmio :: "io_event list \<Rightarrow> u64 \<Rightarrow> u32"
  dev_msr :: "io_event list \<Rightarrow> u32 \<Rightarrow> u64"

section \<open>The kernel's state\<close>

text \<open>
  \<open>phys\<close> is physical memory, \<open>vm\<close> the translation of virtual addresses in force (the
  boot loader's), \<open>console\<close> the buffers handed to \<open>flanterm_write\<close>, \<open>io\<close> the device
  accesses; the other fields are the C globals of the same name.
\<close>

record kernel =
  phys :: "u64 \<Rightarrow> u8"
  vm :: "u64 \<Rightarrow> u64"
  cr3 :: u64
  console :: "string list"
  io :: "io_event list"
  dev :: device
  boot :: boot_info
  hhdmoffset :: u64
  memmap :: "limine_memmap_entry list"
  memmap_entry_count :: u64
  pmm_usable_addr :: u64
  pmm_usable_top :: u64
  pmm_free_blocks :: u64
  pmm_block_count :: u64
  pmm_mem_size :: u64
  pmm_bitmap :: u64
  pml4addr :: u64
  kernel_pml4addr :: u64
  rsdt :: u64
  xsdt :: u64
  fadt :: u64
  madt :: u64
  lapic_address :: u64
  lapic_addr :: u32
  ioapic_address :: u64
  apic_timer_ticks :: u64
  ics_array :: "madt_ics_t list"
  keyboard_state :: i32
  ft_ctx :: u64
  gdt :: "gdtdesc list"
  gdtr :: gdtptr
  idt :: "idtentry list"
  idtpr :: idtrr
  state_single_processor :: bool
  smp_response :: "limine_smp_info list option"

text \<open>
  The globals as the loader leaves them: \<open>.bss\<close> is zero and the arrays have their declared
  lengths.
\<close>

definition zero_gdtdesc :: gdtdesc where
  "zero_gdtdesc = \<lparr>limit_low = 0, base_low = 0, base_middle = 0, access = 0, granularity = 0,
     base_high = 0\<rparr>"

definition zero_idtentry :: idtentry where
  "zero_idtentry = \<lparr>isr_low = 0, kernel_cs = 0, ist = 0, attributes = 0, isr_mid = 0,
     isr_high = 0, reserved = 0\<rparr>"

definition zero_ics :: madt_ics_t where
  "zero_ics = \<lparr>ics_address = 0, ics_type = 0, ics_apic_id = 0, ics_present = False\<rparr>"

definition initial_kernel ::
  "(u64 \<Rightarrow> u8) \<Rightarrow> (u64 \<Rightarrow> u64) \<Rightarrow> device \<Rightarrow> boot_info \<Rightarrow> limine_smp_info list option \<Rightarrow> kernel" where
  "initial_kernel m v d b smp =
     \<lparr>phys = m, vm = v, cr3 = 0, console = [], io = [], dev = d, boot = b,
      hhdmoffset = 0, memmap = [], memmap_entry_count = 0, pmm_usable_addr = 0,
      pmm_usable_top = 0, pmm_free_blocks = 0, pmm_block_count = 0, pmm_mem_size = 0,
      pmm_bitmap = 0, pml4addr = 0, kernel_pml4addr = 0, rsdt = 0, xsdt = 0, fadt = 0,
      madt = 0, lapic_address = 0, lapic_addr = 0, ioapic_address = 0, apic_timer_ticks = 0,
      ics_array = replicate 64 zero_ics, keyboard_state = 0, ft_ctx = 0, gdt = replicate 7 zero_gdtdesc,
      gdtr = \<lparr>gdtr_limit_low = 0, gdtr_base = 0\<rparr>, idt = replicate 256 zero_idtentry,
      idtpr = \<lparr>idtr_limit = 0, idtr_base = 0\<rparr>, state_single_processor = False,
      smp_response = smp\<rparr>"

text \<open>
  How an operation stops: the processor was halted by \<open>log_panic\<close> or an exception, or the
  C code did something the language gives no meaning to.
\<close>

datatype fault =
    Halted
  | Va_mismatch
  | Bad_shift
  | Out_of_bounds
  | Null_deref

type_synonym failure = "fault \<times> kernel"

section \<open>Memory\<close>

definition rd8 :: "kernel \<Rightarrow> u64 \<Rightarrow> u8" where
  "rd8 s a = phys s (vm s a)"

definition wr8 :: "u64 \<Rightarrow> u8 \<Rightarrow> kernel \<Rightarrow> kernel" where
  "wr8 a v s = s\<lparr>phys := (phys s)(vm s a := v)\<rparr>"

text \<open>Little-endian words in a byte memory.\<close>

definition ld64 :: "(u64 \<Rightarrow> u8) \<Rightarrow> u64 \<Rightarrow> u64" where
  "ld64 m a = word_rcat [m (a + 7), m (a + 6), m (a + 5), m (a + 4),
                         m (a + 3), m (a + 2), m (a + 1), m a]"

definition st64 :: "u64 \<Rightarrow> u64 \<Rightarrow> (u64 \<Rightarrow> u8) \<Rightarrow> u64 \<Rightarrow> u8" where
  "st64 a v m = (\<lambda>x. if x - a < 8 then ucast (drop_bit (8 * unat (x - a)) v) else m x)"

definition ld32 :: "(u64 \<Rightarrow> u8) \<Rightarrow> u64 \<Rightarrow> u32" where
  "ld32 m a = word_rcat [m (a + 3), m (a + 2), m (a + 1), m a]"

definition rd64 :: "kernel \<Rightarrow> u64 \<Rightarrow> u64" where
  "rd64 s a = ld64 (rd8 s) a"

definition rd32 :: "kernel \<Rightarrow> u64 \<Rightarrow> u32" where
  "rd32 s a = ld32 (rd8 s) a"

definition byte_of :: "nat \<Rightarrow> u64 \<Rightarrow> u8" where
  "byte_of k v = ucast (drop_bit (8 * k) v)"

definition wr64 :: "u64 \<Rightarrow> u64 \<Rightarrow> kernel \<Rightarrow> kernel" where
  "wr64 a v s = fold (\<lambda>k. wr8 (a + of_nat k) (byte_of k v)) [0..<8] s"

section \<open>Ports, model-specific registers and memory-mapped registers (\<open>io.c\<close>)\<close>

definition emit :: "io_event \<Rightarrow> kernel \<Rightarrow> kernel" where
  "emit e s = s\<lparr>io := io s @ [e]\<rparr>"

definition outb :: "u16 \<Rightarrow> u8 \<Rightarrow> kernel \<Rightarrow> kernel" where
  "outb port val = emit (OutB port val)"

definition inb :: "u16 \<Rightarrow> kernel \<Rightarrow> u8 \<times> kernel" where
  "inb port s = (let r = dev_inb (dev s) (io s) port in (r, emit (InB port r) s))"

definition inl :: "u16 \<Rightarrow> kernel \<Rightarrow> u32 \<times> kernel" where
  "inl port s = (let r = dev_inl (dev s) (io s) port in (r, emit (InL port r) s))"

definition rdmsr :: "u64 \<Rightarrow> kernel \<Rightarrow> u64 \<times> kernel" where
  "rdmsr msr s =
     (let v = dev_msr (dev s) (io s) (ucast msr);
          low = ucast v :: u32;
          high = ucast (drop_bit 32 v) :: u32
      in (push_bit 32 (ucast high) OR ucast low, emit (RdMsr (ucast msr) v) s))"

definition wrmsr :: "u64 \<Rightarrow> u64 \<Rightarrow> kernel \<Rightarrow> kernel" where
  "wrmsr msr val =
     (let low = ucast (val AND 0xFFFFFFFF) :: u32; high = ucast (drop_bit 32 val) :: u32
      in emit (WrMsr (ucast msr) low high))"

definition write_reg :: "u64 \<Rightarrow> u32 \<Rightarrow> kernel \<Rightarrow> kernel" where
  "write_reg addr val = emit (Mmio_Write addr val)"

definition mmio_read :: "u64 \<Rightarrow> kernel \<Rightarrow> u32 \<times> kernel" where
  "mmio_read addr s = (let r = dev_mmio (dev s) (io s) addr in (r, emit (Mmio_Read addr r) s))"

text \<open>\<open>cli; hlt\<close>: interrupts are off, so the processor does not come back.\<close>

definition cli_hlt :: "kernel \<Rightarrow> failure" where
  "cli_hlt s = (Halted, emit Hlt (emit Cli s))"

section \<open>Laws of the memory\<close>

lemma bit_word_rcat:
  fixes ws :: "'a::len word list"
  shows "bit (word_rcat ws :: 'b::len word) n \<longleftrightarrow>
    n < LENGTH('b) \<and> n div LENGTH('a) < length ws \<and> bit (rev ws ! (n div LENGTH('a))) (n mod LENGTH('a))"
  by (simp add: word_rcat_def bit_word_of_int_iff bit_horner_sum_uint_exp_iff)

lemma ld64_bytes: "ld64 m a = word_rcat (rev (map (\<lambda>k. m (a + of_nat k)) [0..<8]))"
  by (simp add: ld64_def upt_conv_Cons)

lemma bit_ld64:
  "bit (ld64 m a) n \<longleftrightarrow> n < 64 \<and> bit (m (a + of_nat (n div 8))) (n mod 8)"
  by (auto simp: ld64_bytes bit_word_rcat simp del: upt_Suc)

lemma u64_less_8_unat: "(x :: u64) < 8 \<longleftrightarrow> unat x < 8"
  by (simp add: word_less_nat_alt)

lemma ld64_st64_same [byte_simps]: "ld64 (st64 a v m) a = v"
proof (rule bit_word_eqI)
  fix n
  assume "n < LENGTH(64)"
  then have n: "n div 8 < 8" "n < 64" by auto
  then have u: "unat (of_nat (n div 8) :: u64) = n div 8" by (simp add: unat_of_nat)
  have "8 * (n div 8) + n mod 8 = n" by simp
  then show "bit (ld64 (st64 a v m) a) n = bit v n"
    using n by (simp add: bit_ld64 st64_def u64_less_8_unat u bit_simps)
qed

text \<open>Two words of the memory that do not overlap.\<close>

definition apart8 :: "u64 \<Rightarrow> u64 \<Rightarrow> bool" where
  "apart8 a b \<longleftrightarrow> (\<forall>i<8. \<not> b + of_nat i - a < 8)"

lemma ld64_st64_other: "apart8 a b \<Longrightarrow> ld64 (st64 a v m) b = ld64 m b"
  unfolding ld64_bytes
  by (intro arg_cong [where f = word_rcat] arg_cong [where f = rev] map_cong)
    (auto simp: apart8_def st64_def)

lemma ld64_cong: "(\<And>k. k < 8 \<Longrightarrow> m (a + of_nat k) = m' (a + of_nat k)) \<Longrightarrow> ld64 m a = ld64 m' a"
  unfolding ld64_bytes
  by (intro arg_cong [where f = word_rcat] arg_cong [where f = rev] map_cong) auto

lemma apart8_aligned:
  assumes "8 dvd unat a" "8 dvd unat b" "a \<noteq> b"
  shows "apart8 a b"
  unfolding apart8_def
proof (intro allI impI notI)
  fix i :: nat
  assume i: "i < 8" and lt: "b + of_nat i - a < 8"
  define j where "j = unat (b + of_nat i - a)"
  have j: "j < 8" using lt by (simp add: j_def u64_less_8_unat)
  have b8: "unat b + i < 2 ^ 64" "unat a + j < 2 ^ 64"
  proof -
    have "8 dvd unat x \<Longrightarrow> unat x + 7 < 2 ^ 64" for x :: u64
      using unat_u64_bound [of x] by (auto elim!: dvdE simp del: unat_u64_bound)
    with assms(1,2) i j show "unat b + i < 2 ^ 64" "unat a + j < 2 ^ 64" by fastforce+
  qed
  have "b + of_nat i = a + of_nat j" by (simp add: j_def)
  then have "unat b + i = unat a + j"
    using b8 by (metis unat_add_of_nat)
  then have "unat b = unat a" using assms(1,2) i j by presburger
  then show False using assms(3) by (simp add: word_unat_eq_iff)
qed

text \<open>A machine with empty boot responses whose devices read as zero, for closed examples.\<close>

definition quiet_device :: device where
  "quiet_device = \<lparr>dev_inb = (\<lambda>_ _. 0), dev_inl = (\<lambda>_ _. 0), dev_mmio = (\<lambda>_ _. 0),
     dev_msr = (\<lambda>_ _. 0)\<rparr>"

definition no_boot :: boot_info where
  "no_boot = \<lparr>memmap_response = None, hhdm_response = None, kernel_address_response = None,
     rsdp_response = None, framebuffer_response = None, text_start_addr = 0, text_end_addr = 0,
     rodata_start_addr = 0, rodata_end_addr = 0, data_start_addr = 0, data_end_addr = 0\<rparr>"

definition quiet_kernel :: kernel where
  "quiet_kernel = initial_kernel (\<lambda>_. 0) (\<lambda>a. a) quiet_device no_boot None"

lemma quiet_kernel_simps [simp]:
  "phys quiet_kernel = (\<lambda>_. 0)" "vm quiet_kernel = (\<lambda>a. a)" "console quiet_kernel = []"
  "io quiet_kernel = []" "dev quiet_kernel = quiet_device" "hhdmoffset quiet_kernel = 0"
  by (simp_all add: quiet_kernel_def initial_kernel_def)

end
