(* ===== verification/CString.thy ===== *)
theory CString
  imports Machine
begin

text \<open>
  \<open>kern/include/string.c\<close>: the byte loops over virtual addresses. \<open>size_t\<close> counters are
  \<open>u64\<close>; \<open>strlen\<close> is \<open>None\<close> when no terminator is ever met.
\<close>

section \<open>The functions\<close>

function memcpy_loop :: "u64 \<Rightarrow> u64 \<Rightarrow> u64 \<Rightarrow> u64 \<Rightarrow> kernel \<Rightarrow> kernel" where
  "memcpy_loop pdest psrc i n s =
     (if i < n
      then memcpy_loop pdest psrc (i + 1) n (wr8 (pdest + i) (rd8 s (psrc + i)) s)
      else s)"
  by pat_completeness auto
termination
  by (relation "measure (\<lambda>(_, _, i, n, _). unat n - unat i)") (auto intro: loop_measure)

definition memcpy :: "u64 \<Rightarrow> u64 \<Rightarrow> u64 \<Rightarrow> kernel \<Rightarrow> u64 \<times> kernel" where
  "memcpy dest src n s = (dest, memcpy_loop dest src 0 n s)"

function memset_loop :: "u64 \<Rightarrow> i32 \<Rightarrow> u64 \<Rightarrow> u64 \<Rightarrow> kernel \<Rightarrow> kernel" where
  "memset_loop p c i n s =
     (if i < n then memset_loop p c (i + 1) n (wr8 (p + i) (ucast c) s) else s)"
  by pat_completeness auto
termination
  by (relation "measure (\<lambda>(_, _, i, n, _). unat n - unat i)") (auto intro: loop_measure)

definition memset :: "u64 \<Rightarrow> i32 \<Rightarrow> u64 \<Rightarrow> kernel \<Rightarrow> u64 \<times> kernel" where
  "memset s c n k = (s, memset_loop s c 0 n k)"

text \<open>The second loop of \<open>memmove\<close>, from the last byte down.\<close>

function memmove_down :: "u64 \<Rightarrow> u64 \<Rightarrow> u64 \<Rightarrow> kernel \<Rightarrow> kernel" where
  "memmove_down pdest psrc i s =
     (if 0 < i
      then memmove_down pdest psrc (i - 1) (wr8 (pdest + (i - 1)) (rd8 s (psrc + (i - 1))) s)
      else s)"
  by pat_completeness auto
termination
  by (relation "measure (\<lambda>(_, _, i, _). unat i)")
    (auto simp: measure_unat word_neq_0_conv)

definition memmove :: "u64 \<Rightarrow> u64 \<Rightarrow> u64 \<Rightarrow> kernel \<Rightarrow> u64 \<times> kernel" where
  "memmove dest src n s =
     (dest, if dest < src then memcpy_loop dest src 0 n s
            else if src < dest then memmove_down dest src n s
            else s)"

function memcmp_loop :: "kernel \<Rightarrow> u64 \<Rightarrow> u64 \<Rightarrow> u64 \<Rightarrow> u64 \<Rightarrow> i32" where
  "memcmp_loop s p1 p2 i n =
     (if i < n
      then if rd8 s (p1 + i) \<noteq> rd8 s (p2 + i)
           then if rd8 s (p1 + i) < rd8 s (p2 + i) then - 1 else 1
           else memcmp_loop s p1 p2 (i + 1) n
      else 0)"
  by pat_completeness auto
termination
  by (relation "measure (\<lambda>(_, _, _, i, n). unat n - unat i)") (auto intro: loop_measure)

definition memcmp :: "kernel \<Rightarrow> u64 \<Rightarrow> u64 \<Rightarrow> u64 \<Rightarrow> i32" where
  "memcmp s s1 s2 n = memcmp_loop s s1 s2 0 n"

partial_function (option) strlen_loop :: "kernel \<Rightarrow> u64 \<Rightarrow> u64 \<Rightarrow> u64 option" where
  "strlen_loop s str len = (if rd8 s (str + len) \<noteq> 0 then strlen_loop s str (len + 1) else Some len)"

definition strlen :: "kernel \<Rightarrow> u64 \<Rightarrow> u64 option" where
  "strlen s str = strlen_loop s str 0"

declare memcpy_loop.simps [simp del] memset_loop.simps [simp del]
  memmove_down.simps [simp del] memcmp_loop.simps [simp del]

section \<open>The loops as folds over the byte indices\<close>

definition copy1 :: "u64 \<Rightarrow> u64 \<Rightarrow> nat \<Rightarrow> kernel \<Rightarrow> kernel" where
  "copy1 d r k s = wr8 (d + of_nat k) (rd8 s (r + of_nat k)) s"

lemma upt_loop: "i < n \<Longrightarrow> [unat i..<unat n] = unat i # [unat (i + 1)..<unat n]" for i n :: u64
  by (simp add: upt_conv_Cons word_less_nat_alt unat_Suc_u64)

lemma upt_loop_end: "\<not> i < n \<Longrightarrow> [unat i..<unat n] = []" for i n :: u64
  by (simp add: word_less_nat_alt)

lemma memcpy_loop_fold: "memcpy_loop d r i n s = fold (copy1 d r) [unat i..<unat n] s"
proof (induction d r i n s rule: memcpy_loop.induct)
  case (1 d r i n s)
  then show ?case
    by (subst memcpy_loop.simps) (auto simp: upt_loop upt_loop_end copy1_def [abs_def])
qed

lemma memset_loop_fold:
  "memset_loop p c i n s = fold (\<lambda>k. wr8 (p + of_nat k) (ucast c)) [unat i..<unat n] s"
proof (induction p c i n s rule: memset_loop.induct)
  case (1 p c i n s)
  then show ?case
    by (subst memset_loop.simps) (auto simp: upt_loop upt_loop_end)
qed

lemma memmove_down_fold: "memmove_down d r i s = fold (copy1 d r) (rev [0..<unat i]) s"
proof (induction d r i s rule: memmove_down.induct)
  case (1 d r i s)
  show ?case
  proof (cases "0 < i")
    case True
    then have "unat i = Suc (unat (i - 1))"
      using unat_minus_one [of i] unat_gt_0 [of i] by (simp add: word_neq_0_conv)
    moreover have "(of_nat (unat (i - 1)) :: u64) = i - 1" by simp
    ultimately show ?thesis
      using 1 True by (subst memmove_down.simps) (simp add: copy1_def [abs_def] del: of_nat_unat)
  next
    case False
    then have "unat i = 0" by (simp add: word_less_nat_alt)
    with False show ?thesis by (subst memmove_down.simps) simp
  qed
qed

section \<open>What a sequence of byte writes does\<close>

lemma wr8_frame [kern_simps]:
  "vm (wr8 a v s) = vm s" "console (wr8 a v s) = console s" "io (wr8 a v s) = io s"
  by (simp_all add: wr8_def)

lemma phys_wr8: "phys (wr8 a v s) = (phys s)(vm s a := v)"
  by (simp add: wr8_def)

text \<open>\<open>s \<sim> t\<close> up to memory: only physical bytes differ.\<close>

definition mem_only :: "kernel \<Rightarrow> kernel \<Rightarrow> bool" where
  "mem_only s t \<longleftrightarrow> t = s\<lparr>phys := phys t\<rparr>"

lemma mem_only_refl [simp]: "mem_only s s"
  by (simp add: mem_only_def)

lemma mem_only_wr8 [intro]: "mem_only s (wr8 a v s)"
  by (simp add: mem_only_def wr8_def)

lemma mem_only_trans [trans]: "mem_only s t \<Longrightarrow> mem_only t u \<Longrightarrow> mem_only s u"
  by (simp add: mem_only_def) (metis kernel.update_convs(1) kernel.surjective)

lemma mem_only_vm: "mem_only s t \<Longrightarrow> vm t = vm s"
  by (metis kernel.select_convs(2) kernel.surjective kernel.update_convs(1) mem_only_def)

lemma mem_only_fold:
  "(\<And>k u. mem_only u (f k u)) \<Longrightarrow> mem_only s (fold f ks s)"
  by (induction ks arbitrary: s) (auto intro: mem_only_trans)

lemma memset_fold_phys:
  "phys (fold (\<lambda>k. wr8 (p + of_nat k) c) ks s) =
     (\<lambda>x. if \<exists>k \<in> set ks. vm s (p + of_nat k) = x then c else phys s x)"
proof (induction ks arbitrary: s)
  case Nil
  then show ?case by simp
next
  case (Cons k ks)
  show ?case
    by (rule ext) (auto simp: Cons.IH phys_wr8 kern_simps)
qed

lemma memset_loop_phys:
  "phys (memset_loop p c 0 n s) =
     (\<lambda>x. if \<exists>k < unat n. vm s (p + of_nat k) = x then ucast c else phys s x)"
  by (auto simp: memset_loop_fold memset_fold_phys fun_eq_iff Bex_def)

lemma memset_mem_only: "mem_only s (snd (memset p c n s))"
  by (auto simp: memset_def memset_loop_fold intro!: mem_only_fold)


section \<open>Copies\<close>

text \<open>The addresses of an object of \<open>n\<close> bytes at \<open>p\<close>.\<close>

definition region :: "u64 \<Rightarrow> nat \<Rightarrow> u64 set" where
  "region p n = (\<lambda>k. p + of_nat k) ` {..<n}"

lemma region_I [intro]: "k < n \<Longrightarrow> p + of_nat k \<in> region p n"
  by (simp add: region_def)

text \<open>
  Bytes copied one by one in the order \<open>ks\<close>, no byte of the source being overwritten before
  its turn, arrive unchanged, and nothing else changes.
\<close>

lemma copy_fold:
  assumes inj: "inj_on (vm s) (region d n \<union> region r n)"
    and ks: "distinct ks" "set ks \<subseteq> {..<n}" "n < 2 ^ 64"
    and order: "\<And>pre k post j. ks = pre @ k # post \<Longrightarrow> j \<in> set pre \<Longrightarrow> d + of_nat j \<noteq> r + of_nat k"
  defines "t \<equiv> fold (copy1 d r) ks s"
  shows "(\<forall>k \<in> set ks. rd8 t (d + of_nat k) = rd8 s (r + of_nat k)) \<and>
    (\<forall>x. (\<forall>k \<in> set ks. vm s (d + of_nat k) \<noteq> x) \<longrightarrow> phys t x = phys s x) \<and> mem_only s t"
  using ks(1,2) order unfolding t_def
proof (induction ks rule: rev_induct)
  case Nil
  then show ?case by simp
next
  case (snoc k ks)
  define u where "u = fold (copy1 d r) ks s"
  have IH: "(\<forall>j \<in> set ks. rd8 u (d + of_nat j) = rd8 s (r + of_nat j))"
    "\<And>x. (\<forall>j \<in> set ks. vm s (d + of_nat j) \<noteq> x) \<Longrightarrow> phys u x = phys s x" "mem_only s u"
    using snoc.IH snoc.prems by (auto simp: u_def)
  have vm: "vm u = vm s" using IH(3) by (rule mem_only_vm)
  have k: "k < n" and ksn: "set ks \<subseteq> {..<n}" "k \<notin> set ks" using snoc.prems by auto
  have src: "phys u (vm s (r + of_nat k)) = phys s (vm s (r + of_nat k))"
  proof (rule IH(2), rule ballI)
    fix j
    assume j: "j \<in> set ks"
    then have "d + of_nat j \<noteq> r + of_nat k" using snoc.prems(3) [of ks k "[]"] by simp
    moreover have "d + of_nat j \<in> region d n" "r + of_nat k \<in> region r n"
      using j ksn k by auto
    ultimately show "vm s (d + of_nat j) \<noteq> vm s (r + of_nat k)"
      using inj by (meson UnI1 UnI2 inj_onD)
  qed
  have dst: "vm s (d + of_nat j) \<noteq> vm s (d + of_nat k)" if "j \<in> set ks" for j
  proof -
    have "j < n" "j \<noteq> k" using that ksn by auto
    then have "d + of_nat j \<noteq> d + of_nat k"
      using k \<open>n < 2 ^ 64\<close> by (simp add: of_nat_inj_u64)
    moreover have "d + of_nat j \<in> region d n" "d + of_nat k \<in> region d n"
      using \<open>j < n\<close> k by auto
    ultimately show ?thesis using inj by (meson UnI1 inj_onD)
  qed
  define v where "v = copy1 d r k u"
  have v: "fold (copy1 d r) (ks @ [k]) s = v" by (simp add: u_def v_def)
  have "mem_only s v"
    using IH(3) by (auto simp: v_def copy1_def intro: mem_only_trans)
  moreover have phys: "phys v = (phys u)(vm s (d + of_nat k) := phys s (vm s (r + of_nat k)))"
    by (simp add: v_def copy1_def phys_wr8 rd8_def vm src)
  moreover have "vm v = vm s" by (simp add: v_def copy1_def kern_simps vm)
  ultimately show ?case
    unfolding v using IH(1,2) dst by (simp add: rd8_def vm)
qed

lemma region_forward:
  fixes d r :: u64
  assumes "d < r" "unat r + n \<le> 2 ^ 64" "j < k" "k < n"
  shows "d + of_nat j \<noteq> r + of_nat k"
proof -
  have "unat d < unat r" using assms(1) by (simp add: word_less_nat_alt)
  then have "unat (d + of_nat j) = unat d + j" "unat (r + of_nat k) = unat r + k"
    using assms by (auto intro!: unat_add_of_nat)
  then show ?thesis using \<open>unat d < unat r\<close> assms(3) by auto
qed

lemma region_backward:
  fixes d r :: u64
  assumes "r < d" "unat d + n \<le> 2 ^ 64" "k < j" "j < n"
  shows "d + of_nat j \<noteq> r + of_nat k"
  using region_forward [of r d n k j] assms by auto

text \<open>
  \<open>memcpy\<close> is correct where the destination starts below the source or the two objects do
  not meet; \<open>memmove\<close> always.
\<close>

definition copied :: "u64 \<Rightarrow> u64 \<Rightarrow> nat \<Rightarrow> kernel \<Rightarrow> kernel \<Rightarrow> bool" where
  "copied d r n s t \<longleftrightarrow>
     (\<forall>k < n. rd8 t (d + of_nat k) = rd8 s (r + of_nat k)) \<and>
     (\<forall>x. (\<forall>k < n. vm s (d + of_nat k) \<noteq> x) \<longrightarrow> phys t x = phys s x) \<and> mem_only s t"

lemma copied_fold:
  assumes "inj_on (vm s) (region d n \<union> region r n)" "n < 2 ^ 64"
    and "distinct ks" "set ks = {..<n}"
    and "\<And>pre k post j. ks = pre @ k # post \<Longrightarrow> j \<in> set pre \<Longrightarrow> d + of_nat j \<noteq> r + of_nat k"
  shows "copied d r n s (fold (copy1 d r) ks s)"
  using copy_fold [of s d n r ks] assms by (auto simp: copied_def)

lemma upt_split_less: "[0..<n] = pre @ k # post \<Longrightarrow> j \<in> set pre \<Longrightarrow> j < k \<and> k < n"
proof -
  assume s: "[0..<n] = pre @ k # post" and j: "j \<in> set pre"
  have "sorted_wrt (<) (pre @ k # post)"
    using sorted_wrt_upt [of 0 n] s by simp
  moreover have "k \<in> set [0..<n]" using s by (metis in_set_conv_decomp)
  ultimately show ?thesis using j by (auto simp: sorted_wrt_append)
qed

lemma upt_rev_split_less:
  "rev [0..<n] = pre @ k # post \<Longrightarrow> j \<in> set pre \<Longrightarrow> k < j \<and> j < n"
proof -
  assume s: "rev [0..<n] = pre @ k # post" and j: "j \<in> set pre"
  then have r: "[0..<n] = rev post @ k # rev pre"
    by (metis append.assoc append_Cons append_Nil rev_append rev_rev_ident rev_singleton_conv rev.simps(2))
  have "sorted_wrt (<) (rev post @ k # rev pre)"
    using sorted_wrt_upt [of 0 n] r by simp
  moreover have "j \<in> set [0..<n]" using s j by (metis Un_iff set_append set_rev)
  ultimately show ?thesis using j by (auto simp: sorted_wrt_append)
qed

lemma memcpy_copies:
  assumes "inj_on (vm s) (region dest (unat n) \<union> region src (unat n))"
    and "region dest (unat n) \<inter> region src (unat n) = {}"
  shows "copied dest src (unat n) s (snd (memcpy dest src n s))"
proof -
  have "copied dest src (unat n) s (fold (copy1 dest src) [0..<unat n] s)"
  proof (rule copied_fold [OF assms(1)])
    fix pre k post j
    assume "[0..<unat n] = pre @ k # post" "j \<in> set pre"
    then have "j < unat n" "k < unat n" using upt_split_less by fastforce+
    then have "dest + of_nat j \<in> region dest (unat n)" "src + of_nat k \<in> region src (unat n)"
      by blast+
    then show "dest + of_nat j \<noteq> src + of_nat k" using assms(2) by (metis IntI empty_iff)
  qed (auto simp: atLeast0LessThan)
  then show ?thesis by (simp add: memcpy_def memcpy_loop_fold)
qed

section \<open>Comparison and length\<close>

lemma memcmp_loop_zero:
  "memcmp_loop s p1 p2 i n = 0 \<longleftrightarrow>
     (\<forall>k \<in> {unat i..<unat n}. rd8 s (p1 + of_nat k) = rd8 s (p2 + of_nat k))"
proof (induction s p1 p2 i n rule: memcmp_loop.induct)
  case (1 s p1 p2 i n)
  show ?case
  proof (cases "i < n")
    case True
    then have "{unat i..<unat n} = insert (unat i) {unat (i + 1)..<unat n}"
      by (auto simp: unat_Suc_u64 word_less_nat_alt)
    with 1 True show ?thesis by (subst memcmp_loop.simps) simp
  next
    case False
    then have "{unat i..<unat n} = {}" by (simp add: word_less_nat_alt)
    with False show ?thesis by (subst memcmp_loop.simps) simp
  qed
qed

text \<open>The first difference decides the sign.\<close>

lemma memcmp_loop_diff:
  assumes "unat i \<le> k" "k < unat n"
    and "\<forall>j \<in> {unat i..<k}. rd8 s (p1 + of_nat j) = rd8 s (p2 + of_nat j)"
    and "rd8 s (p1 + of_nat k) \<noteq> rd8 s (p2 + of_nat k)"
  shows "memcmp_loop s p1 p2 i n =
    (if rd8 s (p1 + of_nat k) < rd8 s (p2 + of_nat k) then - 1 else 1)"
  using assms
proof (induction s p1 p2 i n rule: memcmp_loop.induct)
  case (1 s p1 p2 i n)
  have lt: "i < n" using "1.prems" by (simp add: word_less_nat_alt)
  show ?case
  proof (cases "unat i = k")
    case True
    then have "(of_nat k :: u64) = i" by auto
    with lt "1.prems"(4) show ?thesis by (subst memcmp_loop.simps) simp
  next
    case False
    then have "unat i \<in> {unat i..<k}" using "1.prems"(1) by simp
    then have eq: "rd8 s (p1 + i) = rd8 s (p2 + i)" using "1.prems"(3) by fastforce
    have "memcmp_loop s p1 p2 (i + 1) n =
        (if rd8 s (p1 + of_nat k) < rd8 s (p2 + of_nat k) then - 1 else 1)"
      by (rule "1.IH") (use lt eq False "1.prems" in \<open>auto simp: unat_Suc_u64\<close>)
    with lt eq show ?thesis by (subst memcmp_loop.simps) simp
  qed
qed

lemma strlen_loop_Some:
  assumes "strlen_loop s str i = Some r"
  shows "rd8 s (str + r) = 0"
  by (rule strlen_loop.raw_induct [where P = "\<lambda>s str i r. rd8 s (str + r) = 0", OF _ assms])
    (auto split: if_splits)

lemma strlen_loop_reach:
  "unat i \<le> k \<Longrightarrow> k < 2 ^ 64 \<Longrightarrow> rd8 s (str + of_nat k) = 0 \<Longrightarrow>
     (\<forall>j \<in> {unat i..<k}. rd8 s (str + of_nat j) \<noteq> 0) \<Longrightarrow> strlen_loop s str i = Some (of_nat k)"
proof (induction "k - unat i" arbitrary: i)
  case 0
  then have "unat i = k" by simp
  then have "i = of_nat k" by auto
  with 0 show ?case by (subst strlen_loop.simps) simp
next
  case (Suc m)
  then have lt: "unat i < k" by simp
  then have "rd8 s (str + i) \<noteq> 0" using bspec [OF Suc.prems(4), of "unat i"] by simp
  moreover have u: "unat (i + 1) = Suc (unat i)"
    using lt Suc.prems(2) by (intro trans [OF unat_add_no_wrap]) simp_all
  moreover have "strlen_loop s str (i + 1) = Some (of_nat k)"
    by (rule Suc.hyps) (use Suc lt u in auto)
  ultimately show ?case by (subst strlen_loop.simps) simp
qed

section \<open>Properties\<close>

text \<open>
  C18. memmove moves any two objects, overlapping or not: afterwards the destination holds the
  bytes the source held before, and nothing but the destination's bytes changes. The objects
  must not wrap around the address space, and the translation must not alias two of their bytes.
\<close>

theorem memmove_copies:
  assumes "inj_on (vm s) (region dest (unat n) \<union> region src (unat n))"
    and "unat src + unat n \<le> 2 ^ 64" "unat dest + unat n \<le> 2 ^ 64"
  shows "copied dest src (unat n) s (snd (memmove dest src n s))"
proof -
  have n: "unat n < 2 ^ 64" by simp
  consider "dest < src" | "src < dest" | "src = dest" by (meson linorder_neqE)
  then show ?thesis
  proof cases
    case 1
    have "copied dest src (unat n) s (fold (copy1 dest src) [0..<unat n] s)"
      by (rule copied_fold [OF assms(1) n])
        (use region_forward [OF 1 assms(2)] upt_split_less in \<open>auto simp: atLeast0LessThan\<close>)
    then show ?thesis using 1 by (simp add: memmove_def memcpy_loop_fold)
  next
    case 2
    have "copied dest src (unat n) s (fold (copy1 dest src) (rev [0..<unat n]) s)"
      by (rule copied_fold [OF assms(1) n])
        (use region_backward [OF 2 assms(3)] upt_rev_split_less in \<open>auto simp: atLeast0LessThan\<close>)
    then show ?thesis using 2 by (simp add: memmove_def memmove_down_fold less_not_sym)
  next
    case 3
    then show ?thesis by (simp add: memmove_def copied_def)
  qed
qed

lemma memmove_copies_witness:
  "copied 18 16 4 quiet_kernel (snd (memmove 18 16 4 quiet_kernel))"
  using memmove_copies [of quiet_kernel 18 4 16] by (simp add: inj_on_def)

text \<open>
  memset writes the low byte of its argument to each of the n bytes and to nothing else.
\<close>

theorem memset_fills:
  "memset p c n s =
     (p, s\<lparr>phys := \<lambda>x. if \<exists>k < unat n. vm s (p + of_nat k) = x then ucast c else phys s x\<rparr>)"
  using memset_mem_only [of s p c n]
  by (simp add: memset_def mem_only_def memset_loop_phys)

text \<open>
  memcmp is zero exactly on equal objects, and on different ones the first differing byte,
  compared unsigned, decides between -1 and 1.
\<close>

theorem memcmp_first_difference:
  "(memcmp s p q n = 0 \<longleftrightarrow> (\<forall>k < unat n. rd8 s (p + of_nat k) = rd8 s (q + of_nat k))) \<and>
   (\<forall>k < unat n. (\<forall>j < k. rd8 s (p + of_nat j) = rd8 s (q + of_nat j)) \<longrightarrow>
      rd8 s (p + of_nat k) \<noteq> rd8 s (q + of_nat k) \<longrightarrow>
      memcmp s p q n = (if rd8 s (p + of_nat k) < rd8 s (q + of_nat k) then - 1 else 1))"
  using memcmp_loop_diff [of 0 _ n s p q] by (auto simp: memcmp_def memcmp_loop_zero)

definition memcmp_example :: kernel where
  "memcmp_example = quiet_kernel\<lparr>phys := (\<lambda>_. 0)(17 := 3, 33 := 200)\<rparr>"

lemma memcmp_first_difference_witness: "memcmp memcmp_example 16 32 4 = - 1"
proof -
  have "(1 :: nat) < unat (4 :: u64)" by simp
  moreover have "\<forall>j < (1 :: nat). rd8 memcmp_example (16 + of_nat j) = rd8 memcmp_example (32 + of_nat j)"
    by (simp add: memcmp_example_def rd8_def)
  moreover have "rd8 memcmp_example (16 + of_nat 1) < rd8 memcmp_example (32 + of_nat 1)"
    by (simp add: memcmp_example_def rd8_def)
  ultimately show ?thesis
    using memcmp_first_difference [of memcmp_example 16 32 4] by (metis order_less_irrefl)
qed

text \<open>
  C19. strlen returns the index of the first zero byte, and it returns whenever the memory
  holds a zero byte at all; without one it runs for ever.
\<close>

theorem strlen_first_zero:
  "(strlen s str = Some r \<longleftrightarrow>
     rd8 s (str + r) = 0 \<and> (\<forall>j < unat r. rd8 s (str + of_nat j) \<noteq> 0)) \<and>
   (strlen s str = None \<longleftrightarrow> (\<forall>a. rd8 s a \<noteq> 0))"
proof -
  have reach: "strlen s str = Some x"
    if "rd8 s (str + x) = 0" "\<forall>j < unat x. rd8 s (str + of_nat j) \<noteq> 0" for x
    using strlen_loop_reach [of 0 "unat x" s str] that by (simp add: strlen_def)
  have least: "\<exists>x. strlen s str = Some x \<and> (\<forall>j < unat x. rd8 s (str + of_nat j) \<noteq> 0)"
    if "rd8 s a = 0" for a
  proof -
    define P where "P k \<longleftrightarrow> k < 2 ^ 64 \<and> rd8 s (str + of_nat k) = 0" for k :: nat
    have "P (unat (a - str))" using that by (simp add: P_def)
    define m where "m = (LEAST k. P k)"
    have m: "P m" unfolding m_def by (rule LeastI) fact
    then have m64: "m < 2 ^ 64" and m0: "rd8 s (str + of_nat m) = 0"
      unfolding P_def by blast+
    have "rd8 s (str + of_nat j) \<noteq> 0" if "j < m" for j
      using not_less_Least [of j P] that m64 unfolding m_def P_def by auto
    moreover have "unat (of_nat m :: u64) = m" using m64 by (rule unat_of_nat_u64)
    ultimately show ?thesis using reach [of "of_nat m"] m0 by auto
  qed
  have zero: "rd8 s (str + x) = 0" if "strlen s str = Some x" for x
    using that by (auto simp: strlen_def intro: strlen_loop_Some)
  have some: "strlen s str = Some r \<longleftrightarrow>
      rd8 s (str + r) = 0 \<and> (\<forall>j < unat r. rd8 s (str + of_nat j) \<noteq> 0)"
    using reach [of r] zero [of r] least [of "str + r"] by auto
  have none: "strlen s str = None \<longleftrightarrow> (\<forall>a. rd8 s a \<noteq> 0)"
    using least zero by (cases "strlen s str") fastforce+
  from some none show ?thesis by blast
qed

definition strlen_example :: kernel where
  "strlen_example = quiet_kernel\<lparr>phys := (\<lambda>_. 0)(64 := 104, 65 := 105)\<rparr>"

lemma strlen_first_zero_witness: "strlen strlen_example 64 = Some 2"
proof -
  have "\<forall>j < (2 :: nat). rd8 strlen_example (64 + of_nat j) \<noteq> 0"
    by (auto simp: strlen_example_def rd8_def less_2_cases_iff)
  moreover have "rd8 strlen_example (64 + 2) = 0"
    by (simp add: strlen_example_def rd8_def)
  ultimately show ?thesis
    using strlen_first_zero [of strlen_example 64 2] by simp
qed

end
