(* ===== verification/Video.thy ===== *)
theory Video
  imports Machine
begin

text \<open>
  \<open>kern/include/video.c\<close>: characters, strings and numbers written to the terminal. The
  terminal itself (the flanterm submodule) is known only through \<open>flanterm_write\<close>: the model
  keeps the buffers handed to it, in order. The digit buffer of the number printers is an
  uninitialised C array, so its first contents are an argument.
\<close>

section \<open>The terminal interface\<close>

definition flanterm_write :: "string \<Rightarrow> kernel \<Rightarrow> kernel" where
  "flanterm_write buf s = s\<lparr>console := console s @ [buf]\<rparr>"

definition shown :: "kernel \<Rightarrow> string" where
  "shown s = concat (console s)"

text \<open>What the printers rely on: a write appends its bytes to what is shown.\<close>

locale terminal =
  fixes put :: "string \<Rightarrow> 's \<Rightarrow> 's"
    and view :: "'s \<Rightarrow> string"
  assumes view_put: "view (put b s) = view s @ b"
begin

lemma view_puts: "view (fold put bs s) = view s @ concat bs"
  by (induction bs arbitrary: s) (simp_all add: view_put)

lemma view_chars: "view (fold (\<lambda>c. put [c]) cs s) = view s @ cs"
  by (induction cs arbitrary: s) (simp_all add: view_put)

end

interpretation flanterm: terminal flanterm_write shown
  by unfold_locales (simp add: flanterm_write_def shown_def)

section \<open>The functions\<close>

definition print_char :: "char \<Rightarrow> kernel \<Rightarrow> kernel" where
  "print_char c s = flanterm_write [c] s"

text \<open>A C string: the characters before the terminator.\<close>

definition c_string :: "string \<Rightarrow> string" where
  "c_string str = takeWhile (\<lambda>c. c \<noteq> CHR 0x00) str"

definition print_str :: "string \<Rightarrow> kernel \<Rightarrow> kernel" where
  "print_str str s = flanterm_write (c_string str) s"

definition MAX_INTERGER_SIZE :: nat where "MAX_INTERGER_SIZE = 128"

text \<open>
  The digit loop of \<open>print_int\<close>: \<open>None\<close> is its early \<open>return\<close>, \<open>Some (arr, digitscount)\<close>
  its end.
\<close>

function print_int_loop :: "u64 \<Rightarrow> i32 list \<Rightarrow> nat \<Rightarrow> nat \<Rightarrow> (i32 list \<times> nat) option" where
  "print_int_loop num arr j digitscount =
     (if num \<noteq> 0
      then let m = ucast (num mod 10) :: i32; arr = arr[j := m]; num = num div 10; j = j + 1
           in if j = MAX_INTERGER_SIZE then None
              else print_int_loop num (if num = 0 then arr[j := m] else arr) j j
      else Some (arr, digitscount))"
  by pat_completeness auto
termination
  by (relation "measure (\<lambda>(num, _). unat num)") (auto simp: unat_div unat_gt_0)

function print_hex_loop :: "u64 \<Rightarrow> i32 list \<Rightarrow> nat \<Rightarrow> nat \<Rightarrow> (i32 list \<times> nat) option" where
  "print_hex_loop num arr j digitscount =
     (if num \<noteq> 0
      then let m = ucast (num mod 16) :: i32; arr = arr[j := m]; num = num div 16; j = j + 1
           in if j = 64 then None
              else print_hex_loop num (if num = 0 then arr[j := m] else arr) j j
      else Some (arr, digitscount))"
  by pat_completeness auto
termination
  by (relation "measure (\<lambda>(num, _). unat num)") (auto simp: unat_div unat_gt_0)

declare print_int_loop.simps [simp del] print_hex_loop.simps [simp del]

text \<open>The \<open>switch\<close> over a stored digit; other values print nothing.\<close>

definition print_dec_digit :: "i32 \<Rightarrow> kernel \<Rightarrow> kernel" where
  "print_dec_digit d s =
     (if d = 1 then print_char CHR ''1'' s else if d = 2 then print_char CHR ''2'' s
      else if d = 3 then print_char CHR ''3'' s else if d = 4 then print_char CHR ''4'' s
      else if d = 5 then print_char CHR ''5'' s else if d = 6 then print_char CHR ''6'' s
      else if d = 7 then print_char CHR ''7'' s else if d = 8 then print_char CHR ''8'' s
      else if d = 9 then print_char CHR ''9'' s else if d = 0 then print_char CHR ''0'' s
      else s)"

definition print_hex_digit :: "i32 \<Rightarrow> kernel \<Rightarrow> kernel" where
  "print_hex_digit d s =
     (if d = 1 then print_char CHR ''1'' s else if d = 2 then print_char CHR ''2'' s
      else if d = 3 then print_char CHR ''3'' s else if d = 4 then print_char CHR ''4'' s
      else if d = 5 then print_char CHR ''5'' s else if d = 6 then print_char CHR ''6'' s
      else if d = 7 then print_char CHR ''7'' s else if d = 8 then print_char CHR ''8'' s
      else if d = 9 then print_char CHR ''9'' s else if d = 10 then print_char CHR ''A'' s
      else if d = 11 then print_char CHR ''B'' s else if d = 12 then print_char CHR ''C'' s
      else if d = 13 then print_char CHR ''D'' s else if d = 14 then print_char CHR ''E'' s
      else if d = 15 then print_char CHR ''F'' s else if d = 0 then print_char CHR ''0'' s
      else s)"

text \<open>The output loop runs \<open>i\<close> from \<open>digitscount - 1\<close> down to 0.\<close>

fun print_digits :: "(i32 \<Rightarrow> kernel \<Rightarrow> kernel) \<Rightarrow> i32 list \<Rightarrow> nat \<Rightarrow> kernel \<Rightarrow> kernel" where
  "print_digits pr arr 0 s = s"
| "print_digits pr arr (Suc i) s = print_digits pr arr i (pr (arr ! i) s)"

definition print_int :: "i32 list \<Rightarrow> u64 \<Rightarrow> kernel \<Rightarrow> kernel" where
  "print_int arr num s =
     (case print_int_loop num arr 0 0 of
        None \<Rightarrow> s
      | Some (arr, digitscount) \<Rightarrow>
          let s = print_digits print_dec_digit arr digitscount s
          in if digitscount = 0 then print_char CHR ''0'' s else s)"

definition print_hex :: "i32 list \<Rightarrow> u64 \<Rightarrow> kernel \<Rightarrow> kernel" where
  "print_hex arr num s =
     (case print_hex_loop num arr 0 0 of
        None \<Rightarrow> s
      | Some (arr, digitscount) \<Rightarrow>
          let s = print_digits print_hex_digit arr digitscount s
          in if digitscount = 0 then print_char CHR ''0'' s else s)"

text \<open>The cases of \<open>toupper\<close>, in the order of the source.\<close>

definition toupper_cases :: "(char \<times> char) list" where
  "toupper_cases =
     [(CHR ''a'', CHR ''A''), (CHR ''b'', CHR ''B''), (CHR ''c'', CHR ''C''),
      (CHR ''d'', CHR ''D''), (CHR ''e'', CHR ''E''), (CHR ''f'', CHR ''F''),
      (CHR ''g'', CHR ''G''), (CHR ''h'', CHR ''H''), (CHR ''i'', CHR ''I''),
      (CHR ''j'', CHR ''J''), (CHR ''k'', CHR ''K''), (CHR ''l'', CHR ''L''),
      (CHR ''m'', CHR ''M''), (CHR ''n'', CHR ''N''), (CHR ''o'', CHR ''O''),
      (CHR ''p'', CHR ''P''), (CHR ''t'', CHR ''T''), (CHR ''r'', CHR ''R''),
      (CHR ''s'', CHR ''S''), (CHR ''u'', CHR ''U''), (CHR ''v'', CHR ''V''),
      (CHR ''w'', CHR ''W''), (CHR ''x'', CHR ''X''), (CHR ''y'', CHR ''Y''),
      (CHR ''z'', CHR ''Z'')]"

definition toupper :: "char \<Rightarrow> char" where
  "toupper c = (case map_of toupper_cases c of Some d \<Rightarrow> d | None \<Rightarrow> c)"

section \<open>Numerals\<close>

text \<open>The numeral of a number: what a reader of the terminal expects.\<close>

fun digits :: "nat \<Rightarrow> nat \<Rightarrow> nat list" where
  "digits b n = (if n = 0 \<or> b < 2 then [] else n mod b # digits b (n div b))"

declare digits.simps [simp del]

definition digit_char :: "nat \<Rightarrow> char" where
  "digit_char d = ''0123456789ABCDEF'' ! d"

definition numeral_text :: "nat \<Rightarrow> nat \<Rightarrow> string" where
  "numeral_text b n = (if n = 0 then ''0'' else rev (map digit_char (digits b n)))"

definition digit_value :: "char \<Rightarrow> nat" where
  "digit_value c = (let k = of_char c in if k < 58 then k - 48 else k - 55)"

definition read_numeral :: "nat \<Rightarrow> string \<Rightarrow> nat" where
  "read_numeral b t = foldl (\<lambda>a c. a * b + digit_value c) 0 t"

lemma digits_0 [simp]: "digits b 0 = []"
  by (simp add: digits.simps)

lemma digits_step: "0 < n \<Longrightarrow> 2 \<le> b \<Longrightarrow> digits b n = n mod b # digits b (n div b)"
  by (subst digits.simps) simp

lemma digits_less: "2 \<le> b \<Longrightarrow> d \<in> set (digits b n) \<Longrightarrow> d < b"
proof (induction b n rule: digits.induct)
  case (1 b n)
  then show ?case by (cases "n = 0") (auto simp: digits_step)
qed

lemma digits_length: "2 \<le> b \<Longrightarrow> n < b ^ k \<Longrightarrow> length (digits b n) \<le> k"
proof (induction k arbitrary: n)
  case 0
  then show ?case by simp
next
  case (Suc k)
  have "n div b < b ^ k"
    using Suc.prems by (simp add: less_mult_imp_div_less mult.commute)
  with Suc show ?case by (cases "n = 0") (auto simp: digits_step)
qed

lemma digit_value_char: "d < 16 \<Longrightarrow> digit_value (digit_char d) = d"
proof -
  have "\<forall>d < 16. digit_value (digit_char d) = d" by code_simp
  then show "d < 16 \<Longrightarrow> ?thesis" by simp
qed

text \<open>A numeral reads back as its number, and only zero begins with a zero.\<close>

lemma read_numeral_snoc: "read_numeral b (t @ [c]) = read_numeral b t * b + digit_value c"
  by (simp add: read_numeral_def)

lemma read_rev_digits:
  assumes "2 \<le> b" "b \<le> 16"
  shows "read_numeral b (rev (map digit_char (digits b n))) = n"
proof (induction n rule: less_induct)
  case (less n)
  show ?case
  proof (cases "n = 0")
    case True
    then show ?thesis by (simp add: read_numeral_def)
  next
    case False
    then have "n div b < n" using assms(1) by simp
    moreover have "n mod b < 16" using assms by (meson dual_order.strict_trans1 mod_less_divisor less_le_trans zero_less_numeral)
    ultimately show ?thesis
      using less False assms(1) by (simp add: digits_step read_numeral_snoc digit_value_char)
  qed
qed

lemma read_numeral_text: "2 \<le> b \<Longrightarrow> b \<le> 16 \<Longrightarrow> read_numeral b (numeral_text b n) = n"
  by (simp add: numeral_text_def read_rev_digits) (simp add: read_numeral_def digit_value_def)

lemma digits_last: "2 \<le> b \<Longrightarrow> 0 < n \<Longrightarrow> last (digits b n) \<noteq> 0 \<and> digits b n \<noteq> []"
proof (induction b n rule: digits.induct)
  case (1 b n)
  show ?case
  proof (cases "n div b = 0")
    case True
    then have "n mod b = n" using "1.prems" by (simp add: div_eq_0_iff)
    with 1 True show ?thesis by (simp add: digits_step)
  next
    case False
    with 1 show ?thesis by (simp add: digits_step)
  qed
qed

section \<open>The printers write the numeral\<close>

definition filled :: "nat \<Rightarrow> i32 list \<Rightarrow> nat \<Rightarrow> nat list \<Rightarrow> i32 list \<Rightarrow> bool" where
  "filled n arr j ds arr' \<longleftrightarrow>
     length arr' = n \<and> take j arr' = take j arr \<and> (\<forall>k < length ds. arr' ! (j + k) = of_nat (ds ! k))"

lemma filled_Cons:
  assumes "filled n (if z then arr[j := m, Suc j := m] else arr[j := m]) (Suc j) ds arr'"
    and "length arr = n" "j < n" "m = of_nat d"
  shows "filled n arr j (d # ds) arr'"
proof -
  have len: "length arr' = n" and
    tk: "take (Suc j) arr' = take (Suc j) (arr[j := m])" and
    nth: "\<forall>k < length ds. arr' ! (Suc j + k) = of_nat (ds ! k)"
    using assms(1) by (auto simp: filled_def take_update_cancel split: if_splits)
  have "take j arr' = take j arr"
    using arg_cong [OF tk, of "take j"] by (simp add: take_update_cancel)
  moreover have "arr' ! j = m"
    using arg_cong [OF tk, of "\<lambda>xs. xs ! j"] assms(2,3) len by simp
  ultimately show ?thesis
    using len nth assms(4) by (auto simp: filled_def nth_Cons split: nat.split)
qed

lemma ucast_digit:
  fixes num :: u64
  assumes "2 \<le> b" "b \<le> 16"
  shows "(ucast (num mod of_nat b) :: i32) = of_nat (unat num mod b)"
proof -
  have "unat num mod b < 16"
    using assms by (meson mod_less_divisor less_le_trans zero_less_numeral)
  then have "num mod of_nat b = of_nat (unat num mod b)"
    using assms by (simp add: word_unat_eq_iff unat_mod unat_of_nat)
  moreover have "take_bit 64 (unat num mod b) = unat num mod b"
    using \<open>unat num mod b < 16\<close> by (simp add: take_bit_nat_eq_self_iff)
  ultimately show ?thesis by (simp add: unsigned_of_nat)
qed

text \<open>Both digit loops are the same loop at another base and another bound.\<close>

locale digit_loop =
  fixes loop :: "u64 \<Rightarrow> i32 list \<Rightarrow> nat \<Rightarrow> nat \<Rightarrow> (i32 list \<times> nat) option"
    and b lim :: nat
  assumes base: "2 \<le> b" "b \<le> 16"
    and unfold: "loop num arr j dc =
     (if num \<noteq> 0
      then if Suc j = lim then None
           else loop (num div of_nat b)
             (if num div of_nat b = 0
              then arr[j := ucast (num mod of_nat b), Suc j := ucast (num mod of_nat b)]
              else arr[j := ucast (num mod of_nat b)]) (Suc j) (Suc j)
      else Some (arr, dc))"
begin

lemma unat_div_b: "unat (num div of_nat b) = unat num div b" for num :: u64
  using base by (simp add: unat_div unat_of_nat)

lemma digits_num: "num \<noteq> 0 \<Longrightarrow>
    digits b (unat num) = unat num mod b # digits b (unat (num div of_nat b))" for num :: u64
  using base by (simp add: digits_step unat_div_b unat_gt_0)

lemma loop_digits:
  assumes "j + length (digits b (unat num)) < lim" "length arr = n" "lim \<le> n"
  shows "\<exists>arr'. loop num arr j j = Some (arr', j + length (digits b (unat num))) \<and>
    filled n arr j (digits b (unat num)) arr'"
  using assms(1,2)
proof (induction "unat num" arbitrary: num arr j rule: less_induct)
  case less
  show ?case
  proof (cases "num = 0")
    case True
    then show ?thesis using less.prems by (subst unfold) (simp add: filled_def)
  next
    case False
    define m where "m = (ucast (num mod of_nat b) :: i32)"
    define q where "q = num div of_nat b"
    define arr2 where "arr2 = (if q = 0 then arr[j := m, Suc j := m] else arr[j := m])"
    have ds: "digits b (unat num) = unat num mod b # digits b (unat q)"
      unfolding q_def by (rule digits_num [OF False])
    have "unat q < unat num" using False base by (simp add: q_def unat_div_b unat_gt_0)
    moreover have "Suc j + length (digits b (unat q)) < lim" "length arr2 = n"
      using less.prems ds by (simp_all add: arr2_def)
    ultimately obtain arr' where arr': "filled n arr2 (Suc j) (digits b (unat q)) arr'"
      "loop q arr2 (Suc j) (Suc j) = Some (arr', Suc j + length (digits b (unat q)))"
      using less.hyps [of q "Suc j" arr2] by blast
    have "loop num arr j j = loop q arr2 (Suc j) (Suc j)"
      using False less.prems(1) ds
      by (subst unfold) (simp add: arr2_def m_def q_def)
    moreover have "filled n arr j (digits b (unat num)) arr'"
      unfolding ds
    proof (rule filled_Cons)
      show "filled n (if q = 0 then arr[j := m, Suc j := m] else arr[j := m]) (Suc j)
          (digits b (unat q)) arr'"
        using arr'(1) by (simp add: arr2_def)
      show "m = of_nat (unat num mod b)" unfolding m_def by (rule ucast_digit [OF base])
    qed (use less.prems assms(3) ds in auto)
    ultimately show ?thesis using arr'(2) ds by auto
  qed
qed

text \<open>A 64-bit number has at most as many digits as \<open>2 ^ 64\<close> has.\<close>

lemma loop_numeral:
  assumes "2 ^ 64 \<le> b ^ k" "k < lim" "lim \<le> length arr"
  shows "\<exists>arr' ds. loop num arr 0 0 = Some (arr', length ds) \<and> ds = digits b (unat num) \<and>
    take (length ds) arr' = map of_nat ds"
proof -
  have "unat num < b ^ k" using assms(1) unat_u64_bound [of num] by (simp del: unat_u64_bound)
  then have len: "length (digits b (unat num)) \<le> k" using base(1) by (intro digits_length)
  then obtain arr' where "loop num arr 0 0 = Some (arr', length (digits b (unat num)))"
    "filled (length arr) arr 0 (digits b (unat num)) arr'"
    using loop_digits [of 0 num arr "length arr"] assms(2,3) by auto
  moreover from this len assms(2,3)
  have "take (length (digits b (unat num))) arr' = map of_nat (digits b (unat num))"
    by (intro nth_equalityI) (auto simp: filled_def)
  ultimately show ?thesis by blast
qed

end

interpretation dec: digit_loop print_int_loop 10 128
  by unfold_locales
    (simp_all add: print_int_loop.simps [of num arr j dc for num arr j dc] MAX_INTERGER_SIZE_def Let_def)

interpretation hex: digit_loop print_hex_loop 16 64
  by unfold_locales
    (simp_all add: print_hex_loop.simps [of num arr j dc for num arr j dc] Let_def)

section \<open>What the printers show\<close>

lemma print_digits_fold: "n \<le> length arr \<Longrightarrow> print_digits pr arr n s = fold pr (rev (take n arr)) s"
  by (induction n arbitrary: s) (simp_all add: take_Suc_conv_app_nth)

lemma print_dec_digit_char: "d < 10 \<Longrightarrow> print_dec_digit (of_nat d) = print_char (digit_char d)"
proof -
  have "\<forall>d \<in> set [0..<10]. print_dec_digit (of_nat d) = print_char (digit_char d)"
    by (simp add: upt_conv_Cons fun_eq_iff print_dec_digit_def digit_char_def)
  then show "d < 10 \<Longrightarrow> ?thesis" by simp
qed

lemma print_hex_digit_char: "d < 16 \<Longrightarrow> print_hex_digit (of_nat d) = print_char (digit_char d)"
proof -
  have "\<forall>d \<in> set [0..<16]. print_hex_digit (of_nat d) = print_char (digit_char d)"
    by (simp add: upt_conv_Cons fun_eq_iff print_hex_digit_def digit_char_def)
  then show "d < 16 \<Longrightarrow> ?thesis" by simp
qed

lemma fold_print_digits:
  assumes "\<And>d. d < b \<Longrightarrow> pr (of_nat d) = print_char (digit_char d)" "\<forall>d \<in> set ds. d < b"
  shows "fold pr (rev (map of_nat ds)) s = fold (\<lambda>c. flanterm_write [c]) (rev (map digit_char ds)) s"
  using assms(2)
proof (induction ds arbitrary: s rule: rev_induct)
  case Nil
  then show ?case by simp
next
  case (snoc d ds)
  then show ?case by (simp add: assms(1) print_char_def)
qed

lemma print_int_numeral:
  assumes "length arr = 128"
  shows "print_int arr num s = fold (\<lambda>c. flanterm_write [c]) (numeral_text 10 (unat num)) s"
proof -
  obtain arr' ds where *: "print_int_loop num arr 0 0 = Some (arr', length ds)"
    "ds = digits 10 (unat num)" "take (length ds) arr' = map of_nat ds"
    using dec.loop_numeral [of 20 arr num] assms by auto
  have "length ds \<le> length arr'" using *(3) by (metis length_map length_take min.absorb_iff2)
  moreover have "\<forall>d \<in> set ds. d < 10" using digits_less [of 10] *(2) by auto
  ultimately have "print_digits print_dec_digit arr' (length ds) s =
      fold (\<lambda>c. flanterm_write [c]) (rev (map digit_char ds)) s" for s
    using fold_print_digits [of 10 print_dec_digit ds s] print_dec_digit_char
    by (simp add: print_digits_fold *(3))
  then show ?thesis
    using *(1,2) digits_last [of 10 "unat num"]
    by (auto simp: print_int_def Let_def numeral_text_def print_char_def)
qed

lemma print_hex_numeral:
  assumes "length arr = 128"
  shows "print_hex arr num s = fold (\<lambda>c. flanterm_write [c]) (numeral_text 16 (unat num)) s"
proof -
  obtain arr' ds where *: "print_hex_loop num arr 0 0 = Some (arr', length ds)"
    "ds = digits 16 (unat num)" "take (length ds) arr' = map of_nat ds"
    using hex.loop_numeral [of 16 arr num] assms by auto
  have "length ds \<le> length arr'" using *(3) by (metis length_map length_take min.absorb_iff2)
  moreover have "\<forall>d \<in> set ds. d < 16" using digits_less [of 16] *(2) by auto
  ultimately have "print_digits print_hex_digit arr' (length ds) s =
      fold (\<lambda>c. flanterm_write [c]) (rev (map digit_char ds)) s" for s
    using fold_print_digits [of 16 print_hex_digit ds s] print_hex_digit_char
    by (simp add: print_digits_fold *(3))
  then show ?thesis
    using *(1,2) digits_last [of 16 "unat num"]
    by (auto simp: print_hex_def Let_def numeral_text_def print_char_def)
qed

lemma fold_write_console:
  "fold (\<lambda>c. flanterm_write [c]) cs s = s\<lparr>console := console s @ map (\<lambda>c. [c]) cs\<rparr>"
  by (induction cs arbitrary: s) (simp_all add: flanterm_write_def)

lemma shown_console [simp]: "shown (s\<lparr>console := console s @ bs\<rparr>) = shown s @ concat bs"
  by (simp add: shown_def)

section \<open>Properties\<close>

text \<open>
  C17. print_int and print_hex write a numeral that reads back as the number, in base 10 and
  base 16, at most 20 and 16 characters long, with no leading zero, whatever the digit buffer
  held; the early returns that guard the buffer are never taken.
\<close>

theorem print_number_reads_back:
  assumes "length arr = 128"
  shows "\<exists>t u. shown (print_int arr num s) = shown s @ t \<and>
    shown (print_hex arr num s) = shown s @ u \<and>
    read_numeral 10 t = unat num \<and> read_numeral 16 u = unat num \<and>
    1 \<le> length t \<and> length t \<le> 20 \<and> 1 \<le> length u \<and> length u \<le> 16 \<and>
    (hd t = CHR ''0'' \<longrightarrow> num = 0) \<and> (hd u = CHR ''0'' \<longrightarrow> num = 0)"
proof -
  have len: "1 \<le> length (numeral_text b (unat num)) \<and> length (numeral_text b (unat num)) \<le> k"
    if "2 \<le> b" "2 ^ 64 \<le> b ^ k" "1 \<le> k" for b k
  proof -
    have "unat num < b ^ k" using that unat_u64_bound [of num] by (simp del: unat_u64_bound)
    with digits_length [OF that(1) this] digits_last [of b "unat num"] that show ?thesis
      by (cases "num = 0") (auto simp: numeral_text_def unat_gt_0 Suc_le_eq)
  qed
  have hd: "num = 0" if "hd (numeral_text b (unat num)) = CHR ''0''" "2 \<le> b" "b \<le> 16" for b
  proof (rule ccontr)
    assume "num \<noteq> 0"
    then have n: "0 < unat num" by (simp add: unat_gt_0)
    define d where "d = last (digits b (unat num))"
    have d: "d \<noteq> 0" "digits b (unat num) \<noteq> []"
      using digits_last [OF that(2) n] by (simp_all add: d_def)
    then have "d \<in> set (digits b (unat num))" by (simp add: d_def)
    then have "d < 16" using digits_less [OF that(2), of d "unat num"] that(3) by linarith
    moreover have "digit_char d = CHR ''0''"
      using that(1) n d by (simp add: numeral_text_def hd_rev last_map d_def)
    ultimately have "d = digit_value (CHR ''0'')" by (metis digit_value_char)
    then show False using d(1) by (simp add: digit_value_def)
  qed
  show ?thesis
    by (rule exI [of _ "numeral_text 10 (unat num)"], rule exI [of _ "numeral_text 16 (unat num)"])
      (use len [of 10 20] len [of 16 16] hd [of 10] hd [of 16] in
        \<open>simp add: print_int_numeral print_hex_numeral assms flanterm.view_chars read_numeral_text\<close>)
qed

lemma print_number_reads_back_witness:
  "\<exists>t. shown (print_int (replicate 128 7) 1048576 quiet_kernel) = t \<and> read_numeral 10 t = 1048576"
  using print_number_reads_back [of "replicate 128 7" 1048576 quiet_kernel]
  by (auto simp: shown_def)

text \<open>
  toupper maps every lower-case ASCII letter but q to its capital and leaves every other
  character, q included, as it is.
\<close>

theorem toupper_all_but_q:
  "toupper c =
     (if 97 \<le> (of_char c :: nat) \<and> (of_char c :: nat) \<le> 122 \<and> c \<noteq> CHR ''q''
      then char_of ((of_char c :: nat) - 32) else c)"
proof -
  define P where "P c \<longleftrightarrow> toupper c =
     (if 97 \<le> (of_char c :: nat) \<and> (of_char c :: nat) \<le> 122 \<and> c \<noteq> CHR ''q''
      then char_of ((of_char c :: nat) - 32) else c)" for c
  have all: "\<forall>k \<in> set [97..<123]. P (char_of (k :: nat))"
    by (simp add: upt_conv_Cons P_def toupper_def toupper_cases_def char_of_def)
  have keys: "\<forall>x \<in> set (map fst toupper_cases). 97 \<le> (of_char x :: nat) \<and> (of_char x :: nat) \<le> 122"
    by (simp add: toupper_cases_def)
  have "P c"
  proof (cases "97 \<le> (of_char c :: nat) \<and> (of_char c :: nat) \<le> 122")
    case True
    then have "P (char_of (of_char c :: nat))"
      by (intro bspec [OF all]) (simp only: set_upt atLeastLessThan_iff, auto)
    then show ?thesis by simp
  next
    case False
    then have "c \<notin> set (map fst toupper_cases)" using keys by blast
    then have "map_of toupper_cases c = None" by (simp add: map_of_eq_None_iff)
    with False show ?thesis by (auto simp: P_def toupper_def)
  qed
  then show ?thesis by (simp add: P_def)
qed

end
