(* ===== verification/Printf.thy ===== *)
theory Printf
  imports Video "HOL-Library.Sublist"
begin

text \<open>
  \<open>kern/include/printf.c\<close> and \<open>kern/include/log.c\<close>: the format-string state machine and the
  log lines printed through it. A variadic argument is a 64-bit word or a string, as the
  callers pass them; reading an argument that is missing or of the other kind is a fault.
\<close>

section \<open>The functions\<close>

datatype va = VWord u64 | VStr string

datatype printf_state = NORMAL | FORMAT_SPECIFIER

text \<open>The contents of an uninitialised digit buffer; \<open>print_int_numeral\<close> shows it does not matter.\<close>

definition uninit :: "i32 list" where
  "uninit = replicate MAX_INTERGER_SIZE 0"

definition va_word :: "va list \<Rightarrow> kernel \<Rightarrow> failure + (u64 \<times> va list)" where
  "va_word args s = (case args of VWord w # rest \<Rightarrow> Inr (w, rest) | _ \<Rightarrow> Inl (Va_mismatch, s))"

definition va_str :: "va list \<Rightarrow> kernel \<Rightarrow> failure + (string \<times> va list)" where
  "va_str args s = (case args of VStr x # rest \<Rightarrow> Inr (x, rest) | _ \<Rightarrow> Inl (Va_mismatch, s))"

definition char_of_word :: "u64 \<Rightarrow> char" where
  "char_of_word w = char_of (unat (ucast w :: u8))"

text \<open>One character inside braces. The \<open>l\<close> case increments its copy of the character.\<close>

definition printf_specifier :: "char \<Rightarrow> va list \<Rightarrow> kernel \<Rightarrow> failure + (va list \<times> kernel)" where
  "printf_specifier current args s =
     (if current = CHR ''n'' then Inr (args, print_str [CHR 0x0A] s)
      else if current = CHR ''k'' then
        sbind (va_str args s) (\<lambda>(x, args). Inr (args, print_str x s))
      else if current = CHR ''d'' \<or> current = CHR ''i'' then
        sbind (va_word args s) (\<lambda>(w, args). Inr (args, print_int uninit w s))
      else if current = CHR ''s'' then
        sbind (va_str args s) (\<lambda>(x, args). Inr (args, print_str x s))
      else if current = CHR ''c'' then
        sbind (va_word args s) (\<lambda>(w, args). Inr (args, print_char (char_of_word w) s))
      else if current = CHR ''x'' then
        sbind (va_word args s) (\<lambda>(w, args). Inr (args, print_hex uninit w s))
      else if current = CHR ''l'' then
        (if char_of (of_char current + 1 :: nat) = CHR ''d''
         then sbind (va_word args s) (\<lambda>(w, args). Inr (args, print_int uninit w s))
         else Inr (args, s))
      else Inr (args, s))"

fun printf_loop :: "printf_state \<Rightarrow> string \<Rightarrow> va list \<Rightarrow> kernel \<Rightarrow> failure + kernel" where
  "printf_loop st [] args s = Inr s"
| "printf_loop NORMAL (current # fmt) args s =
     (if current = CHR ''{'' then printf_loop FORMAT_SPECIFIER fmt args s
      else printf_loop NORMAL fmt args (print_char current s))"
| "printf_loop FORMAT_SPECIFIER (current # fmt) args s =
     (if current = CHR ''}'' then printf_loop NORMAL fmt args s
      else sbind (printf_specifier current args s)
             (\<lambda>(args, s). printf_loop FORMAT_SPECIFIER fmt args s))"

definition printf :: "string \<Rightarrow> va list \<Rightarrow> kernel \<Rightarrow> failure + kernel" where
  "printf format_string args s = printf_loop NORMAL (c_string format_string) args s"

definition ANSI_COLOR_RED :: string where "ANSI_COLOR_RED = CHR 0x1B # ''[31m''"
definition ANSI_COLOR_GREEN :: string where "ANSI_COLOR_GREEN = CHR 0x1B # ''[32m''"
definition ANSI_COLOR_YELLOW :: string where "ANSI_COLOR_YELLOW = CHR 0x1B # ''[33m''"
definition ANSI_COLOR_CYAN :: string where "ANSI_COLOR_CYAN = CHR 0x1B # ''[36m''"
definition ANSI_COLOR_RESET :: string where "ANSI_COLOR_RESET = CHR 0x1B # ''[0m''"

text \<open>\<open>log_panic\<close> does not return: it stops the processor after printing.\<close>

definition log_panic :: "string \<Rightarrow> kernel \<Rightarrow> failure + 'a" where
  "log_panic msg s =
     sbind (printf ''{k}kern_panic: {ksn}'' [VStr ANSI_COLOR_RED, VStr ANSI_COLOR_RESET, VStr msg] s)
       (\<lambda>s. Inl (cli_hlt s))"

definition log_err :: "string \<Rightarrow> kernel \<Rightarrow> failure + kernel" where
  "log_err msg = printf ''{k}kern_err: {ksn}'' [VStr ANSI_COLOR_RED, VStr ANSI_COLOR_RESET, VStr msg]"

definition log_warn :: "string \<Rightarrow> kernel \<Rightarrow> failure + kernel" where
  "log_warn msg = printf ''{k}kern_warn: {ksn}'' [VStr ANSI_COLOR_YELLOW, VStr ANSI_COLOR_RESET, VStr msg]"

definition log_info :: "string \<Rightarrow> kernel \<Rightarrow> failure + kernel" where
  "log_info msg = printf ''{k}kern_info: {ksn}'' [VStr ANSI_COLOR_CYAN, VStr ANSI_COLOR_RESET, VStr msg]"

definition log_success :: "string \<Rightarrow> kernel \<Rightarrow> failure + kernel" where
  "log_success msg =
     printf ''{k}kern_success: {ksn}'' [VStr ANSI_COLOR_GREEN, VStr ANSI_COLOR_RESET, VStr msg]"

section \<open>The grammar of format strings\<close>

text \<open>
  What the comment above \<open>printf\<close> promises: literal text, and groups of specifier letters
  between braces. \<open>format_items\<close> cuts a format string at its braces; \<open>render\<close> gives the
  buffers written for the items, or \<open>None\<close> when the arguments do not fit.
\<close>

datatype item = Literal char | Specifier char

function format_items :: "string \<Rightarrow> item list" where
  "format_items fmt =
     map Literal (takeWhile (\<lambda>c. c \<noteq> CHR ''{'') fmt) @
     (case dropWhile (\<lambda>c. c \<noteq> CHR ''{'') fmt of
        [] \<Rightarrow> []
      | _ # rest \<Rightarrow>
          map Specifier (takeWhile (\<lambda>c. c \<noteq> CHR ''}'') rest) @
          format_items (drop 1 (dropWhile (\<lambda>c. c \<noteq> CHR ''}'') rest)))"
  by pat_completeness auto
termination
proof (relation "measure length")
  fix fmt rest :: string and c
  assume "dropWhile (\<lambda>c. c \<noteq> CHR ''{'') fmt = c # rest"
  then have "length rest < length fmt"
    using length_dropWhile_le [of "\<lambda>c. c \<noteq> CHR ''{''" fmt] by simp
  moreover have "length (dropWhile (\<lambda>c. c \<noteq> CHR ''}'') rest) \<le> length rest"
    by (rule length_dropWhile_le)
  ultimately show "(drop 1 (dropWhile (\<lambda>c. c \<noteq> CHR ''}'') rest), fmt) \<in> measure length"
    by simp
qed simp

declare format_items.simps [simp del]

datatype kind = Plain | Word_Arg | String_Arg

definition specifier_kind :: "char \<Rightarrow> kind" where
  "specifier_kind c =
     (if c \<in> {CHR ''d'', CHR ''i'', CHR ''x'', CHR ''c''} then Word_Arg
      else if c \<in> {CHR ''s'', CHR ''k''} then String_Arg else Plain)"

definition word_text :: "char \<Rightarrow> u64 \<Rightarrow> string" where
  "word_text c w =
     (if c = CHR ''c'' then [char_of_word w]
      else numeral_text (if c = CHR ''x'' then 16 else 10) (unat w))"

fun render :: "item list \<Rightarrow> va list \<Rightarrow> string list option" where
  "render [] args = Some []"
| "render (Literal c # is) args = map_option (\<lambda>out. [c] # out) (render is args)"
| "render (Specifier c # is) args =
     (case specifier_kind c of
        Plain \<Rightarrow> map_option (\<lambda>out. (if c = CHR ''n'' then [[CHR 0x0A]] else []) @ out) (render is args)
      | Word_Arg \<Rightarrow> (case args of
          VWord w # rest \<Rightarrow> map_option (\<lambda>out. map (\<lambda>d. [d]) (word_text c w) @ out) (render is rest)
        | _ \<Rightarrow> None)
      | String_Arg \<Rightarrow> (case args of
          VStr x # rest \<Rightarrow> map_option (\<lambda>out. c_string x # out) (render is rest)
        | _ \<Rightarrow> None))"

section \<open>The state machine follows the grammar\<close>

definition renders :: "kernel \<Rightarrow> failure + kernel \<Rightarrow> string list option \<Rightarrow> bool" where
  "renders s r out \<longleftrightarrow>
     (case out of
        Some bs \<Rightarrow> r = Inr (s\<lparr>console := console s @ bs\<rparr>)
      | None \<Rightarrow> (\<exists>u. r = Inl (Va_mismatch, u)))"

lemma renders_prefix:
  "renders (s\<lparr>console := console s @ bs\<rparr>) r out \<Longrightarrow> renders s r (map_option (\<lambda>o'. bs @ o') out)"
  by (cases out) (auto simp: renders_def)

lemma length_uninit: "length uninit = 128"
  by (simp add: uninit_def MAX_INTERGER_SIZE_def)

text \<open>The \<open>l\<close> case never prints: the increment makes an \<open>m\<close> of it.\<close>

lemma char_l_Suc: "char_of (of_char (CHR ''l'') + 1 :: nat) = CHR ''m''"
  by (simp add: char_of_def bit_0)

lemma printf_specifier_Plain:
  assumes "specifier_kind c = Plain"
  shows "printf_specifier c args s =
    Inr (args, s\<lparr>console := console s @ (if c = CHR ''n'' then [[CHR 0x0A]] else [])\<rparr>)"
proof -
  have "c \<notin> {CHR ''d'', CHR ''i'', CHR ''x'', CHR ''c'', CHR ''s'', CHR ''k''}"
    using assms by (auto simp: specifier_kind_def split: if_splits)
  moreover have "char_of (of_char c + 1 :: nat) \<noteq> CHR ''d''" if "c = CHR ''l''"
    unfolding that char_l_Suc by simp
  ultimately show ?thesis
    by (simp add: printf_specifier_def print_str_def c_string_def flanterm_write_def)
qed

lemma printf_specifier_Word:
  assumes "specifier_kind c = Word_Arg"
  shows "printf_specifier c args s = sbind (va_word args s)
    (\<lambda>(w, args). Inr (args, s\<lparr>console := console s @ map (\<lambda>d. [d]) (word_text c w)\<rparr>))"
  using assms
  by (auto simp: printf_specifier_def specifier_kind_def print_char_def flanterm_write_def
      print_int_numeral print_hex_numeral length_uninit fold_write_console word_text_def
      split: if_splits)

lemma printf_specifier_String:
  assumes "specifier_kind c = String_Arg"
  shows "printf_specifier c args s = sbind (va_str args s)
    (\<lambda>(x, args). Inr (args, s\<lparr>console := console s @ [c_string x]\<rparr>))"
  using assms
  by (auto simp: printf_specifier_def specifier_kind_def print_str_def flanterm_write_def
      split: if_splits)

lemma printf_loop_specifiers:
  assumes "\<forall>c \<in> set cs. c \<noteq> CHR ''}''"
    and "\<And>args s. renders s (printf_loop FORMAT_SPECIFIER rest args s) (render items args)"
  shows "renders s (printf_loop FORMAT_SPECIFIER (cs @ rest) args s)
    (render (map Specifier cs @ items) args)"
  using assms(1)
proof (induction cs arbitrary: args s)
  case Nil
  then show ?case using assms(2) by simp
next
  case (Cons c cs)
  have IH: "renders s (printf_loop FORMAT_SPECIFIER (cs @ rest) args' (s\<lparr>console := console s @ bs\<rparr>))
      (map_option (\<lambda>o'. bs @ o') (render (map Specifier cs @ items) args'))" for bs args'
    by (rule renders_prefix, rule Cons.IH) (use Cons.prems in simp)
  show ?case
  proof (cases "specifier_kind c")
    case Plain
    with Cons.prems IH show ?thesis by (simp add: printf_specifier_Plain)
  next
    case Word_Arg
    show ?thesis
    proof (cases "\<exists>w rest. args = VWord w # rest")
      case True
      then obtain w args' where "args = VWord w # args'" by blast
      with Word_Arg Cons.prems IH [where args' = args'] show ?thesis
        by (simp add: printf_specifier_Word va_word_def)
    next
      case False
      with Word_Arg Cons.prems show ?thesis
        by (auto simp: printf_specifier_Word va_word_def renders_def split: list.split va.split)
    qed
  next
    case String_Arg
    show ?thesis
    proof (cases "\<exists>x rest. args = VStr x # rest")
      case True
      then obtain x args' where "args = VStr x # args'" by blast
      with String_Arg Cons.prems IH [where bs = "[c_string x]" and args' = args'] show ?thesis
        by (simp add: printf_specifier_String va_str_def)
    next
      case False
      with String_Arg Cons.prems show ?thesis
        by (auto simp: printf_specifier_String va_str_def renders_def split: list.split va.split)
    qed
  qed
qed

lemma printf_loop_literals:
  assumes "\<forall>c \<in> set cs. c \<noteq> CHR ''{''"
    and "\<And>args s. renders s (printf_loop NORMAL rest args s) (render items args)"
  shows "renders s (printf_loop NORMAL (cs @ rest) args s) (render (map Literal cs @ items) args)"
  using assms(1)
proof (induction cs arbitrary: args s)
  case Nil
  then show ?case using assms(2) by simp
next
  case (Cons c cs)
  then show ?case
    using renders_prefix [of s "[[c]]", OF Cons.IH] by (simp add: print_char_def flanterm_write_def)
qed

lemma printf_loop_renders:
  "renders s (printf_loop NORMAL fmt args s) (render (format_items fmt) args)"
proof (induction fmt arbitrary: s args rule: format_items.induct)
  case (1 fmt)
  define lit rest where "lit = takeWhile (\<lambda>c. c \<noteq> CHR ''{'') fmt"
    and "rest = dropWhile (\<lambda>c. c \<noteq> CHR ''{'') fmt"
  have fmt: "fmt = lit @ rest" by (simp add: lit_def rest_def)
  have lit: "\<forall>c \<in> set lit. c \<noteq> CHR ''{''" by (auto simp: lit_def dest: set_takeWhileD)
  show ?case
  proof (cases rest)
    case Nil
    then have "format_items fmt = map Literal lit @ []"
      by (subst format_items.simps) (simp add: lit_def Nil [unfolded rest_def])
    then show ?thesis
      using printf_loop_literals [OF lit, of "[]" "[]" s args] fmt Nil by (simp add: renders_def)
  next
    case (Cons c r)
    have c: "c = CHR ''{''" using Cons by (simp add: rest_def dropWhile_eq_Cons_conv)
    define spec after where "spec = takeWhile (\<lambda>c. c \<noteq> CHR ''}'') r"
      and "after = dropWhile (\<lambda>c. c \<noteq> CHR ''}'') r"
    have r: "r = spec @ after" by (simp add: spec_def after_def)
    have spec: "\<forall>c \<in> set spec. c \<noteq> CHR ''}''" by (auto simp: spec_def dest: set_takeWhileD)
    have items: "format_items fmt = map Literal lit @ map Specifier spec @ format_items (drop 1 after)"
      by (subst format_items.simps) (use Cons in \<open>simp add: lit_def rest_def spec_def after_def\<close>)
    have after: "renders s (printf_loop FORMAT_SPECIFIER after args s) (render (format_items (drop 1 after)) args)"
      for s args
    proof (cases after)
      case Nil
      then show ?thesis by (simp add: format_items.simps renders_def)
    next
      case (Cons d q)
      have "d = CHR ''}''" using Cons by (simp add: after_def dropWhile_eq_Cons_conv)
      then show ?thesis
        using "1.IH" [OF \<open>rest = c # r\<close> [unfolded rest_def]] Cons by (simp add: after_def)
    qed
    have "renders s (printf_loop NORMAL rest args s) (render (map Specifier spec @ format_items (drop 1 after)) args)"
      for s args
      using printf_loop_specifiers [OF spec after] Cons c r by simp
    then show ?thesis
      unfolding items using printf_loop_literals [OF lit] fmt by simp
  qed
qed

section \<open>Using printf\<close>

lemma printf_renders:
  "renders s (printf fmt args s) (render (format_items (c_string fmt)) args)"
  by (simp add: printf_def printf_loop_renders)

definition printed :: "string \<Rightarrow> va list \<Rightarrow> string list" where
  "printed fmt args = (case render (format_items (c_string fmt)) args of Some bs \<Rightarrow> bs | None \<Rightarrow> [])"

definition fits :: "string \<Rightarrow> va list \<Rightarrow> bool" where
  "fits fmt args \<longleftrightarrow> render (format_items (c_string fmt)) args \<noteq> None"

lemma printf_fits: "fits fmt args \<Longrightarrow> printf fmt args s = Inr (s\<lparr>console := console s @ printed fmt args\<rparr>)"
  using printf_renders [of s fmt args] by (auto simp: fits_def printed_def renders_def)

text \<open>A successful printf changes the terminal only.\<close>

lemma printf_Inr: "printf fmt args s = Inr t \<Longrightarrow> t = s\<lparr>console := console t\<rparr>"
  using printf_renders [of s fmt args] by (auto simp: renders_def split: option.splits)

lemma format_items_Nil [simp]: "format_items [] = []"
  by (subst format_items.simps) simp

lemma format_items_lit [simp]: "c \<noteq> CHR ''{'' \<Longrightarrow> format_items (c # fmt) = Literal c # format_items fmt"
  by (subst (1 2) format_items.simps) simp

fun spec_items :: "string \<Rightarrow> item list" where
  "spec_items [] = []"
| "spec_items (c # fmt) = (if c = CHR ''}'' then format_items fmt else Specifier c # spec_items fmt)"

lemma spec_items_eq:
  "spec_items fmt = map Specifier (takeWhile (\<lambda>c. c \<noteq> CHR ''}'') fmt) @
     format_items (drop 1 (dropWhile (\<lambda>c. c \<noteq> CHR ''}'') fmt))"
  by (induction fmt) simp_all

lemma format_items_open [simp]: "format_items (CHR ''{'' # fmt) = spec_items fmt"
  by (subst format_items.simps) (simp add: spec_items_eq)

lemma c_string_Nil [simp]: "c_string [] = []"
  and c_string_Cons [simp]: "c \<noteq> CHR 0x00 \<Longrightarrow> c_string (c # cs) = c # c_string cs"
  by (simp_all add: c_string_def)

lemmas fits_simps = fits_def specifier_kind_def

lemma log_info_Inr: "log_info msg s = Inr t \<Longrightarrow> t = s\<lparr>console := console t\<rparr>"
  unfolding log_info_def by (rule printf_Inr)

lemma fits_log: "fits ''{k}kern_panic: {ksn}'' [VStr a, VStr b, VStr c]"
  "fits ''{k}kern_info: {ksn}'' [VStr a, VStr b, VStr c]"
  "fits ''{k}kern_success: {ksn}'' [VStr a, VStr b, VStr c]"
  "fits ''{k}kern_err: {ksn}'' [VStr a, VStr b, VStr c]"
  "fits ''{k}kern_warn: {ksn}'' [VStr a, VStr b, VStr c]"
  by (simp_all add: fits_simps)

lemma log_panic_Inl: "\<exists>bs. log_panic msg s = Inl (cli_hlt (s\<lparr>console := console s @ bs\<rparr>))"
  by (auto simp: log_panic_def printf_fits fits_log)

lemma log_panic_not_Inr [simp]: "log_panic msg s \<noteq> Inr x"
  using log_panic_Inl [of msg s] by (metis Inl_Inr_False)

section \<open>The type of a format string\<close>

text \<open>
  The kinds of argument a format asks for, in order. Nothing checks a call of a variadic C
  function against them.
\<close>

fun signature_of :: "item list \<Rightarrow> kind list" where
  "signature_of [] = []"
| "signature_of (Literal c # is) = signature_of is"
| "signature_of (Specifier c # is) =
     (if specifier_kind c = Plain then signature_of is else specifier_kind c # signature_of is)"

primrec va_kind :: "va \<Rightarrow> kind" where
  "va_kind (VWord w) = Word_Arg"
| "va_kind (VStr x) = String_Arg"

lemma render_typed:
  "render is args \<noteq> None \<longleftrightarrow> prefix (signature_of is) (map va_kind args)"
proof (induction "is" args rule: render.induct)
  case (3 c "is" args)
  show ?case
  proof (cases args)
    case Nil
    with 3 show ?thesis by (cases "specifier_kind c") auto
  next
    case (Cons a rest)
    with 3 show ?thesis by (cases a; cases "specifier_kind c") auto
  qed
qed auto

section \<open>Properties\<close>

text \<open>
  C15. printf follows the grammar of its format strings: it writes exactly the rendering of the
  literal text and of the specifiers in braces with the arguments in order, and nothing else of
  the kernel changes; it faults exactly when an argument is missing or of the wrong kind.
\<close>

theorem printf_follows_grammar:
  "case render (format_items (c_string fmt)) args of
     Some bs \<Rightarrow> printf fmt args s = Inr (s\<lparr>console := console s @ bs\<rparr>)
   | None \<Rightarrow> (\<exists>u. printf fmt args s = Inl (Va_mismatch, u))"
  using printf_renders [of s fmt args] by (simp add: renders_def split: option.split)

text \<open>
  C16. printf type-checks its call: it returns exactly when the kinds of its arguments begin with
  the kinds the format asks for, one word for each of d, i, x and c and one string for each of s
  and k, in their order; further arguments do no harm and no other letter reads one.
\<close>

theorem printf_well_typed:
  "(\<exists>t. printf fmt args s = Inr t) \<longleftrightarrow>
   prefix (signature_of (format_items (c_string fmt))) (map va_kind args)"
  using printf_renders [of s fmt args] render_typed [of "format_items (c_string fmt)" args]
  by (cases "render (format_items (c_string fmt)) args") (auto simp: renders_def)

text \<open>
  log_panic never returns: whatever the message, it shows the red panic line and then stops
  the processor with interrupts off; memory and every global are as before.
\<close>

theorem log_panic_halts:
  "\<exists>t. log_panic msg s = Inl (Halted, t) \<and>
     shown t = shown s @ ANSI_COLOR_RED @ ''kern_panic: '' @ ANSI_COLOR_RESET @ c_string msg @ [CHR 0x0A] \<and>
     io t = io s @ [Cli, Hlt] \<and> phys t = phys s \<and> t = s\<lparr>console := console t, io := io t\<rparr>"
proof -
  have p: "printed ''{k}kern_panic: {ksn}'' [VStr ANSI_COLOR_RED, VStr ANSI_COLOR_RESET, VStr msg] =
      [ANSI_COLOR_RED] @ map (\<lambda>c. [c]) ''kern_panic: '' @ [ANSI_COLOR_RESET, c_string msg, [CHR 0x0A]]"
    by (simp add: printed_def specifier_kind_def ANSI_COLOR_RED_def ANSI_COLOR_RESET_def)
  show ?thesis
    by (simp add: log_panic_def printf_fits fits_log p cli_hlt_def emit_def shown_def)
qed

end
