(* ===== verification/Pmm.thy ===== *)
theory Pmm
  imports CString Printf
begin

text \<open>
  \<open>kern/mm/pmm.c\<close>: the bitmap allocator of physical blocks. The bitmap lives in memory at
  the virtual address \<open>pmm_bitmap\<close>; a set bit is a used block.
\<close>

section \<open>The functions\<close>

definition BLOCK_SIZE :: u64 where "BLOCK_SIZE = 4096"

text \<open>
  \<open>pmm_bitmap[bit/8]\<close> and \<open>1 << (bit%8)\<close> for a C \<open>int\<close>: division truncates towards zero,
  and a negative remainder is a shift C gives no meaning to.
\<close>

definition bit_place :: "i32 \<Rightarrow> kernel \<Rightarrow> failure + (u64 \<times> nat)" where
  "bit_place b s =
     (let q = sint b sdiv 8; r = sint b smod 8
      in if r < 0 then Inl (Bad_shift, s) else Inr (pmm_bitmap s + word_of_int q, nat r))"

definition mmap_set :: "i32 \<Rightarrow> kernel \<Rightarrow> failure + kernel" where
  "mmap_set b s = sbind (bit_place b s)
     (\<lambda>(a, r). Inr (wr8 a (ucast (ucast (rd8 s a) OR push_bit r 1 :: i32)) s))"

definition mmap_test :: "i32 \<Rightarrow> kernel \<Rightarrow> failure + bool" where
  "mmap_test b s = sbind (bit_place b s)
     (\<lambda>(a, r). Inr ((ucast (rd8 s a) AND push_bit r 1 :: i32) \<noteq> 0))"

definition mmap_unset :: "i32 \<Rightarrow> kernel \<Rightarrow> failure + kernel" where
  "mmap_unset b s = sbind (bit_place b s)
     (\<lambda>(a, r). Inr (wr8 a (ucast (ucast (rd8 s a) AND NOT (push_bit r 1) :: i32)) s))"

definition addr2block :: "u64 \<Rightarrow> u64" where
  "addr2block addr = addr div BLOCK_SIZE"

definition block2addr :: "u64 \<Rightarrow> u64" where
  "block2addr block = block * BLOCK_SIZE"

text \<open>The inner loop over the bits of a byte, then the loop over the bytes.\<close>

function find_bit :: "u8 \<Rightarrow> nat \<Rightarrow> nat option" where
  "find_bit byte j =
     (if j < 8
      then if (ucast byte AND push_bit j 1 :: i32) = 0 then Some j else find_bit byte (j + 1)
      else None)"
  by pat_completeness auto
termination
  by (relation "measure (\<lambda>(_, j). 8 - j)") auto

function find_free_from :: "kernel \<Rightarrow> u64 \<Rightarrow> u64" where
  "find_free_from s i =
     (if i < pmm_block_count s div 8
      then let byte = rd8 s (pmm_bitmap s + i)
           in if byte \<noteq> 0xff
              then case find_bit byte 0 of
                     Some j \<Rightarrow> i * 8 + of_nat j
                   | None \<Rightarrow> find_free_from s (i + 1)
              else find_free_from s (i + 1)
      else - 1)"
  by pat_completeness auto
termination
  by (relation "measure (\<lambda>(s, i). unat (pmm_block_count s div 8) - unat i)") (auto intro: loop_measure)

declare find_bit.simps [simp del] find_free_from.simps [simp del]

definition find_free_block :: "kernel \<Rightarrow> u64" where
  "find_free_block s = find_free_from s 0"

text \<open>The pointer returned is physical; 0 is \<open>NULL\<close>.\<close>

definition pmm_alloc_block :: "kernel \<Rightarrow> failure + (u64 \<times> kernel)" where
  "pmm_alloc_block s =
     (let block = find_free_block s
      in if block = - 1 then Inr (0, s)
         else sbind (mmap_set (ucast block) s) (\<lambda>s. Inr (block * BLOCK_SIZE, s)))"

definition pmm_free_block :: "u64 \<Rightarrow> kernel \<Rightarrow> failure + kernel" where
  "pmm_free_block addr s = mmap_unset (ucast (addr2block addr)) s"

definition pmm_fetch_mem :: "kernel \<Rightarrow> u64" where
  "pmm_fetch_mem s = pmm_mem_size s"

text \<open>\<open>neobird64.c\<close>\<close>

definition get_memory_size :: "kernel \<Rightarrow> u64" where
  "get_memory_size s = pmm_fetch_mem s"

section \<open>Initialisation\<close>

text \<open>The loops of \<open>pmm_init\<close> over the memory map: size, first usable region, bitmap.\<close>

definition count_usable :: "limine_memmap_entry \<Rightarrow> kernel \<Rightarrow> kernel" where
  "count_usable e s =
     (if me_type e = LIMINE_MEMMAP_USABLE
      then s\<lparr>pmm_mem_size := pmm_mem_size s + me_length e\<rparr> else s)"

definition parse_entry :: "limine_memmap_entry \<Rightarrow> bool \<times> kernel \<Rightarrow> failure + (bool \<times> kernel)" where
  "parse_entry e = (\<lambda>(usable_found, s).
     if me_type e = LIMINE_MEMMAP_USABLE
     then let (usable_found, s) =
                (if \<not> usable_found
                 then (True, s\<lparr>pmm_usable_addr := me_base e, pmm_usable_top := me_base e + me_length e\<rparr>)
                 else (usable_found, s))
          in sbind (printf ''pmm: usable: 0x{x}, length: 0x{xn}'' [VWord (me_base e), VWord (me_length e)] s)
               (\<lambda>s. Inr (usable_found, s))
     else sbind (printf ''pmm: type={d}, base=0x{x}, length=0x{xn}''
                   [VWord (me_type e), VWord (me_base e), VWord (me_length e)] s)
            (\<lambda>s. Inr (usable_found, s)))"

definition release_entry :: "limine_memmap_entry \<Rightarrow> kernel \<Rightarrow> (failure + kernel) option" where
  "release_entry e s =
     (if me_type e = LIMINE_MEMMAP_USABLE
      then for_u64 0 (me_length e) BLOCK_SIZE (\<lambda>j. mmap_unset (ucast (addr2block (me_base e + j)))) s
      else Some (Inr s))"

definition reserve_bitmap :: "kernel \<Rightarrow> (failure + kernel) option" where
  "reserve_bitmap s =
     for_u64 0 (pmm_block_count s div 8) 1 (\<lambda>i s. mmap_set (ucast (addr2block (pmm_usable_addr s) + i)) s) s"

definition pmm_report :: "kernel \<Rightarrow> failure + kernel" where
  "pmm_report s =
     sbind (printf ''pmm: memsize: {d}MiB{n}'' [VWord (pmm_mem_size s div 1048576)] s) (\<lambda>s.
     sbind (printf ''pmm: block count: {d}{n}'' [VWord (pmm_block_count s)] s) (\<lambda>s.
     sbind (printf ''pmm: size of bitmap: {d}KiB{n}'' [VWord (pmm_block_count s div 8 div 1024)] s) (\<lambda>s.
     printf ''pmm: placing bitmap at 0x{xn}'' [VWord (pmm_usable_addr s)] s)))"

text \<open>Everything before the bitmap is written.\<close>

definition pmm_setup :: "kernel \<Rightarrow> failure + kernel" where
  "pmm_setup s =
     (case memmap_response (boot s) of
        None \<Rightarrow> log_panic ''Memory map not recieved, halting'' s
      | Some entries \<Rightarrow>
          sbind (printf ''hey'' [] s) (\<lambda>s.
          let s = s\<lparr>memmap := entries, memmap_entry_count := of_nat (length entries)\<rparr>;
              s = fold count_usable entries s
          in sbind (foldE parse_entry entries (False, s)) (\<lambda>(_, s).
             let s = s\<lparr>pmm_free_blocks := (pmm_usable_top s div BLOCK_SIZE) * 8,
                       pmm_block_count := pmm_mem_size s div BLOCK_SIZE\<rparr>
             in sbind (pmm_report s) (\<lambda>s.
                Inr (s\<lparr>pmm_bitmap := pmm_usable_addr s + hhdmoffset s\<rparr>)))))"

definition pmm_init :: "kernel \<Rightarrow> (failure + kernel) option" where
  "pmm_init s =
     obind (Some (pmm_setup s)) (\<lambda>s.
     let s = snd (memset (pmm_bitmap s) 0xFF (pmm_block_count s div 8) s)
     in obind (foldO release_entry (memmap s) s) reserve_bitmap)"

section \<open>The bitmap as a set of blocks\<close>

definition used :: "kernel \<Rightarrow> nat \<Rightarrow> bool" where
  "used s b \<longleftrightarrow> bit (rd8 s (pmm_bitmap s + of_nat (b div 8))) (b mod 8)"

text \<open>
  Where the first \<open>n\<close> bits of the bitmap are stored, and when that storage is sound: the block
  numbers fit the C \<open>int\<close> of \<open>mmap_set\<close> and no two bytes of it are the same memory.
\<close>

definition bitmap_bytes :: "nat \<Rightarrow> kernel \<Rightarrow> u64 set" where
  "bitmap_bytes n s = (\<lambda>k. vm s (pmm_bitmap s + of_nat k)) ` {..<(n + 7) div 8}"

definition bitmap_wf :: "nat \<Rightarrow> kernel \<Rightarrow> bool" where
  "bitmap_wf n s \<longleftrightarrow> n \<le> 2 ^ 31 \<and> inj_on (\<lambda>k. vm s (pmm_bitmap s + of_nat k)) {..<(n + 7) div 8}"

definition bitmap_only :: "nat \<Rightarrow> kernel \<Rightarrow> kernel \<Rightarrow> bool" where
  "bitmap_only n s t \<longleftrightarrow> mem_only s t \<and> (\<forall>x. x \<notin> bitmap_bytes n s \<longrightarrow> phys t x = phys s x)"

lemma mem_only_fields:
  assumes "mem_only s t"
  shows "vm t = vm s" "pmm_bitmap t = pmm_bitmap s" "pmm_block_count t = pmm_block_count s"
    "console t = console s" "io t = io s" "memmap t = memmap s"
    "pmm_usable_addr t = pmm_usable_addr s" "hhdmoffset t = hhdmoffset s"
    "pmm_mem_size t = pmm_mem_size s" "dev t = dev s" "boot t = boot s"
  by (subst assms [unfolded mem_only_def], simp)+

lemma bitmap_bytes_cong: "mem_only s t \<Longrightarrow> bitmap_bytes n t = bitmap_bytes n s"
  by (simp add: bitmap_bytes_def mem_only_fields)

lemma bitmap_wf_mem_only: "mem_only s t \<Longrightarrow> bitmap_wf n t = bitmap_wf n s"
  by (simp add: bitmap_wf_def mem_only_fields)

lemma bitmap_only_refl [simp]: "bitmap_only n s s"
  by (simp add: bitmap_only_def)

lemma bitmap_only_trans: "bitmap_only n s t \<Longrightarrow> bitmap_only n t u \<Longrightarrow> bitmap_only n s u"
  by (auto simp: bitmap_only_def bitmap_bytes_cong intro: mem_only_trans)

lemma bit_place_of_nat:
  assumes "b < 2 ^ 31"
  shows "bit_place (of_nat b) s = Inr (pmm_bitmap s + of_nat (b div 8), b mod 8)"
proof -
  have "int b sdiv 8 = int (b div 8)" "int b smod 8 = int (b mod 8)"
    by (simp_all add: signed_divide_int_def signed_modulo_int_def sgn_if zdiv_int zmod_int)
  with sint_of_nat_i32 [OF assms] show ?thesis
    by (simp add: bit_place_def Let_def)
qed

text \<open>The read-modify-write of one byte, at the width of the C expression.\<close>

lemma bit_or_byte:
  fixes x :: u8
  assumes "r < 8"
  shows "bit (ucast (ucast x OR push_bit r 1 :: i32) :: u8) i \<longleftrightarrow> bit x i \<or> i = r"
  using assms by (auto simp: bit_simps dest: bit_imp_le_length)

lemma bit_andnot_byte:
  fixes x :: u8
  assumes "r < 8"
  shows "bit (ucast (ucast x AND NOT (push_bit r 1) :: i32) :: u8) i \<longleftrightarrow> bit x i \<and> i \<noteq> r"
  using assms by (auto simp: bit_simps dest: bit_imp_le_length)

lemma and_bit_zero:
  fixes x :: u8
  assumes "r < 8"
  shows "(ucast x AND push_bit r 1 :: i32) = 0 \<longleftrightarrow> \<not> bit x r"
proof -
  have "(ucast x AND push_bit r 1 :: i32) = (if bit x r then push_bit r 1 else 0)"
    using assms by (intro bit_word_eqI) (auto simp: bit_simps)
  moreover have "bit (push_bit r 1 :: i32) r"
    using assms by (simp add: bit_simps del: push_bit_of_1)
  then have "(push_bit r 1 :: i32) \<noteq> 0" by (metis bit_0_eq bot_apply bot_bool_def)
  ultimately show ?thesis by simp
qed

text \<open>Writing the byte that holds block \<open>b\<close> changes the marks of that byte only.\<close>

lemma used_wr8:
  assumes wf: "bitmap_wf n s" and b: "b < n" and c: "c < n"
    and t: "t = wr8 (pmm_bitmap s + of_nat (b div 8)) v s"
  shows "used t c \<longleftrightarrow> (if c div 8 = b div 8 then bit v (c mod 8) else used s c)"
    and "bitmap_only n s t"
proof -
  have k: "b div 8 \<in> {..<(n + 7) div 8}" "c div 8 \<in> {..<(n + 7) div 8}"
    using b c by auto
  have "vm s (pmm_bitmap s + of_nat (c div 8)) = vm s (pmm_bitmap s + of_nat (b div 8)) \<longleftrightarrow> c div 8 = b div 8"
    using wf k inj_on_eq_iff [of "\<lambda>k. vm s (pmm_bitmap s + of_nat k)"] unfolding bitmap_wf_def by auto
  then show "used t c \<longleftrightarrow> (if c div 8 = b div 8 then bit v (c mod 8) else used s c)"
    by (auto simp: t used_def rd8_def wr8_def)
  show "bitmap_only n s t"
    using k(1) by (auto simp: t bitmap_only_def bitmap_bytes_def phys_wr8)
qed

lemma mmap_set_ok:
  assumes "bitmap_wf n s" "b < n"
  shows "\<exists>t. mmap_set (of_nat b) s = Inr t \<and> bitmap_only n s t \<and> (\<forall>c < n. used t c \<longleftrightarrow> c = b \<or> used s c)"
proof -
  let ?a = "pmm_bitmap s + of_nat (b div 8)"
  define t where "t = wr8 ?a (ucast (ucast (rd8 s ?a) OR push_bit (b mod 8) 1 :: i32)) s"
  have "b < 2 ^ 31" using assms by (simp add: bitmap_wf_def)
  then have "mmap_set (of_nat b) s = Inr t"
    by (simp add: mmap_set_def bit_place_of_nat t_def)
  moreover have "used t c \<longleftrightarrow> c = b \<or> used s c" if "c < n" for c
  proof -
    have "c = b \<longleftrightarrow> c div 8 = b div 8 \<and> c mod 8 = b mod 8" by (metis div_mult_mod_eq)
    then show ?thesis
      using used_wr8(1) [OF assms that t_def] by (auto simp: bit_or_byte used_def simp del: push_bit_of_1)
  qed
  ultimately show ?thesis using used_wr8(2) [OF assms assms(2) t_def] by blast
qed

lemma mmap_unset_ok:
  assumes "bitmap_wf n s" "b < n"
  shows "\<exists>t. mmap_unset (of_nat b) s = Inr t \<and> bitmap_only n s t \<and> (\<forall>c < n. used t c \<longleftrightarrow> c \<noteq> b \<and> used s c)"
proof -
  let ?a = "pmm_bitmap s + of_nat (b div 8)"
  define t where "t = wr8 ?a (ucast (ucast (rd8 s ?a) AND NOT (push_bit (b mod 8) 1) :: i32)) s"
  have "b < 2 ^ 31" using assms by (simp add: bitmap_wf_def)
  then have "mmap_unset (of_nat b) s = Inr t"
    by (simp add: mmap_unset_def bit_place_of_nat t_def)
  moreover have "used t c \<longleftrightarrow> c \<noteq> b \<and> used s c" if "c < n" for c
  proof -
    have "c = b \<longleftrightarrow> c div 8 = b div 8 \<and> c mod 8 = b mod 8" by (metis div_mult_mod_eq)
    then show ?thesis
      using used_wr8(1) [OF assms that t_def] by (auto simp: bit_andnot_byte used_def simp del: push_bit_of_1)
  qed
  ultimately show ?thesis using used_wr8(2) [OF assms assms(2) t_def] by blast
qed

lemma mmap_test_ok: "b < 2 ^ 31 \<Longrightarrow> mmap_test (of_nat b) s = Inr (used s b)"
  by (simp add: mmap_test_def bit_place_of_nat and_bit_zero used_def del: push_bit_of_1)

section \<open>The interface of a bitmap\<close>

text \<open>
  What the initialisation relies on: adding and removing one block below the capacity \<open>n\<close>
  succeeds, changes that block's mark only, and stays within the bitmap's storage.
\<close>

locale bitset =
  fixes marked :: "'s \<Rightarrow> nat \<Rightarrow> bool"
    and mark unmark :: "nat \<Rightarrow> 's \<Rightarrow> 'e + 's"
    and wf :: "nat \<Rightarrow> 's \<Rightarrow> bool"
    and only :: "nat \<Rightarrow> 's \<Rightarrow> 's \<Rightarrow> bool"
  assumes mark_ok: "wf n s \<Longrightarrow> b < n \<Longrightarrow>
      \<exists>t. mark b s = Inr t \<and> only n s t \<and> (\<forall>c < n. marked t c \<longleftrightarrow> c = b \<or> marked s c)"
    and unmark_ok: "wf n s \<Longrightarrow> b < n \<Longrightarrow>
      \<exists>t. unmark b s = Inr t \<and> only n s t \<and> (\<forall>c < n. marked t c \<longleftrightarrow> c \<noteq> b \<and> marked s c)"
    and only_refl: "only n s s"
    and only_trans: "only n s t \<Longrightarrow> only n t u \<Longrightarrow> only n s u"
    and wf_only: "only n s t \<Longrightarrow> wf n s \<Longrightarrow> wf n t"
begin

lemma marks_ok:
  "wf n s \<Longrightarrow> set bs \<subseteq> {..<n} \<Longrightarrow>
     \<exists>t. foldE mark bs s = Inr t \<and> only n s t \<and> (\<forall>c < n. marked t c \<longleftrightarrow> c \<in> set bs \<or> marked s c)"
proof (induction bs arbitrary: s)
  case Nil
  then show ?case by (auto simp: only_refl)
next
  case (Cons b bs)
  then obtain u where u: "mark b s = Inr u" "only n s u" "\<forall>c < n. marked u c \<longleftrightarrow> c = b \<or> marked s c"
    using mark_ok [of n s b] by auto
  with Cons.IH [of u] Cons.prems wf_only obtain t where
    "foldE mark bs u = Inr t" "only n u t" "\<forall>c < n. marked t c \<longleftrightarrow> c \<in> set bs \<or> marked u c"
    by (metis insert_subset list.simps(15))
  with u only_trans show ?case by (auto intro!: exI [of _ t])
qed

lemma unmarks_ok:
  "wf n s \<Longrightarrow> set bs \<subseteq> {..<n} \<Longrightarrow>
     \<exists>t. foldE unmark bs s = Inr t \<and> only n s t \<and> (\<forall>c < n. marked t c \<longleftrightarrow> c \<notin> set bs \<and> marked s c)"
proof (induction bs arbitrary: s)
  case Nil
  then show ?case by (auto simp: only_refl)
next
  case (Cons b bs)
  then obtain u where u: "unmark b s = Inr u" "only n s u" "\<forall>c < n. marked u c \<longleftrightarrow> c \<noteq> b \<and> marked s c"
    using unmark_ok [of n s b] by auto
  with Cons.IH [of u] Cons.prems wf_only obtain t where
    "foldE unmark bs u = Inr t" "only n u t" "\<forall>c < n. marked t c \<longleftrightarrow> c \<notin> set bs \<and> marked u c"
    by (metis insert_subset list.simps(15))
  with u only_trans show ?case by (auto intro!: exI [of _ t])
qed

end

interpretation bitmap: bitset used "\<lambda>b. mmap_set (of_nat b)" "\<lambda>b. mmap_unset (of_nat b)"
  bitmap_wf bitmap_only
proof unfold_locales
  fix n s t
  assume "bitmap_only n s t" "bitmap_wf n s"
  then show "bitmap_wf n t" using bitmap_wf_mem_only [of s t n] by (simp add: bitmap_only_def)
qed (auto intro: mmap_set_ok mmap_unset_ok bitmap_only_trans)

section \<open>The search for a free block\<close>

definition nblocks :: "kernel \<Rightarrow> nat" where
  "nblocks s = 8 * unat (pmm_block_count s div 8)"

lemma find_bit_first:
  assumes "j \<le> r" "r < 8" "\<not> bit byte r" "\<forall>i \<in> {j..<r}. bit byte i"
  shows "find_bit byte j = Some r"
  using assms
proof (induction byte j rule: find_bit.induct)
  case (1 byte j)
  show ?case
  proof (cases "j = r")
    case True
    with "1.prems" show ?thesis
      by (subst find_bit.simps) (simp add: and_bit_zero del: push_bit_of_1)
  next
    case False
    with "1.prems" have "bit byte j" by auto
    with 1 False show ?thesis
      by (subst find_bit.simps) (auto simp: and_bit_zero simp del: push_bit_of_1)
  qed
qed

lemma byte_full: "byte = 0xff \<longleftrightarrow> (\<forall>i < 8. bit byte i)" for byte :: u8
proof -
  have "(0xff :: u8) = - 1" by simp
  then show ?thesis by (auto simp: bit_eq_iff)
qed

lemma used_index: "j < 8 \<Longrightarrow> used s (8 * unat i + j) = bit (rd8 s (pmm_bitmap s + i)) j"
  by (simp add: used_def)

lemma find_free_from_none:
  "(\<forall>b \<in> {8 * unat i..<nblocks s}. used s b) \<Longrightarrow> find_free_from s i = - 1"
proof (induction s i rule: find_free_from.induct)
  case (1 s i)
  show ?case
  proof (cases "i < pmm_block_count s div 8")
    case True
    then have lt: "8 * unat i + j \<in> {8 * unat i..<nblocks s}" if "j < 8" for j
      using that by (auto simp: nblocks_def word_less_nat_alt)
    have "rd8 s (pmm_bitmap s + i) = 0xff"
      unfolding byte_full using lt "1.prems" used_index by blast
    moreover have "find_free_from s (i + 1) = - 1"
      by (rule "1.IH"(2) [OF True refl]) (use "1.prems" True calculation in \<open>auto simp: unat_Suc_u64\<close>)
    ultimately show ?thesis using True by (subst find_free_from.simps) (simp add: Let_def)
  next
    case False
    then show ?thesis by (subst find_free_from.simps) simp
  qed
qed

lemma find_free_from_first:
  "8 * unat i \<le> b \<Longrightarrow> b < nblocks s \<Longrightarrow> \<not> used s b \<Longrightarrow>
     (\<forall>c \<in> {8 * unat i..<b}. used s c) \<Longrightarrow> find_free_from s i = of_nat b"
proof (induction s i rule: find_free_from.induct)
  case (1 s i)
  have lt: "i < pmm_block_count s div 8"
    using "1.prems"(1,2) by (simp add: nblocks_def word_less_nat_alt)
  show ?case
  proof (cases "b < 8 * unat i + 8")
    case True
    define r where "r = b - 8 * unat i"
    have b: "b = 8 * unat i + r" and r: "r < 8" using True "1.prems"(1) by (auto simp: r_def)
    have nb: "\<not> bit (rd8 s (pmm_bitmap s + i)) r"
      using "1.prems"(3) used_index [OF r, of s i] by (simp add: b)
    have "bit (rd8 s (pmm_bitmap s + i)) j" if "j < r" for j
      using "1.prems"(4) used_index [of j s i] that r by (simp add: b)
    then have "find_bit (rd8 s (pmm_bitmap s + i)) 0 = Some r"
      using nb r by (intro find_bit_first) auto
    moreover have "rd8 s (pmm_bitmap s + i) \<noteq> 0xff" using nb r byte_full by blast
    moreover have "i * 8 + of_nat r = of_nat b" by (simp add: b algebra_simps)
    ultimately show ?thesis using lt by (subst find_free_from.simps) (simp add: Let_def)
  next
    case False
    have "bit (rd8 s (pmm_bitmap s + i)) j" if "j < 8" for j
      using "1.prems"(4) used_index [of j s i] that False by simp
    then have full: "rd8 s (pmm_bitmap s + i) = 0xff" using byte_full by blast
    have "find_free_from s (i + 1) = of_nat b"
      by (rule "1.IH"(2) [OF lt refl]) (use "1.prems" lt False full in \<open>auto simp: unat_Suc_u64\<close>)
    with lt full show ?thesis by (subst find_free_from.simps) (simp add: Let_def)
  qed
qed

text \<open>The set of free blocks the allocator can see.\<close>

definition free_blocks :: "kernel \<Rightarrow> nat set" where
  "free_blocks s = {b. b < nblocks s \<and> \<not> used s b}"

lemma finite_free_blocks [simp]: "finite (free_blocks s)"
  by (simp add: free_blocks_def)

lemma find_free_block_min:
  "find_free_block s = (if free_blocks s = {} then - 1 else of_nat (Min (free_blocks s)))"
proof (cases "free_blocks s = {}")
  case True
  then show ?thesis
    using find_free_from_none [of 0 s] by (auto simp: find_free_block_def free_blocks_def)
next
  case False
  define m where "m = Min (free_blocks s)"
  have "m \<in> free_blocks s" unfolding m_def using False by simp
  then have m: "m < nblocks s" "\<not> used s m" by (simp_all add: free_blocks_def)
  have "used s c" if "c < m" for c
  proof (rule ccontr)
    assume "\<not> used s c"
    then have "c \<in> free_blocks s" using that m(1) by (simp add: free_blocks_def)
    then have "m \<le> c" unfolding m_def by simp
    then show False using that by simp
  qed
  then show ?thesis
    using find_free_from_first [of 0 m s] m False by (simp add: find_free_block_def m_def)
qed

section \<open>The interface of a block allocator\<close>

text \<open>
  What a client of the allocator relies on: with an empty pool it gets \<open>NULL\<close> and nothing
  changes; otherwise it gets the lowest block of the pool, which leaves the pool.
\<close>

definition block_addr :: "nat \<Rightarrow> u64" where
  "block_addr b = of_nat b * BLOCK_SIZE"

fun repeat_alloc :: "nat \<Rightarrow> ('s \<Rightarrow> 'e + (u64 \<times> 's)) \<Rightarrow> 's \<Rightarrow> 'e + (u64 list \<times> 's)" where
  "repeat_alloc 0 alloc s = Inr ([], s)"
| "repeat_alloc (Suc n) alloc s =
     sbind (alloc s) (\<lambda>(a, s). sbind (repeat_alloc n alloc s) (\<lambda>(as, s). Inr (a # as, s)))"

locale block_allocator =
  fixes alloc :: "'s \<Rightarrow> 'e + (u64 \<times> 's)"
    and free :: "u64 \<Rightarrow> 's \<Rightarrow> 'e + 's"
    and pool :: "'s \<Rightarrow> nat set"
    and sound :: "'s \<Rightarrow> bool"
    and in_range :: "'s \<Rightarrow> nat \<Rightarrow> bool"
  assumes pool_finite: "finite (pool s)"
    and alloc_empty: "pool s = {} \<Longrightarrow> alloc s = Inr (0, s)"
    and alloc_lowest: "sound s \<Longrightarrow> pool s \<noteq> {} \<Longrightarrow>
      \<exists>t. alloc s = Inr (block_addr (Min (pool s)), t) \<and> sound t \<and>
          pool t = pool s - {Min (pool s)} \<and> in_range t = in_range s"
    and free_returns: "sound s \<Longrightarrow> in_range s b \<Longrightarrow>
      \<exists>t. free (block_addr b) s = Inr t \<and> sound t \<and> pool t = insert b (pool s) \<and> in_range t = in_range s"
begin

lemma allocs_distinct:
  "sound s \<Longrightarrow> n \<le> card (pool s) \<Longrightarrow>
     \<exists>bs t. repeat_alloc n alloc s = Inr (map block_addr bs, t) \<and> length bs = n \<and>
       sorted_wrt (<) bs \<and> set bs \<subseteq> pool s \<and> sound t \<and> pool t = pool s - set bs"
proof (induction n arbitrary: s)
  case 0
  then show ?case by (intro exI [of _ "[]"] exI [of _ s]) simp
next
  case (Suc n)
  let ?m = "Min (pool s)"
  have ne: "pool s \<noteq> {}" using Suc.prems by auto
  obtain u where u: "alloc s = Inr (block_addr ?m, u)" "sound u" "pool u = pool s - {?m}"
    using alloc_lowest [OF Suc.prems(1) ne] by blast
  have "?m \<in> pool s" using pool_finite ne by (rule Min_in)
  then have "n \<le> card (pool u)" using Suc.prems(2) u(3) pool_finite by simp
  then obtain bs t where bs: "repeat_alloc n alloc u = Inr (map block_addr bs, t)" "length bs = n"
    "sorted_wrt (<) bs" "set bs \<subseteq> pool u" "sound t" "pool t = pool u - set bs"
    using Suc.IH [OF u(2)] by blast
  have "?m < b" if "b \<in> set bs" for b
    using that bs(4) u(3) Min_le [OF pool_finite, of b s] by (metis DiffE insertI1 le_neq_implies_less subsetD)
  then show ?case
    using u bs \<open>?m \<in> pool s\<close> by (intro exI [of _ "?m # bs"] exI [of _ t]) auto
qed

text \<open>A block just freed and lower than the rest of the pool is the next one handed out.\<close>

lemma free_then_alloc:
  assumes "sound s" "in_range s b" "\<forall>c \<in> pool s. b \<le> c"
  shows "\<exists>t u. free (block_addr b) s = Inr t \<and> alloc t = Inr (block_addr b, u) \<and> pool u = pool s - {b}"
proof -
  obtain t where t: "free (block_addr b) s = Inr t" "sound t" "pool t = insert b (pool s)"
    using free_returns [OF assms(1,2)] by blast
  have "Min (pool t) = b" using assms(3) t(3) pool_finite by (intro Min_eqI) auto
  then show ?thesis using alloc_lowest [of t] t by auto
qed

end

section \<open>The bitmap allocator is one\<close>

definition pmm_sound :: "kernel \<Rightarrow> bool" where
  "pmm_sound s \<longleftrightarrow> bitmap_wf (nblocks s) s"

lemma ucast_of_nat_i32: "b < 2 ^ 64 \<Longrightarrow> (ucast (of_nat b :: u64) :: i32) = of_nat b"
  using take_bit_nat_eq_self_iff [of 64 b] by (simp add: unsigned_of_nat)

lemma nblocks_mem_only: "mem_only s t \<Longrightarrow> nblocks t = nblocks s"
  by (simp add: nblocks_def mem_only_fields)

lemma bitmap_only_sound: "bitmap_only n s t \<Longrightarrow> pmm_sound s \<Longrightarrow> pmm_sound t"
  using bitmap_wf_mem_only [of s t] nblocks_mem_only [of s t] by (simp add: pmm_sound_def bitmap_only_def)

lemma pmm_alloc_empty: "free_blocks s = {} \<Longrightarrow> pmm_alloc_block s = Inr (0, s)"
  by (simp add: pmm_alloc_block_def find_free_block_min)

lemma Min_free_block:
  assumes "pmm_sound s" "free_blocks s \<noteq> {}"
  shows "Min (free_blocks s) < nblocks s" "\<not> used s (Min (free_blocks s))" "Min (free_blocks s) < 2 ^ 31"
proof -
  have "Min (free_blocks s) \<in> free_blocks s" using assms(2) by simp
  then show "Min (free_blocks s) < nblocks s" "\<not> used s (Min (free_blocks s))"
    by (simp_all add: free_blocks_def)
  then show "Min (free_blocks s) < 2 ^ 31"
    using assms(1) by (simp add: pmm_sound_def bitmap_wf_def)
qed

lemma pmm_alloc_lowest:
  assumes "pmm_sound s" "free_blocks s \<noteq> {}"
  defines "m \<equiv> Min (free_blocks s)"
  shows "\<exists>t. pmm_alloc_block s = Inr (block_addr m, t) \<and> mmap_set (of_nat m) s = Inr t \<and>
    bitmap_only (nblocks s) s t \<and> (\<forall>c < nblocks s. used t c \<longleftrightarrow> c = m \<or> used s c) \<and>
    free_blocks t = free_blocks s - {m}"
proof -
  have m: "m < nblocks s" "m < 2 ^ 31" using Min_free_block [OF assms(1,2)] by (simp_all add: m_def)
  obtain t where t: "mmap_set (of_nat m) s = Inr t" "bitmap_only (nblocks s) s t"
    "\<forall>c < nblocks s. used t c \<longleftrightarrow> c = m \<or> used s c"
    using mmap_set_ok [of "nblocks s" s m] assms(1) m by (auto simp: pmm_sound_def)
  have "find_free_block s = of_nat m" using assms(2) by (simp add: find_free_block_min m_def)
  moreover have "(of_nat m :: u64) \<noteq> - 1"
  proof
    assume "(of_nat m :: u64) = - 1"
    then have "unat (of_nat m :: u64) = unat (- 1 :: u64)" by simp
    then show False using m(2) by (simp add: unat_of_nat unsigned_minus_1_eq_mask mask_eq_exp_minus_1)
  qed
  ultimately have "pmm_alloc_block s = Inr (block_addr m, t)"
    using t(1) m(2) by (simp add: pmm_alloc_block_def Let_def ucast_of_nat_i32 block_addr_def)
  moreover have "free_blocks t = free_blocks s - {m}"
    using t(2,3) by (auto simp: free_blocks_def bitmap_only_def nblocks_mem_only)
  ultimately show ?thesis using t by blast
qed

lemma addr2block_of_nat: "unat addr div 4096 = b \<Longrightarrow> addr2block addr = of_nat b"
  by (auto simp: addr2block_def BLOCK_SIZE_def word_unat_eq_iff unat_div unat_of_nat
      div_less_dividend intro!: mod_less [symmetric] le_less_trans [OF div_le_dividend])

lemma pmm_free_ok:
  assumes "pmm_sound s" "unat addr div 4096 = b" "b < nblocks s"
  shows "\<exists>t. pmm_free_block addr s = Inr t \<and> bitmap_only (nblocks s) s t \<and>
    (\<forall>c < nblocks s. used t c \<longleftrightarrow> c \<noteq> b \<and> used s c) \<and> free_blocks t = insert b (free_blocks s)"
proof -
  have "b < 2 ^ 31" using assms by (simp add: pmm_sound_def bitmap_wf_def)
  then have "pmm_free_block addr s = mmap_unset (of_nat b) s"
    by (simp add: pmm_free_block_def addr2block_of_nat [OF assms(2)] ucast_of_nat_i32)
  moreover obtain t where t: "mmap_unset (of_nat b) s = Inr t" "bitmap_only (nblocks s) s t"
    "\<forall>c < nblocks s. used t c \<longleftrightarrow> c \<noteq> b \<and> used s c"
    using mmap_unset_ok [of "nblocks s" s b] assms(1,3) by (auto simp: pmm_sound_def)
  moreover have "free_blocks t = insert b (free_blocks s)"
    using t(2,3) assms(3) by (auto simp: free_blocks_def bitmap_only_def nblocks_mem_only)
  ultimately show ?thesis by auto
qed

lemma unat_block_addr: "b < 2 ^ 52 \<Longrightarrow> unat (block_addr b) = b * 4096"
  by (simp add: block_addr_def BLOCK_SIZE_def unat_word_ariths unat_of_nat)

lemma block_addr_div: "b < 2 ^ 52 \<Longrightarrow> unat (block_addr b) div 4096 = b"
  by (simp add: unat_block_addr)

interpretation pmm: block_allocator pmm_alloc_block pmm_free_block free_blocks pmm_sound
  "\<lambda>s b. b < nblocks s"
proof unfold_locales
  show "finite (free_blocks s)" for s by simp
  show "free_blocks s = {} \<Longrightarrow> pmm_alloc_block s = Inr (0, s)" for s by (rule pmm_alloc_empty)
next
  fix s
  assume "pmm_sound s" "free_blocks s \<noteq> {}"
  then show "\<exists>t. pmm_alloc_block s = Inr (block_addr (Min (free_blocks s)), t) \<and> pmm_sound t \<and>
      free_blocks t = free_blocks s - {Min (free_blocks s)} \<and>
      (\<lambda>b. b < nblocks t) = (\<lambda>b. b < nblocks s)"
    using pmm_alloc_lowest [of s] bitmap_only_sound by (auto simp: bitmap_only_def nblocks_mem_only)
next
  fix s b
  assume s: "pmm_sound s" "b < nblocks s"
  then have "b < 2 ^ 52" by (simp add: pmm_sound_def bitmap_wf_def)
  with s show "\<exists>t. pmm_free_block (block_addr b) s = Inr t \<and> pmm_sound t \<and>
      free_blocks t = insert b (free_blocks s) \<and> (\<lambda>b. b < nblocks t) = (\<lambda>b. b < nblocks s)"
    using pmm_free_ok [of s "block_addr b" b] bitmap_only_sound
    by (auto simp: bitmap_only_def nblocks_mem_only block_addr_div)
qed

end
