(* ===== verification/Pmm_Init.thy ===== *)
theory Pmm_Init
  imports Pmm
begin

text \<open>
  What \<open>pmm_init\<close> leaves behind: the globals, and for every block the allocator can see
  whether it is marked. Then the properties of the allocator and of its initialisation.
\<close>

section \<open>The setup before the bitmap\<close>

definition is_usable :: "limine_memmap_entry \<Rightarrow> bool" where
  "is_usable e \<longleftrightarrow> me_type e = LIMINE_MEMMAP_USABLE"

definition total_usable :: "limine_memmap_entry list \<Rightarrow> u64" where
  "total_usable es = sum_list (map me_length (filter is_usable es))"

lemma fold_count_usable:
  "fold count_usable es s = s\<lparr>pmm_mem_size := pmm_mem_size s + total_usable es\<rparr>"
  by (induction es arbitrary: s) (auto simp: count_usable_def total_usable_def is_usable_def)

lemma fits_pmm:
  "fits ''pmm: usable: 0x{x}, length: 0x{xn}'' [VWord a, VWord b]"
  "fits ''pmm: type={d}, base=0x{x}, length=0x{xn}'' [VWord a, VWord b, VWord c]"
  "fits ''pmm: memsize: {d}MiB{n}'' [VWord a]" "fits ''pmm: block count: {d}{n}'' [VWord a]"
  "fits ''pmm: size of bitmap: {d}KiB{n}'' [VWord a]" "fits ''pmm: placing bitmap at 0x{xn}'' [VWord a]"
  "fits ''hey'' []"
  by (simp_all add: fits_simps)

definition entry_line :: "limine_memmap_entry \<Rightarrow> string list" where
  "entry_line e =
     (if is_usable e
      then printed ''pmm: usable: 0x{x}, length: 0x{xn}'' [VWord (me_base e), VWord (me_length e)]
      else printed ''pmm: type={d}, base=0x{x}, length=0x{xn}''
             [VWord (me_type e), VWord (me_base e), VWord (me_length e)])"

lemma parse_entry_eq:
  "parse_entry e (f, s) = Inr (f \<or> is_usable e,
     (if is_usable e \<and> \<not> f
      then s\<lparr>pmm_usable_addr := me_base e, pmm_usable_top := me_base e + me_length e\<rparr>
      else s)\<lparr>console := console s @ entry_line e\<rparr>)"
  by (simp add: parse_entry_def is_usable_def entry_line_def printf_fits fits_pmm)

lemma parse_entries_found:
  "\<exists>bs. foldE parse_entry es (True, s) = Inr (True, s\<lparr>console := console s @ bs\<rparr>)"
proof (induction es arbitrary: s)
  case Nil
  show ?case by (intro exI [of _ "[]"]) simp
next
  case (Cons e es)
  from Cons.IH [of "s\<lparr>console := console s @ entry_line e\<rparr>"] obtain cs where
    "foldE parse_entry es (True, s\<lparr>console := console s @ entry_line e\<rparr>) =
      Inr (True, s\<lparr>console := (console s @ entry_line e) @ cs\<rparr>)" by auto
  then show ?case by (intro exI [of _ "entry_line e @ cs"]) (simp add: parse_entry_eq)
qed

text \<open>The first usable region decides the two addresses; without one they keep their value.\<close>

lemma parse_entries:
  "\<exists>bs. foldE parse_entry es (False, s) =
     (case find is_usable es of
        None \<Rightarrow> Inr (False, s\<lparr>console := console s @ bs\<rparr>)
      | Some e \<Rightarrow> Inr (True, s\<lparr>console := console s @ bs, pmm_usable_addr := me_base e,
                                pmm_usable_top := me_base e + me_length e\<rparr>))"
proof (induction es arbitrary: s)
  case Nil
  show ?case by (intro exI [of _ "[]"]) simp
next
  case (Cons e es)
  show ?case
  proof (cases "is_usable e")
    case True
    define bs where "bs = entry_line e"
    define u where "u = s\<lparr>pmm_usable_addr := me_base e, pmm_usable_top := me_base e + me_length e\<rparr>"
    have bs: "parse_entry e (False, s) = Inr (True, u\<lparr>console := console s @ bs\<rparr>)"
      using True by (simp add: parse_entry_eq u_def bs_def)
    obtain cs where "foldE parse_entry es (True, u\<lparr>console := console s @ bs\<rparr>) =
        Inr (True, u\<lparr>console := (console s @ bs) @ cs\<rparr>)"
      using parse_entries_found [of es "u\<lparr>console := console s @ bs\<rparr>"] by auto
    with bs True show ?thesis by (intro exI [of _ "bs @ cs"]) (simp add: u_def)
  next
    case False
    define bs where "bs = entry_line e"
    have bs: "parse_entry e (False, s) = Inr (False, s\<lparr>console := console s @ bs\<rparr>)"
      using False by (simp add: parse_entry_eq bs_def)
    from Cons.IH [of "s\<lparr>console := console s @ bs\<rparr>"] obtain cs where
      "foldE parse_entry es (False, s\<lparr>console := console s @ bs\<rparr>) =
       (case find is_usable es of
        None \<Rightarrow> Inr (False, s\<lparr>console := console s @ bs,
          console := console (s\<lparr>console := console s @ bs\<rparr>) @ cs\<rparr>)
      | Some e \<Rightarrow> Inr (True, s\<lparr>console := console s @ bs,
          console := console (s\<lparr>console := console s @ bs\<rparr>) @ cs,
          pmm_usable_addr := me_base e, pmm_usable_top := me_base e + me_length e\<rparr>))" by blast
    with bs False show ?thesis by (intro exI [of _ "bs @ cs"]) (simp split: option.split)
  qed
qed

definition first_usable :: "limine_memmap_entry list \<Rightarrow> kernel \<Rightarrow> u64 \<times> u64" where
  "first_usable es s =
     (case find is_usable es of
        None \<Rightarrow> (pmm_usable_addr s, pmm_usable_top s)
      | Some e \<Rightarrow> (me_base e, me_base e + me_length e))"

lemma pmm_report_ok: "\<exists>bs. pmm_report s = Inr (s\<lparr>console := console s @ bs\<rparr>)"
  by (simp add: pmm_report_def printf_fits fits_pmm) (metis append.assoc)

lemma pmm_setup_ok:
  assumes "memmap_response (boot s) = Some es"
  shows "\<exists>bs. pmm_setup s = Inr (s\<lparr>console := console s @ bs, memmap := es,
      memmap_entry_count := of_nat (length es),
      pmm_mem_size := pmm_mem_size s + total_usable es,
      pmm_usable_addr := fst (first_usable es s), pmm_usable_top := snd (first_usable es s),
      pmm_free_blocks := (snd (first_usable es s) div BLOCK_SIZE) * 8,
      pmm_block_count := (pmm_mem_size s + total_usable es) div BLOCK_SIZE,
      pmm_bitmap := fst (first_usable es s) + hhdmoffset s\<rparr>)"
proof -
  define u where "u = s\<lparr>console := console s @ printed ''hey'' [], memmap := es,
      memmap_entry_count := of_nat (length es), pmm_mem_size := pmm_mem_size s + total_usable es\<rparr>"
  obtain bs where bs: "foldE parse_entry es (False, u) = Inr (find is_usable es \<noteq> None,
      u\<lparr>console := console u @ bs, pmm_usable_addr := fst (first_usable es s),
        pmm_usable_top := snd (first_usable es s)\<rparr>)"
    using parse_entries [of es u] by (auto simp: first_usable_def u_def split: option.splits)
  define v where "v = u\<lparr>console := console u @ bs, pmm_usable_addr := fst (first_usable es s),
      pmm_usable_top := snd (first_usable es s),
      pmm_free_blocks := (snd (first_usable es s) div BLOCK_SIZE) * 8,
      pmm_block_count := (pmm_mem_size s + total_usable es) div BLOCK_SIZE\<rparr>"
  obtain cs where cs: "pmm_report v = Inr (v\<lparr>console := console v @ cs\<rparr>)"
    using pmm_report_ok by blast
  have "pmm_setup s = sbind (pmm_report v) (\<lambda>s. Inr (s\<lparr>pmm_bitmap := pmm_usable_addr s + hhdmoffset s\<rparr>))"
    using bs by (simp add: pmm_setup_def assms printf_fits fits_pmm fold_count_usable u_def v_def Let_def)
  then show ?thesis
    by (intro exI [of _ "printed ''hey'' [] @ bs @ cs"]) (simp add: cs, simp add: v_def u_def)
qed

section \<open>The loops over the bitmap\<close>

definition released :: "limine_memmap_entry \<Rightarrow> nat list" where
  "released e =
     (if is_usable e
      then map (\<lambda>k. unat (me_base e) div 4096 + k) [0..<(unat (me_length e) + 4095) div 4096]
      else [])"

lemma release_entry_eq:
  assumes "is_usable e \<Longrightarrow> unat (me_base e) + unat (me_length e) + 4096 \<le> 2 ^ 64"
  shows "release_entry e s = Some (foldE (\<lambda>b. mmap_unset (of_nat b)) (released e) s)"
proof (cases "is_usable e")
  case False
  then show ?thesis by (simp add: release_entry_def released_def is_usable_def)
next
  case True
  define n where "n = (unat (me_length e) + 4095) div 4096"
  have steps: "steps 0 (me_length e) BLOCK_SIZE = map (\<lambda>k. of_nat k * 4096) [0..<n]"
    by (simp add: steps_def steps_count_def BLOCK_SIZE_def n_def, simp add: add.commute)
  have block: "(ucast (addr2block (me_base e + of_nat k * 4096)) :: i32) = of_nat (unat (me_base e) div 4096 + k)"
    if "k < n" for k
  proof -
    have k: "k * 4096 < unat (me_length e) + 4096"
      using that less_eq_div_iff_mult_less_eq [of 4096 "Suc k" "unat (me_length e) + 4095"]
      by (simp add: n_def Suc_le_eq)
    then have "k * 4096 < 2 ^ 64" "unat (me_base e) + k * 4096 < 2 ^ 64"
      using assms [OF True] by linarith+
    then have "unat (me_base e + of_nat k * 4096) = unat (me_base e) + k * 4096"
      using unat_add_of_nat [of "me_base e" "k * 4096"] by simp
    then have "addr2block (me_base e + of_nat k * 4096) = of_nat (unat (me_base e) div 4096 + k)"
      by (intro addr2block_of_nat) simp
    moreover have "unat (me_base e) div 4096 + k < 2 ^ 64"
      using \<open>unat (me_base e) + k * 4096 < 2 ^ 64\<close> by simp
    ultimately show ?thesis using ucast_of_nat_i32 by metis
  qed
  have "for_u64 0 (me_length e) BLOCK_SIZE (\<lambda>j. mmap_unset (ucast (addr2block (me_base e + j)))) s =
      Some (foldE (\<lambda>k. mmap_unset (ucast (addr2block (me_base e + of_nat k * 4096)))) [0..<n] s)"
    using assms [OF True] by (subst for_u64_foldE) (simp_all add: BLOCK_SIZE_def steps [unfolded BLOCK_SIZE_def] foldE_map comp_def)
  also have "foldE (\<lambda>k. mmap_unset (ucast (addr2block (me_base e + of_nat k * 4096)))) [0..<n] s =
      foldE (\<lambda>k. mmap_unset (of_nat (unat (me_base e) div 4096 + k))) [0..<n] s"
    by (rule foldE_cong_on) (simp only: block set_upt atLeastLessThan_iff)
  also have "\<dots> = foldE (\<lambda>b. mmap_unset (of_nat b)) (released e) s"
    using True by (simp add: released_def foldE_map comp_def n_def)
  finally show ?thesis using True by (simp add: release_entry_def is_usable_def)
qed

lemma mmap_set_usable_addr: "mmap_set b s = Inr t \<Longrightarrow> pmm_usable_addr t = pmm_usable_addr s"
  by (auto simp: mmap_set_def sbind_eq_Inr wr8_def)

definition reserved_blocks :: "kernel \<Rightarrow> nat list" where
  "reserved_blocks s = map (\<lambda>i. unat (pmm_usable_addr s) div 4096 + i) [0..<nblocks s div 8]"

lemma reserve_bitmap_eq:
  assumes "unat (pmm_usable_addr s) div 4096 + nblocks s div 8 < 2 ^ 64"
  shows "reserve_bitmap s = Some (foldE (\<lambda>b. mmap_set (of_nat b)) (reserved_blocks s) s)"
proof -
  define u where "u = unat (pmm_usable_addr s) div 4096"
  define n where "n = unat (pmm_block_count s div 8)"
  have n: "nblocks s div 8 = n" by (simp add: nblocks_def n_def)
  have "foldE (\<lambda>i s. mmap_set (ucast (addr2block (pmm_usable_addr s) + of_nat i)) s) [0..<n] s =
      foldE (\<lambda>i. mmap_set (of_nat (u + i))) [0..<n] s"
  proof (rule foldE_cong_inv [where P = "\<lambda>t. pmm_usable_addr t = pmm_usable_addr s"])
    fix i and t :: kernel
    assume t: "pmm_usable_addr t = pmm_usable_addr s" and "i \<in> set [0..<n]"
    then have "u + i < 2 ^ 64" using assms by (simp add: u_def n)
    moreover have "addr2block (pmm_usable_addr t) + of_nat i = of_nat (u + i)"
      using addr2block_of_nat [of "pmm_usable_addr s" u] t by (simp add: u_def)
    ultimately show "mmap_set (ucast (addr2block (pmm_usable_addr t) + of_nat i)) t =
        mmap_set (of_nat (u + i)) t"
      using ucast_of_nat_i32 by metis
  qed (auto simp: mmap_set_usable_addr)
  then show ?thesis
    by (simp add: reserve_bitmap_def for_u64_1 steps_1 foldE_map comp_def reserved_blocks_def n u_def flip: n_def)
qed

text \<open>
  A memory map the initialisation can digest with block numbers below \<open>N\<close>: usable regions
  do not reach the top of the address space, their blocks, the bitmap's bits and the blocks it
  marks for itself are below \<open>N\<close>, and the bitmap's storage is sound.
\<close>

definition mem_blocks :: "limine_memmap_entry list \<Rightarrow> kernel \<Rightarrow> nat" where
  "mem_blocks es s = unat ((pmm_mem_size s + total_usable es) div BLOCK_SIZE)"

definition memmap_fits :: "nat \<Rightarrow> limine_memmap_entry list \<Rightarrow> kernel \<Rightarrow> bool" where
  "memmap_fits N es s \<longleftrightarrow>
     (\<forall>e \<in> set es. is_usable e \<longrightarrow> unat (me_base e) + unat (me_length e) + 4096 \<le> 2 ^ 64) \<and>
     (\<forall>e \<in> set es. set (released e) \<subseteq> {..<N}) \<and>
     unat (fst (first_usable es s)) div 4096 + mem_blocks es s div 8 \<le> N \<and>
     mem_blocks es s \<le> N \<and> N \<le> 2 ^ 31 \<and>
     inj_on (\<lambda>k. vm s (fst (first_usable es s) + hhdmoffset s + of_nat k)) {..<(N + 7) div 8}"

definition usable_blocks :: "limine_memmap_entry list \<Rightarrow> nat set" where
  "usable_blocks es = (\<Union>e \<in> set es. set (released e))"

lemma ucast_0xff: "(ucast (0xFF :: i32) :: u8) = 0xff"
  by code_simp

lemma used_filled:
  assumes "\<And>k. k < n \<Longrightarrow> rd8 s (pmm_bitmap s + of_nat k) = 0xff" "c < 8 * n"
  shows "used s c"
proof -
  have "rd8 s (pmm_bitmap s + of_nat (c div 8)) = 0xff" using assms by auto
  then show ?thesis using byte_full by (auto simp: used_def)
qed

text \<open>Only memory, the terminal and the allocator's own variables change.\<close>

definition pmm_frame :: "kernel \<Rightarrow> kernel \<Rightarrow> bool" where
  "pmm_frame s t \<longleftrightarrow>
     t = s\<lparr>phys := phys t, console := console t, memmap := memmap t, memmap_entry_count := memmap_entry_count t,
       pmm_usable_addr := pmm_usable_addr t, pmm_usable_top := pmm_usable_top t, pmm_free_blocks := pmm_free_blocks t,
       pmm_block_count := pmm_block_count t, pmm_mem_size := pmm_mem_size t, pmm_bitmap := pmm_bitmap t\<rparr>"

lemma pmm_init_blocks:
  assumes mm: "memmap_response (boot s) = Some es" and fit: "memmap_fits N es s"
  shows "\<exists>t. pmm_init s = Some (Inr t) \<and> nblocks t = 8 * (mem_blocks es s div 8) \<and>
    pmm_bitmap t = fst (first_usable es s) + hhdmoffset s \<and> bitmap_wf N t \<and> pmm_sound t \<and>
    pmm_usable_addr t = fst (first_usable es s) \<and> memmap t = es \<and> vm t = vm s \<and>
    hhdmoffset t = hhdmoffset s \<and>
    (\<forall>x. x \<notin> bitmap_bytes N t \<longrightarrow> phys t x = phys s x) \<and> pmm_frame s t \<and>
    (\<forall>b < N. used t b \<longleftrightarrow> b \<in> set (reserved_blocks t) \<or>
       b \<notin> usable_blocks es \<and> (b < nblocks t \<or> bit (rd8 s (pmm_bitmap t + of_nat (b div 8))) (b mod 8)))"
proof -
  obtain bs where su: "pmm_setup s = Inr (s\<lparr>console := console s @ bs, memmap := es,
      memmap_entry_count := of_nat (length es),
      pmm_mem_size := pmm_mem_size s + total_usable es,
      pmm_usable_addr := fst (first_usable es s), pmm_usable_top := snd (first_usable es s),
      pmm_free_blocks := (snd (first_usable es s) div BLOCK_SIZE) * 8,
      pmm_block_count := (pmm_mem_size s + total_usable es) div BLOCK_SIZE,
      pmm_bitmap := fst (first_usable es s) + hhdmoffset s\<rparr>)" (is "_ = Inr ?s1")
    using pmm_setup_ok [OF mm] by blast
  define s1 where "s1 = ?s1"
  define s2 where "s2 = snd (memset (pmm_bitmap s1) 0xFF (pmm_block_count s1 div 8) s1)"
  have n8: "unat (pmm_block_count s1 div 8) = mem_blocks es s div 8"
    by (simp add: s1_def mem_blocks_def unat_div)
  have nb: "nblocks s1 = 8 * (mem_blocks es s div 8)" by (simp add: nblocks_def n8)
  have wf1: "bitmap_wf N s1" using fit by (simp add: bitmap_wf_def memmap_fits_def s1_def)
  have nbN: "nblocks s1 \<le> N"
    using fit unfolding nb memmap_fits_def by (meson le_trans times_div_less_eq_dividend)
  have mem2: "mem_only s1 s2" unfolding s2_def by (rule memset_mem_only)
  have phys2: "phys s2 = (\<lambda>x. if \<exists>k < nblocks s1 div 8. vm s1 (pmm_bitmap s1 + of_nat k) = x
      then 0xff else phys s1 x)"
    by (simp add: ucast_0xff s2_def memset_def memset_loop_phys n8 nb cong: if_cong)
  have only2: "bitmap_only N s1 s2"
    using mem2 nbN by (auto simp: bitmap_only_def phys2 bitmap_bytes_def nb)
  have wf2: "bitmap_wf N s2" using wf1 bitmap_wf_mem_only [OF mem2] by simp
  have used2: "used s2 c" if "c < nblocks s1" for c
    by (rule used_filled [where n = "nblocks s1 div 8"])
      (use that in \<open>auto simp: rd8_def phys2 mem_only_fields [OF mem2] nb\<close>)
  have beyond2: "used s2 c \<longleftrightarrow> bit (rd8 s (pmm_bitmap s1 + of_nat (c div 8))) (c mod 8)"
    if c: "\<not> c < nblocks s1" "c < N" for c
  proof -
    have "c div 8 \<in> {..<(N + 7) div 8}" "k \<in> {..<(N + 7) div 8}" if "k < nblocks s1 div 8" for k
      using that c nbN by auto
    moreover have "k \<noteq> c div 8" if "k < nblocks s1 div 8" for k using that c by auto
    ultimately have "\<not> (\<exists>k < nblocks s1 div 8. vm s1 (pmm_bitmap s1 + of_nat k) = vm s1 (pmm_bitmap s1 + of_nat (c div 8)))"
      using wf1 unfolding bitmap_wf_def inj_on_def by metis
    then have "rd8 s2 (pmm_bitmap s1 + of_nat (c div 8)) = rd8 s1 (pmm_bitmap s1 + of_nat (c div 8))"
      unfolding rd8_def phys2 mem_only_fields [OF mem2] by (rule if_not_P)
    then show ?thesis by (simp add: used_def mem_only_fields [OF mem2]) (simp add: s1_def rd8_def)
  qed
  have all2: "used s2 c \<longleftrightarrow> c < nblocks s1 \<or> bit (rd8 s (pmm_bitmap s1 + of_nat (c div 8))) (c mod 8)"
    if "c < N" for c
    using used2 beyond2 that by blast
  have rel_eq: "foldO release_entry es s2 =
      Some (foldE (\<lambda>b. mmap_unset (of_nat b)) (concat (map released es)) s2)"
    by (subst foldO_foldE [where g = "\<lambda>e. foldE (\<lambda>b. mmap_unset (of_nat b)) (released e)"])
      (use fit in \<open>auto simp: memmap_fits_def foldE_concat intro!: release_entry_eq\<close>)
  obtain s3 where s3: "foldE (\<lambda>b. mmap_unset (of_nat b)) (concat (map released es)) s2 = Inr s3"
    "bitmap_only N s2 s3" "\<forall>c < N. used s3 c \<longleftrightarrow> c \<notin> usable_blocks es \<and> used s2 c"
    using bitmap.unmarks_ok [OF wf2, of "concat (map released es)"] fit
    by (force simp: memmap_fits_def usable_blocks_def)
  have wf3: "bitmap_wf N s3" using s3(2) wf2 bitmap_wf_mem_only by (auto simp: bitmap_only_def)
  have nb3: "nblocks s3 = nblocks s1" "pmm_usable_addr s3 = fst (first_usable es s)"
    using s3(2) mem2 by (auto simp: bitmap_only_def nblocks_mem_only mem_only_fields s1_def)
  have resN: "set (reserved_blocks s3) \<subseteq> {..<N}"
    using fit by (auto simp: reserved_blocks_def nb3 nb memmap_fits_def)
  obtain t where t: "foldE (\<lambda>b. mmap_set (of_nat b)) (reserved_blocks s3) s3 = Inr t"
    "bitmap_only N s3 t" "\<forall>c < N. used t c \<longleftrightarrow> c \<in> set (reserved_blocks s3) \<or> used s3 c"
    using bitmap.marks_ok [OF wf3 resN] by blast
  have "reserve_bitmap s3 = Some (foldE (\<lambda>b. mmap_set (of_nat b)) (reserved_blocks s3) s3)"
    by (rule reserve_bitmap_eq) (use fit in \<open>simp add: nb3 nb memmap_fits_def\<close>)
  then have init: "pmm_init s = Some (Inr t)"
    using su rel_eq s3(1) t(1)
    by (simp add: pmm_init_def Let_def mem_only_fields [OF mem2] flip: s1_def s2_def)
      (simp add: s1_def)
  have only: "bitmap_only N s1 t"
    using only2 s3(2) t(2) bitmap_only_trans by blast
  then have mo: "mem_only s1 t" by (simp add: bitmap_only_def)
  have nbt: "nblocks t = nblocks s1" by (rule nblocks_mem_only [OF mo])
  have wft: "bitmap_wf N t" using wf1 bitmap_wf_mem_only [OF mo] by simp
  then have "pmm_sound t"
    using nbN nbt by (auto simp: pmm_sound_def bitmap_wf_def intro: inj_on_subset)
  moreover have "reserved_blocks t = reserved_blocks s3"
    using nbt nb3 mo by (simp add: reserved_blocks_def mem_only_fields s1_def)
  moreover have "\<forall>x. x \<notin> bitmap_bytes N t \<longrightarrow> phys t x = phys s x"
    using only mo by (simp add: bitmap_only_def bitmap_bytes_cong) (simp add: s1_def)
  moreover have "t = s1\<lparr>phys := phys t\<rparr>" using mo by (simp add: mem_only_def)
  then have "pmm_frame s t" unfolding pmm_frame_def s1_def by (rule ssubst) simp
  ultimately show ?thesis
    using init nbt nb wft t(3) s3(3) all2 mem_only_fields [OF mo]
    by (simp add: s1_def)
qed

text \<open>Only usable blocks outside the reserved range are free after the initialisation.\<close>

lemma pmm_init_free:
  assumes "memmap_response (boot s) = Some es" "memmap_fits N es s" "pmm_init s = Some (Inr t)"
  shows "pmm_sound t" "free_blocks t = {b \<in> usable_blocks es. b < nblocks t \<and> b \<notin> set (reserved_blocks t)}"
    and "pmm_usable_addr t = fst (first_usable es s)" "vm t = vm s"
    and "pmm_bitmap t = fst (first_usable es s) + hhdmoffset s" "nblocks t \<le> N" "N \<le> 2 ^ 31"
proof -
  have "8 * (mem_blocks es s div 8) \<le> N"
    using assms(2) unfolding memmap_fits_def by (meson le_trans times_div_less_eq_dividend)
  moreover have "N \<le> 2 ^ 31" using assms(2) by (simp add: memmap_fits_def)
  ultimately show "pmm_sound t" "pmm_usable_addr t = fst (first_usable es s)" "vm t = vm s"
    "pmm_bitmap t = fst (first_usable es s) + hhdmoffset s" "nblocks t \<le> N" "N \<le> 2 ^ 31"
    "free_blocks t = {b \<in> usable_blocks es. b < nblocks t \<and> b \<notin> set (reserved_blocks t)}"
    using pmm_init_blocks [OF assms(1,2)] assms(3) by (auto simp: free_blocks_def)
qed

section \<open>Properties\<close>

text \<open>
  C4. pmm_init returns on every memory map that fits (its blocks and the bitmap below one
  bound), and then, for every block the allocator looks at, the bitmap marks it used exactly
  when it is not usable memory or is one of the blocks reserved for the bitmap.
\<close>

theorem pmm_init_marks_usable:
  assumes "memmap_response (boot s) = Some es" "memmap_fits N es s"
  shows "\<exists>t. pmm_init s = Some (Inr t) \<and> nblocks t = 8 * (mem_blocks es s div 8) \<and>
    (\<forall>b < nblocks t. used t b \<longleftrightarrow> b \<in> set (reserved_blocks t) \<or> b \<notin> usable_blocks es)"
proof -
  have "8 * (mem_blocks es s div 8) \<le> N"
    using assms(2) unfolding memmap_fits_def by (meson le_trans times_div_less_eq_dividend)
  then show ?thesis using pmm_init_blocks [OF assms] by fastforce
qed

text \<open>A machine with 16 usable blocks from block 1 on, all of memory holding ones.\<close>

definition small_map :: "limine_memmap_entry list" where
  "small_map = [\<lparr>me_base = 0x1000, me_length = 0x10000, me_type = 0\<rparr>,
                \<lparr>me_base = 0x11000, me_length = 0x1000, me_type = 1\<rparr>]"

definition small_machine :: kernel where
  "small_machine = quiet_kernel\<lparr>phys := \<lambda>_. 0xff, boot := no_boot\<lparr>memmap_response := Some small_map\<rparr>\<rparr>"

lemma small_machine_facts:
  "memmap_response (boot small_machine) = Some small_map"
  "first_usable small_map small_machine = (0x1000, 0x11000)"
  "mem_blocks small_map small_machine = 16" "usable_blocks small_map = {1..16}"
  "vm small_machine = (\<lambda>a. a)" "hhdmoffset small_machine = 0"
  "phys small_machine = (\<lambda>_. 0xff)"
proof -
  show "usable_blocks small_map = {1..16}"
    by (simp add: usable_blocks_def small_map_def released_def is_usable_def LIMINE_MEMMAP_USABLE_def) auto
qed (simp_all add: small_machine_def first_usable_def small_map_def is_usable_def
    LIMINE_MEMMAP_USABLE_def mem_blocks_def total_usable_def BLOCK_SIZE_def quiet_kernel_def
    initial_kernel_def)

lemma small_machine_fits: "memmap_fits 17 small_map small_machine"
proof -
  have "set (released e) \<subseteq> {..<17}" if "e \<in> set small_map" for e
  proof -
    have "set (released e) \<subseteq> {1..16}"
      using that by (subst small_machine_facts(4) [symmetric]) (auto simp: usable_blocks_def)
    then show ?thesis by auto
  qed
  then have "\<forall>e \<in> set small_map. set (released e) \<subseteq> {..<17}" by blast
  moreover have "inj_on (\<lambda>k. (0x1000 :: u64) + of_nat k) {..<(17 + 7) div 8}"
    by (intro inj_onI) (simp add: of_nat_inj_u64)
  ultimately show ?thesis
    unfolding memmap_fits_def small_machine_facts by (simp add: small_map_def)
qed

lemma pmm_init_marks_usable_witness:
  "\<exists>t. pmm_init small_machine = Some (Inr t) \<and> nblocks t = 16 \<and> used t 0"
  using pmm_init_marks_usable [OF small_machine_facts(1) small_machine_fits] small_machine_facts(3,4)
  by auto

end
