(* ===== verification/Pmm_Properties.thy ===== *)
theory Pmm_Properties
  imports Pmm_Init
begin

text \<open>
  The properties of the block allocator (\<open>kern/mm/pmm.c\<close>) in use: what a client gets from it
  after the initialisation, that it takes blocks back exactly, and the two places where the
  bitmap and the blocks do not line up.
\<close>

section \<open>Lemmas\<close>

lemma usable_blocks_fit: "memmap_fits N es s \<Longrightarrow> b \<in> usable_blocks es \<Longrightarrow> b < N"
  unfolding memmap_fits_def usable_blocks_def by blast

lemma small_machine_init:
  "\<exists>t. pmm_init small_machine = Some (Inr t) \<and> nblocks t = 16 \<and> free_blocks t = {3..15} \<and>
     pmm_sound t \<and> vm t = (\<lambda>a. a) \<and> pmm_bitmap t = 0x1000 \<and> set (reserved_blocks t) = {1, 2} \<and>
     hhdmoffset t = 0"
proof -
  obtain t where t: "pmm_init small_machine = Some (Inr t)" "nblocks t = 16" "hhdmoffset t = 0"
    using pmm_init_blocks [OF small_machine_facts(1) small_machine_fits]
    by (auto simp: small_machine_facts)
  note f = pmm_init_free [OF small_machine_facts(1) small_machine_fits t(1), unfolded small_machine_facts]
  have res: "set (reserved_blocks t) = {1, 2}"
    using f(3) t(2) by (auto simp: reserved_blocks_def upt_conv_Cons)
  have "free_blocks t = {3..15}" unfolding f(2) t(2) res by auto
  then show ?thesis using t f res by auto
qed

text \<open>The blocks that hold the bitmap are among the reserved ones.\<close>

lemma bitmap_storage_reserved:
  assumes "k < nblocks t div 8" "unat (pmm_usable_addr t) + nblocks t div 8 < 2 ^ 64"
  shows "unat (pmm_usable_addr t + of_nat k) div 4096 \<in> set (reserved_blocks t)"
proof -
  have u: "unat (pmm_usable_addr t + of_nat k) = unat (pmm_usable_addr t) + k"
    using assms by (intro unat_add_of_nat) linarith
  define d where "d = (unat (pmm_usable_addr t) + k) div 4096 - unat (pmm_usable_addr t) div 4096"
  have "unat (pmm_usable_addr t) div 4096 \<le> (unat (pmm_usable_addr t) + k) div 4096"
    by (simp add: div_le_mono)
  then have "(unat (pmm_usable_addr t) + k) div 4096 = unat (pmm_usable_addr t) div 4096 + d"
    by (simp add: d_def)
  moreover have "(unat (pmm_usable_addr t) + k) div 4096 \<le> (unat (pmm_usable_addr t) + k * 4096) div 4096"
    by (intro div_le_mono) simp
  then have "d \<le> k" unfolding d_def by simp
  ultimately show ?thesis using assms(1) by (auto simp: reserved_blocks_def u)
qed

text \<open>Setting a clear bit and clearing it again is the identity on memory.\<close>

lemma set_unset_byte:
  fixes x :: u8
  assumes "r < 8" "\<not> bit x r"
  defines "y \<equiv> ucast (ucast x OR push_bit r 1 :: i32) :: u8"
  shows "(ucast (ucast y AND NOT (push_bit r 1) :: i32) :: u8) = x"
  using assms(2) unfolding y_def
  by (intro bit_word_eqI) (auto simp: bit_andnot_byte [OF assms(1)] bit_or_byte [OF assms(1)] simp del: push_bit_of_1)

lemma wr8_wr8: "wr8 a v (wr8 a w s) = wr8 a v s"
  by (simp add: wr8_def)

lemma wr8_rd8: "wr8 a (rd8 s a) s = s"
  by (simp add: wr8_def rd8_def)

lemma set_unset:
  assumes "b < 2 ^ 31" "\<not> used s b" "mmap_set (of_nat b) s = Inr t"
  shows "mmap_unset (of_nat b) t = Inr s"
proof -
  define a where "a = pmm_bitmap s + of_nat (b div 8)"
  have t: "t = wr8 a (ucast (ucast (rd8 s a) OR push_bit (b mod 8) 1 :: i32)) s"
    using assms(1,3) by (simp add: mmap_set_def bit_place_of_nat a_def)
  have "pmm_bitmap t = pmm_bitmap s" "rd8 t a = ucast (ucast (rd8 s a) OR push_bit (b mod 8) 1 :: i32)"
    by (simp_all add: t wr8_def rd8_def)
  moreover have "\<not> bit (rd8 s a) (b mod 8)" using assms(2) by (simp add: used_def a_def)
  ultimately show ?thesis
    using assms(1) set_unset_byte [of "b mod 8" "rd8 s a"]
    by (simp add: mmap_unset_def bit_place_of_nat t wr8_wr8 wr8_rd8 flip: a_def del: push_bit_of_1)
qed

text \<open>A pool of sixteen blocks with the first four used, for closed examples.\<close>

definition half_pool :: kernel where
  "half_pool = quiet_kernel\<lparr>phys := (\<lambda>_. 0)(0x1000 := 0x0f), pmm_bitmap := 0x1000, pmm_block_count := 16\<rparr>"

lemma half_pool_facts:
  "nblocks half_pool = 16" "pmm_sound half_pool" "free_blocks half_pool = {4..15}"
proof -
  show n: "nblocks half_pool = 16" by (simp add: half_pool_def nblocks_def)
  have "inj_on (\<lambda>k. (0x1000 :: u64) + of_nat k) {..<2}"
    by (intro inj_onI) (simp add: of_nat_inj_u64)
  then show "pmm_sound half_pool"
    by (simp add: pmm_sound_def bitmap_wf_def n) (simp add: half_pool_def)
  have "used half_pool b \<longleftrightarrow> b < 4" if "b < 16" for b
  proof -
    have "(0x0f :: u8) = mask 4" by (simp add: mask_eq_exp_minus_1)
    then have "bit (0x0f :: u8) i \<longleftrightarrow> i < 4" for i by (simp only: bit_mask_iff) auto
    moreover have "(0x1000 :: u64) + of_nat (b div 8) = 0x1000 \<longleftrightarrow> b < 8"
      using of_nat_inj_u64 [of "b div 8" 0] that by auto
    ultimately show ?thesis
      by (auto simp: used_def rd8_def half_pool_def)
  qed
  then show "free_blocks half_pool = {4..15}" unfolding free_blocks_def n by force
qed

section \<open>Properties\<close>

text \<open>
  C5. After the initialisation on a memory map that fits (its blocks and the bitmap below one bound) the allocator hands out every block it counts as free: as many
  allocations as there are free blocks succeed, and return different blocks in ascending order, all
  of them usable memory, none of them among the blocks that the initialisation reserves (from the
  first block of the bitmap on, one for each byte of the bitmap), and none holding a byte of the
  bitmap. The bitmap must not wrap around the end of the address space.
\<close>

theorem pmm_init_then_alloc:
  assumes "memmap_response (boot s) = Some es" "memmap_fits N es s" "pmm_init s = Some (Inr t)"
    and "n \<le> card (free_blocks t)" "unat (pmm_usable_addr t) + nblocks t div 8 < 2 ^ 64"
  shows "\<exists>bs u. repeat_alloc n pmm_alloc_block t = Inr (map block_addr bs, u) \<and> length bs = n \<and>
    sorted_wrt (<) bs \<and> set bs \<subseteq> usable_blocks es \<and>
    (\<forall>b \<in> set bs. \<forall>k < nblocks t div 8. b \<noteq> unat (pmm_usable_addr t) div 4096 + k \<and>
      unat (pmm_usable_addr t + of_nat k) div 4096 \<noteq> b)"
proof -
  note init = pmm_init_free [OF assms(1-3)]
  obtain bs u where bs: "repeat_alloc n pmm_alloc_block t = Inr (map block_addr bs, u)"
    "length bs = n" "sorted_wrt (<) bs" "set bs \<subseteq> free_blocks t"
    using pmm.allocs_distinct [OF init(1) assms(4)] by blast
  moreover have "set bs \<subseteq> usable_blocks es" "set bs \<inter> set (reserved_blocks t) = {}"
    using bs(4) init(2) by auto
  moreover have "unat (pmm_usable_addr t) div 4096 + k \<in> set (reserved_blocks t)" if "k < nblocks t div 8" for k
    using that by (auto simp: reserved_blocks_def)
  ultimately show ?thesis
    using bitmap_storage_reserved [OF _ assms(5)] by (intro exI [of _ bs] exI [of _ u]) blast
qed

lemma pmm_init_then_alloc_witness:
  "\<exists>t bs u. pmm_init small_machine = Some (Inr t) \<and>
     repeat_alloc 13 pmm_alloc_block t = Inr (map block_addr bs, u) \<and> length bs = 13 \<and> set bs \<subseteq> {1..16}"
proof -
  obtain t where t: "pmm_init small_machine = Some (Inr t)" "nblocks t = 16" "free_blocks t = {3..15}"
    using small_machine_init by blast
  have "pmm_usable_addr t = 0x1000"
    using pmm_init_free(3) [OF small_machine_facts(1) small_machine_fits t(1)] by (simp add: small_machine_facts)
  then show ?thesis
    using pmm_init_then_alloc [OF small_machine_facts(1) small_machine_fits t(1), of 13] t
    by (auto simp: small_machine_facts)
qed

text \<open>
  C6. With a free block in the bitmap, \<open>pmm_alloc_block\<close> returns the address of the lowest
  one, marks that block and no other, and writes no memory outside the bitmap.
\<close>

theorem pmm_alloc_first_fit:
  assumes "pmm_sound s" "free_blocks s \<noteq> {}"
  shows "\<exists>m t. pmm_alloc_block s = Inr (block_addr m, t) \<and> m \<in> free_blocks s \<and>
    (\<forall>b \<in> free_blocks s. m \<le> b) \<and> (\<forall>c < nblocks s. used t c \<longleftrightarrow> c = m \<or> used s c) \<and>
    (\<forall>x. x \<notin> bitmap_bytes (nblocks s) s \<longrightarrow> phys t x = phys s x)"
proof -
  have "Min (free_blocks s) \<in> free_blocks s" "\<forall>b \<in> free_blocks s. Min (free_blocks s) \<le> b"
    using assms(2) by simp_all
  then show ?thesis using pmm_alloc_lowest [OF assms] unfolding bitmap_only_def by blast
qed

lemma pmm_alloc_first_fit_witness:
  "\<exists>m t. pmm_alloc_block half_pool = Inr (block_addr m, t) \<and> m \<in> {4..15} \<and> (\<forall>b \<in> {4..15}. m \<le> b)"
  using pmm_alloc_first_fit [OF half_pool_facts(2)] half_pool_facts(3) by force

text \<open>
  C7. Freeing the block that was just allocated gives back exactly the state before the
  allocation, memory included, whenever the allocation did not return \<open>NULL\<close>.
\<close>

theorem pmm_alloc_free_roundtrip:
  assumes "pmm_sound s" "pmm_alloc_block s = Inr (a, t)" "a \<noteq> 0"
  shows "pmm_free_block a t = Inr s"
proof -
  have ne: "free_blocks s \<noteq> {}" using assms(2,3) pmm_alloc_empty by auto
  define m where "m = Min (free_blocks s)"
  have m: "a = block_addr m" "mmap_set (of_nat m) s = Inr t"
    using pmm_alloc_lowest [OF assms(1) ne] assms(2) by (auto simp: m_def)
  have "m < 2 ^ 31" "\<not> used s m" using Min_free_block [OF assms(1) ne] by (simp_all add: m_def)
  then show ?thesis
    using set_unset [OF _ _ m(2)] block_addr_div [of m]
    by (simp add: pmm_free_block_def m(1) addr2block_of_nat ucast_of_nat_i32)
qed

lemma pmm_alloc_free_roundtrip_witness:
  "\<exists>a t. pmm_alloc_block half_pool = Inr (a, t) \<and> a = 0x4000 \<and> pmm_free_block a t = Inr half_pool"
proof -
  have "Min (free_blocks half_pool) = 4" by (auto simp: half_pool_facts(3) intro: Min_eqI)
  then obtain t where "pmm_alloc_block half_pool = Inr (0x4000, t)"
    using pmm_alloc_lowest [OF half_pool_facts(2)]
    by (auto simp: half_pool_facts(3) block_addr_def BLOCK_SIZE_def)
  then show ?thesis using pmm_alloc_free_roundtrip [OF half_pool_facts(2)] by auto
qed

text \<open>
  \<open>pmm_free_block\<close> of any address inside a block the bitmap covers frees that block and
  changes no other, without returning an error.
\<close>

theorem pmm_free_one_block:
  assumes "pmm_sound s" "unat addr div 4096 < nblocks s"
  shows "\<exists>t. pmm_free_block addr s = Inr t \<and>
    free_blocks t = insert (unat addr div 4096) (free_blocks s) \<and>
    (\<forall>x. x \<notin> bitmap_bytes (nblocks s) s \<longrightarrow> phys t x = phys s x)"
  using pmm_free_ok [OF assms(1) refl assms(2)] by (auto simp: bitmap_only_def)

lemma pmm_free_one_block_witness:
  "\<exists>t. pmm_free_block 0x2abc half_pool = Inr t \<and> free_blocks t = insert 2 {4..15}"
  using pmm_free_one_block [OF half_pool_facts(2), of "0x2abc"] half_pool_facts by auto

text \<open>
  Block 0 cannot be used: while it is free the allocator returns \<open>NULL\<close> although there
  is a free block, and the block it marks as used is lost to every later caller.
\<close>

theorem pmm_block_zero_lost:
  assumes "pmm_sound s" "0 \<in> free_blocks s"
  shows "\<exists>t. pmm_alloc_block s = Inr (0, t) \<and> free_blocks t = free_blocks s - {0}"
proof -
  have "Min (free_blocks s) = 0" using assms(2) by (simp add: Min_eqI)
  then show ?thesis
    using pmm_alloc_lowest [OF assms(1)] assms(2) by (auto simp: block_addr_def)
qed

lemma pmm_block_zero_lost_witness:
  "\<exists>t. pmm_alloc_block (half_pool\<lparr>phys := \<lambda>_. 0\<rparr>) = Inr (0, t) \<and> free_blocks t = {1..15}"
proof -
  let ?s = "half_pool\<lparr>phys := \<lambda>_. 0\<rparr>"
  have "pmm_sound ?s = pmm_sound half_pool" "nblocks ?s = nblocks half_pool"
    by (simp_all add: pmm_sound_def bitmap_wf_def nblocks_def)
  moreover have "free_blocks ?s = {0..15}"
    by (auto simp: free_blocks_def used_def rd8_def calculation half_pool_facts)
  ultimately show ?thesis
    using pmm_block_zero_lost [of ?s] half_pool_facts(2) by auto
qed

text \<open>
  C39. The bitmap is sized from the amount of usable memory but indexed by absolute block
  number: on a memory map that fits (its blocks and the bitmap below one bound), for a usable block beyond the blocks counted, and not among those reserved for the
  bitmap, the initialisation clears a bit of a byte that lies past the end of the bitmap it set up.
  When that bit was set before, memory that is not the bitmap's has changed.
\<close>

theorem pmm_init_writes_past_bitmap:
  assumes "memmap_response (boot s) = Some es" "memmap_fits N es s" "pmm_init s = Some (Inr t)"
    and "b \<in> usable_blocks es" "b \<notin> set (reserved_blocks t)" "nblocks t \<le> b"
  shows "unat (pmm_block_count t div 8) \<le> b div 8 \<and>
    \<not> bit (rd8 t (pmm_bitmap t + of_nat (b div 8))) (b mod 8) \<and>
    (bit (rd8 s (pmm_bitmap t + of_nat (b div 8))) (b mod 8) \<longrightarrow>
      rd8 t (pmm_bitmap t + of_nat (b div 8)) \<noteq> rd8 s (pmm_bitmap t + of_nat (b div 8)))"
proof
  show "unat (pmm_block_count t div 8) \<le> b div 8" using assms(6) by (simp add: nblocks_def)
  have "\<not> used t b"
    using pmm_init_blocks [OF assms(1,2)] assms(3-5) usable_blocks_fit [OF assms(2,4)] by auto
  then show "\<not> bit (rd8 t (pmm_bitmap t + of_nat (b div 8))) (b mod 8) \<and>
    (bit (rd8 s (pmm_bitmap t + of_nat (b div 8))) (b mod 8) \<longrightarrow>
      rd8 t (pmm_bitmap t + of_nat (b div 8)) \<noteq> rd8 s (pmm_bitmap t + of_nat (b div 8)))"
    by (auto simp: used_def)
qed

lemma pmm_init_writes_past_bitmap_witness:
  "\<exists>t. pmm_init small_machine = Some (Inr t) \<and> unat (pmm_block_count t div 8) \<le> 2 \<and>
     rd8 t 0x1002 \<noteq> rd8 small_machine 0x1002"
proof -
  obtain t where t: "pmm_init small_machine = Some (Inr t)" "nblocks t = 16" "pmm_bitmap t = 0x1000"
    "set (reserved_blocks t) = {1, 2}" using small_machine_init by blast
  show ?thesis
    using pmm_init_writes_past_bitmap [OF small_machine_facts(1) small_machine_fits t(1), of 16] t
    by (simp add: small_machine_facts rd8_def)
qed

end
