(* ===== verification/PageTable.thy ===== *)
theory PageTable
  imports Machine "HOL-Library.Sublist"
begin

text \<open>
  The four-level page tables as the processor reads them: a walk from the root table along
  the indices of an address, over any memory of 64-bit words. The lemmas say what a single
  write to an entry does to every walk, for tables that do not share memory.
\<close>

section \<open>Entries\<close>

definition PTE_BIT_PRESENT :: u64 where "PTE_BIT_PRESENT = 1"
definition PTE_BIT_READ_WRITE :: u64 where "PTE_BIT_READ_WRITE = 2"
definition PTE_BIT_ACCESS_ALL :: u64 where "PTE_BIT_ACCESS_ALL = 4"
definition PTE_BIT_EXECUTE_DISABLE :: u64 where "PTE_BIT_EXECUTE_DISABLE = 0x8000000000000000"

definition PTE_ADDRESS :: u64 where "PTE_ADDRESS = 0x000ffffffffff000"

definition present :: "u64 \<Rightarrow> bool" where
  "present e \<longleftrightarrow> e AND PTE_BIT_PRESENT \<noteq> 0"

definition table_of :: "u64 \<Rightarrow> u64" where
  "table_of e = e AND PTE_ADDRESS"

lemma present_bit: "present e \<longleftrightarrow> bit e 0"
  by (simp add: present_def PTE_BIT_PRESENT_def and_one_eq bit_0 odd_iff_mod_2_eq_one)

lemma bit_PTE_ADDRESS: "bit PTE_ADDRESS n \<longleftrightarrow> 12 \<le> n \<and> n < 52"
proof -
  have "PTE_ADDRESS = push_bit 12 (mask 40)"
    by (simp add: PTE_ADDRESS_def mask_eq_exp_minus_1)
  then have "bit PTE_ADDRESS n \<longleftrightarrow> bit (push_bit 12 (mask 40) :: u64) n" by simp
  then show ?thesis by (auto simp: bit_simps)
qed

lemma bit_table_of: "bit (table_of e) n \<longleftrightarrow> bit e n \<and> 12 \<le> n \<and> n < 52"
  by (auto simp: table_of_def bit_and_iff bit_PTE_ADDRESS)

lemma present_0 [simp]: "\<not> present 0"
  by (simp add: present_bit)

section \<open>Walks\<close>

text \<open>The table reached from table \<open>t\<close> along the indices, by physical address.\<close>

fun follow :: "(u64 \<Rightarrow> u64) \<Rightarrow> u64 \<Rightarrow> u64 list \<Rightarrow> u64 option" where
  "follow E t [] = Some t"
| "follow E t (i # is) =
     (let e = E (t + 8 * i) in if present e then follow E (table_of e) is else None)"

text \<open>The entry of the last table, 0 (not present) when the walk stops before.\<close>

definition leaf :: "(u64 \<Rightarrow> u64) \<Rightarrow> u64 \<Rightarrow> u64 list \<Rightarrow> u64 \<Rightarrow> u64" where
  "leaf E root is i = (case follow E root is of None \<Rightarrow> 0 | Some t \<Rightarrow> E (t + 8 * i))"

text \<open>How many tables on the way do not exist yet.\<close>

fun missing :: "(u64 \<Rightarrow> u64) \<Rightarrow> u64 \<Rightarrow> u64 list \<Rightarrow> nat" where
  "missing E t [] = 0"
| "missing E t (i # is) =
     (let e = E (t + 8 * i) in if present e then missing E (table_of e) is else Suc (length is))"

text \<open>The indices of an address, and the translation the processor makes.\<close>

definition table_path :: "u64 \<Rightarrow> u64 list" where
  "table_path va = [drop_bit 39 va AND 0x1ff, drop_bit 30 va AND 0x1ff, drop_bit 21 va AND 0x1ff]"

definition page_index :: "u64 \<Rightarrow> u64" where
  "page_index va = drop_bit 12 va AND 0x1ff"

definition entry_of :: "(u64 \<Rightarrow> u64) \<Rightarrow> u64 \<Rightarrow> u64 \<Rightarrow> u64" where
  "entry_of E root va = leaf E root (table_path va) (page_index va)"

definition translate :: "(u64 \<Rightarrow> u64) \<Rightarrow> u64 \<Rightarrow> u64 \<Rightarrow> u64 option" where
  "translate E root va =
     (let e = entry_of E root va in if present e then Some (table_of e OR (va AND 0xfff)) else None)"

definition same_page :: "u64 \<Rightarrow> u64 \<Rightarrow> bool" where
  "same_page va vb \<longleftrightarrow> drop_bit 12 va AND mask 36 = drop_bit 12 vb AND mask 36"

lemma follow_append:
  "follow E t (is @ js) = (case follow E t is of None \<Rightarrow> None | Some u \<Rightarrow> follow E u js)"
  by (induction E t "is" rule: follow.induct) (simp_all add: Let_def)

lemma follow_snoc:
  "follow E t (is @ [i]) = (case follow E t is of None \<Rightarrow> None | Some u \<Rightarrow>
     if present (E (u + 8 * i)) then Some (table_of (E (u + 8 * i))) else None)"
  by (simp add: follow_append Let_def split: option.split)

lemma missing_0: "missing E t is = 0 \<longleftrightarrow> follow E t is \<noteq> None"
  by (induction E t "is" rule: follow.induct) (simp_all add: Let_def)

lemma missing_length: "missing E t is \<le> length is"
  by (induction E t "is" rule: follow.induct) (auto simp: Let_def)

lemma table_path_small: "set (table_path va) \<subseteq> {..<512}" "length (table_path va) = 3"
proof -
  have "x AND 0x1ff < 512" for x :: u64
  proof -
    have "x AND mask 9 < 2 ^ 9" by (rule and_mask_less') simp
    then show ?thesis by (simp add: mask_eq_exp_minus_1)
  qed
  then show "set (table_path va) \<subseteq> {..<512}" by (simp add: table_path_def)
  show "length (table_path va) = 3" by (simp add: table_path_def)
qed

lemma page_index_small: "page_index va < 512"
proof -
  have "drop_bit 12 va AND mask 9 < 2 ^ 9" by (rule and_mask_less') simp
  then show ?thesis by (simp add: page_index_def mask_eq_exp_minus_1)
qed

lemma and_mask_eq_iff:
  fixes x y :: u64
  assumes "m < 64"
  shows "x AND mask m = y AND mask m \<longleftrightarrow> (\<forall>n < m. bit x n = bit y n)"
proof -
  have m: "bit (mask m :: u64) n \<longleftrightarrow> n < m" for n using assms by (auto simp: bit_mask_iff)
  show ?thesis
  proof
    assume "x AND mask m = y AND mask m"
    then have "bit (x AND mask m) n = bit (y AND mask m) n" for n by simp
    then show "\<forall>n < m. bit x n = bit y n" by (auto simp: bit_and_iff m)
  next
    assume "\<forall>n < m. bit x n = bit y n"
    then show "x AND mask m = y AND mask m" by (intro bit_word_eqI) (auto simp: bit_and_iff m)
  qed
qed

lemma all_shift: "(\<forall>n < d. P (k + n)) \<longleftrightarrow> (\<forall>n \<in> {k..<k + d}. P n)" for k d :: nat
  by (metis add_less_cancel_left atLeastLessThan_iff le_add1 le_add_diff_inverse)

text \<open>Addresses of one page are the ones with the same four indices.\<close>

lemma same_page_path: "same_page va vb \<longleftrightarrow> table_path va = table_path vb \<and> page_index va = page_index vb"
proof -
  have m: "(0x1ff :: u64) = mask 9" by (simp add: mask_eq_exp_minus_1)
  have eq: "drop_bit k va AND 0x1ff = drop_bit k vb AND 0x1ff \<longleftrightarrow>
      (\<forall>n \<in> {k..<k + 9}. bit va n = bit vb n)" for k
    using all_shift [of 9 "\<lambda>n. bit va n = bit vb n" k] unfolding m
    by (simp add: and_mask_eq_iff bit_drop_bit_eq)
  have "same_page va vb \<longleftrightarrow> (\<forall>n \<in> {12..<12 + 36}. bit va n = bit vb n)"
    using all_shift [of 36 "\<lambda>n. bit va n = bit vb n" 12]
    by (simp add: same_page_def and_mask_eq_iff bit_drop_bit_eq)
  also have "{12..<12 + 36 :: nat} = {39..<39 + 9} \<union> {30..<30 + 9} \<union> {21..<21 + 9} \<union> {12..<12 + 9}"
    by auto
  finally show ?thesis
    by (simp only: table_path_def page_index_def list.inject eq ball_Un) auto
qed

section \<open>Tables that do not share memory\<close>

definition nodes :: "(u64 \<Rightarrow> u64) \<Rightarrow> u64 \<Rightarrow> (u64 list \<times> u64) set" where
  "nodes E root = {(is, t). length is \<le> 3 \<and> set is \<subseteq> {..<512} \<and> follow E root is = Some t}"

definition separate :: "(u64 \<Rightarrow> u64) \<Rightarrow> u64 \<Rightarrow> bool" where
  "separate E root \<longleftrightarrow> (\<forall>(is, t) \<in> nodes E root. 4096 dvd unat t) \<and> inj_on snd (nodes E root)"

lemma nodes_I: "length is \<le> 3 \<Longrightarrow> set is \<subseteq> {..<512} \<Longrightarrow> follow E root is = Some t \<Longrightarrow> (is, t) \<in> nodes E root"
  by (simp add: nodes_def)

lemma nodes_root: "([], root) \<in> nodes E root"
  by (simp add: nodes_def)

lemma entry_addr:
  fixes t i :: u64
  assumes "4096 dvd unat t" "i < 512"
  shows "unat (t + 8 * i) = unat t + 8 * unat i" "8 dvd unat (t + 8 * i)"
proof -
  have i: "unat i < 512" using assms(2) by (simp add: word_less_nat_alt)
  then have m: "unat (8 * i) = 8 * unat i" by (simp add: unat_word_ariths)
  have "unat t + 4096 \<le> 2 ^ 64"
    using assms(1) unat_u64_bound [of t] by (auto elim!: dvdE simp del: unat_u64_bound)
  then show "unat (t + 8 * i) = unat t + 8 * unat i"
    using i m by (subst unat_add_no_wrap) simp_all
  then show "8 dvd unat (t + 8 * i)" using assms(1) by (auto elim!: dvdE)
qed

lemma entry_inj:
  fixes t u i j :: u64
  assumes "4096 dvd unat t" "4096 dvd unat u" "i < 512" "j < 512"
  shows "t + 8 * i = u + 8 * j \<longleftrightarrow> t = u \<and> i = j"
proof
  assume "t + 8 * i = u + 8 * j"
  then have "unat t + 8 * unat i = unat u + 8 * unat j"
    using entry_addr(1) [OF assms(1,3)] entry_addr(1) [OF assms(2,4)] by simp
  moreover have "unat i < 512" "unat j < 512" using assms(3,4) by (simp_all add: word_less_nat_alt)
  moreover have "unat x = 4096 * ((unat x + 8 * k) div 4096)" if "4096 dvd unat x" "k < 512"
    for x :: u64 and k using that by (auto elim!: dvdE)
  ultimately have "unat t = unat u" using assms(1,2) by metis
  then have "unat i = unat j" using \<open>unat t + 8 * unat i = unat u + 8 * unat j\<close> by simp
  note \<open>unat t = unat u\<close> this
  then show "t = u \<and> i = j" by (simp add: word_unat_eq_iff)
qed simp

text \<open>The two memories agree on every entry of a table except entry \<open>i\<close> of the table at \<open>is\<close>.\<close>

definition agree_except :: "(u64 \<Rightarrow> u64) \<Rightarrow> (u64 \<Rightarrow> u64) \<Rightarrow> u64 \<Rightarrow> u64 list \<Rightarrow> u64 \<Rightarrow> bool" where
  "agree_except E E' root is i \<longleftrightarrow>
     (\<forall>(js, u) \<in> nodes E root. \<forall>j < 512. (js, j) \<noteq> (is, i) \<longrightarrow> E' (u + 8 * j) = E (u + 8 * j))"

lemma agree_exceptD:
  "agree_except E E' root is i \<Longrightarrow> (js, u) \<in> nodes E root \<Longrightarrow> j < 512 \<Longrightarrow> (js, j) \<noteq> (is, i) \<Longrightarrow>
     E' (u + 8 * j) = E (u + 8 * j)"
  by (drule bspec [where x = "(js, u)", OF agree_except_def [THEN iffD1]]) auto

lemma separateD: "separate E root \<Longrightarrow> (is, t) \<in> nodes E root \<Longrightarrow> (js, t) \<in> nodes E root \<Longrightarrow> is = js"
  unfolding separate_def by (drule conjunct2) (drule inj_onD [where x = "(is, t)" and y = "(js, t)"], auto)

lemma follow_agree:
  assumes "agree_except E E' root is i" "length js \<le> 3" "set js \<subseteq> {..<512}" "\<not> prefix (is @ [i]) js"
  shows "follow E' root js = follow E root js"
  using assms(2-4)
proof (induction js rule: rev_induct)
  case Nil
  then show ?case by simp
next
  case (snoc j js)
  have "\<not> prefix (is @ [i]) js" using snoc.prems(3) by auto
  then have IH: "follow E' root js = follow E root js" using snoc by simp
  show ?case
  proof (cases "follow E root js")
    case None
    then show ?thesis using IH by (simp add: follow_snoc)
  next
    case (Some u)
    have "(js, u) \<in> nodes E root" using Some snoc.prems by (intro nodes_I) auto
    moreover have "(js, j) \<noteq> (is, i)" "j < 512" using snoc.prems by auto
    ultimately have "E' (u + 8 * j) = E (u + 8 * j)"
      using assms(1) by (auto simp: agree_except_def)
    then show ?thesis using IH Some by (simp add: follow_snoc)
  qed
qed

text \<open>Writing a leaf entry keeps every walk and changes that leaf only.\<close>

lemma leaf_write:
  assumes "agree_except E E' root is i" "(is, t) \<in> nodes E root" "length is = 3" "i < 512"
    and "length js = 3" "set js \<subseteq> {..<512}" "j < 512"
  shows "leaf E' root js j = (if (js, j) = (is, i) then E' (t + 8 * i) else leaf E root js j)"
    and "nodes E' root = nodes E root"
proof -
  have f: "follow E' root ks = follow E root ks" if "length ks \<le> 3" "set ks \<subseteq> {..<512}" for ks
    using that assms(3) by (intro follow_agree [OF assms(1)]) (auto dest: prefix_length_le)
  then show "nodes E' root = nodes E root" by (auto simp: nodes_def)
  show "leaf E' root js j = (if (js, j) = (is, i) then E' (t + 8 * i) else leaf E root js j)"
  proof (cases "follow E root js")
    case None
    then show ?thesis using f [of js] assms(2,5,6) by (auto simp: leaf_def nodes_def)
  next
    case (Some u)
    then have "(js, u) \<in> nodes E root" using assms(5,6) by (auto simp: nodes_def)
    then have "(js, j) \<noteq> (is, i) \<Longrightarrow> E' (u + 8 * j) = E (u + 8 * j)"
      using assms(1,7) by (auto simp: agree_except_def)
    then show ?thesis using f [of js] assms(2,5,6) Some by (auto simp: leaf_def nodes_def)
  qed
qed

text \<open>
  Linking a fresh zeroed table \<open>n\<close> below an absent entry adds one node and changes no leaf.
\<close>

definition links :: "(u64 \<Rightarrow> u64) \<Rightarrow> (u64 \<Rightarrow> u64) \<Rightarrow> u64 \<Rightarrow> u64 list \<Rightarrow> u64 \<Rightarrow> u64 \<Rightarrow> bool" where
  "links E E' root is i n \<longleftrightarrow> agree_except E E' root is i \<and> length is \<le> 2 \<and> set is \<subseteq> {..<512} \<and> i < 512 \<and>
     (\<exists>t. follow E root is = Some t \<and> \<not> present (E (t + 8 * i)) \<and> present (E' (t + 8 * i)) \<and>
          table_of (E' (t + 8 * i)) = n) \<and> (\<forall>j < 512. E' (n + 8 * j) = 0)"

lemma follow_below_absent:
  assumes "follow E root is = Some t" "\<not> present (E (t + 8 * i))" "prefix (is @ [i]) js"
  shows "follow E root js = None"
  using assms by (auto simp: prefix_def follow_append Let_def)

lemma links_follow:
  assumes L: "links E E' root is i n" and js: "length js \<le> 3" "set js \<subseteq> {..<512}"
  shows "follow E' root js =
    (if js = is @ [i] then Some n else if prefix (is @ [i]) js then None else follow E root js)"
proof (cases "prefix (is @ [i]) js")
  case False
  then show ?thesis using follow_agree [of E E' root "is" i js] L js by (auto simp: links_def)
next
  case True
  then obtain ks where ks: "js = is @ i # ks" by (auto simp: prefix_def)
  obtain t where t: "follow E root is = Some t" "present (E' (t + 8 * i))" "table_of (E' (t + 8 * i)) = n"
    using L by (auto simp: links_def)
  have "follow E' root is = Some t"
    using follow_agree [of E E' root "is" i "is"] L t(1) by (auto simp: links_def)
  then have "follow E' root js = follow E' n ks" by (simp add: ks follow_append t)
  also have "\<dots> = (if ks = [] then Some n else None)"
    using L js(2) by (cases ks) (auto simp: links_def ks)
  finally show ?thesis using True by (auto simp: ks)
qed

lemma links_nodes:
  assumes L: "links E E' root is i n"
  shows "nodes E' root = insert (is @ [i], n) (nodes E root)"
proof -
  have new: "length (is @ [i]) \<le> 3" "set (is @ [i]) \<subseteq> {..<512}" using L by (auto simp: links_def)
  have absent: "follow E root js = None" if "prefix (is @ [i]) js" for js
    using follow_below_absent [OF _ _ that] L by (auto simp: links_def)
  show ?thesis
    using links_follow [OF L] new absent by (auto simp: nodes_def split: if_splits)
qed

lemma links_leaf:
  assumes L: "links E E' root is i n" and js: "length js = 3" "set js \<subseteq> {..<512}" "j < 512"
  shows "leaf E' root js j = leaf E root js j"
proof (cases "prefix (is @ [i]) js")
  case True
  have "follow E root js = None" using follow_below_absent [OF _ _ True] L by (auto simp: links_def)
  then show ?thesis
    using links_follow [OF L, of js] L js True by (auto simp: leaf_def links_def)
next
  case False
  then have f: "follow E' root js = follow E root js" using links_follow [OF L, of js] js by auto
  have "E' (u + 8 * j) = E (u + 8 * j)" if "follow E root js = Some u" for u
    by (rule agree_exceptD [of E E' root "is" i js]) (use L js that in \<open>auto simp: links_def nodes_def\<close>)
  then show ?thesis using f by (simp add: leaf_def split: option.split)
qed

lemma links_separate:
  assumes L: "links E E' root is i n" and "separate E root" "4096 dvd unat n"
    and fresh: "\<forall>(js, u) \<in> nodes E root. u \<noteq> n"
  shows "separate E' root"
  using assms(2-4) links_nodes [OF L] by (fastforce simp: separate_def inj_on_def)

section \<open>The interface of a memory of words\<close>

text \<open>
  What the page tables need of the memory below them: an aligned word written is read back,
  and no other aligned word changes.
\<close>

locale word_memory =
  fixes load :: "'m \<Rightarrow> u64 \<Rightarrow> u64"
    and store :: "u64 \<Rightarrow> u64 \<Rightarrow> 'm \<Rightarrow> 'm"
  assumes load_same: "load (store a v m) a = v"
    and load_other: "8 dvd unat a \<Longrightarrow> 8 dvd unat b \<Longrightarrow> a \<noteq> b \<Longrightarrow> load (store a v m) b = load m b"
begin

lemma store_entry:
  assumes "separate E root" "(is, t) \<in> nodes E root" "(js, u) \<in> nodes E root" "i < 512" "j < 512"
    and "(js, j) \<noteq> (is, i)"
  shows "load (store (t + 8 * i) v m) (u + 8 * j) = load m (u + 8 * j)"
proof (rule load_other)
  have a: "4096 dvd unat t" "4096 dvd unat u" using assms(1-3) by (auto simp: separate_def)
  then show "8 dvd unat (t + 8 * i)" "8 dvd unat (u + 8 * j)"
    using entry_addr(2) assms(4,5) by blast+
  have "t = u \<Longrightarrow> is = js"
    using separateD [OF assms(1)] assms(2,3) by blast
  then show "t + 8 * i \<noteq> u + 8 * j"
    using assms(6) entry_inj [OF a assms(4,5)] by auto
qed

lemma store_agree:
  assumes "separate (load m) root" "(is, t) \<in> nodes (load m) root" "i < 512"
  shows "agree_except (load m) (load (store (t + 8 * i) v m)) root is i"
  using store_entry [OF assms(1,2) _ assms(3)] by (auto simp: agree_except_def)

text \<open>Setting one leaf entry is setting one leaf.\<close>

lemma leaf_store:
  assumes "separate (load m) root" "(is, t) \<in> nodes (load m) root" "length is = 3" "i < 512"
    and "length js = 3" "set js \<subseteq> {..<512}" "j < 512"
  shows "leaf (load (store (t + 8 * i) v m)) root js j = (if (js, j) = (is, i) then v else leaf (load m) root js j)"
    and "nodes (load (store (t + 8 * i) v m)) root = nodes (load m) root"
  using leaf_write [OF store_agree [OF assms(1,2,4)] assms(2-7)] by (simp_all add: load_same)

end

interpretation phys_mem: word_memory ld64 st64
  by unfold_locales (auto simp: byte_simps apart8_aligned intro: ld64_st64_other)

end
