(* ===== verification/Vmm.thy ===== *)
theory Vmm
  imports PageTable Pmm
begin

text \<open>
  \<open>kern/mm/vmm.c\<close>: the functions that walk and extend the page tables through the higher
  half direct map, and what they do to the tables as the processor reads them. A
  \<open>page_map\<close> is the virtual address in its only member.
\<close>

section \<open>The functions\<close>

definition PAGE_SIZE :: u64 where "PAGE_SIZE = 4096"

definition get_lower_table :: "u64 \<Rightarrow> u64 \<Rightarrow> kernel \<Rightarrow> failure + (u64 \<times> kernel)" where
  "get_lower_table page_map_ptr indx s =
     (let e = rd64 s (page_map_ptr + 8 * indx)
      in if e AND PTE_BIT_PRESENT \<noteq> 0
         then Inr ((e AND PTE_ADDRESS) + hhdmoffset s, s)
         else sbind (pmm_alloc_block s) (\<lambda>(new_page, s).
              sbind (if new_page = 0 then log_panic ''PMM failed to allocate block for the vmm'' s else Inr s) (\<lambda>s.
              let s = snd (memset (new_page + hhdmoffset s) 0 PAGE_SIZE s);
                  s = wr64 (page_map_ptr + 8 * indx)
                        (new_page OR PTE_BIT_PRESENT OR PTE_BIT_READ_WRITE OR PTE_BIT_ACCESS_ALL) s
              in Inr (new_page + hhdmoffset s, s))))"

text \<open>A null pointer is returned as 0, as each early return of the code does.\<close>

definition get_pt :: "u64 \<Rightarrow> u64 \<Rightarrow> kernel \<Rightarrow> failure + (u64 \<times> kernel)" where
  "get_pt page_map virtual_addr s =
     (let pmd_index = drop_bit 21 virtual_addr AND 0x1ff;
          pud_index = drop_bit 30 virtual_addr AND 0x1ff;
          pgd_index = drop_bit 39 virtual_addr AND 0x1ff
      in sbind (get_lower_table page_map pgd_index s) (\<lambda>(pgd, s).
         if pgd = 0 then Inr (0, s)
         else sbind (get_lower_table pgd pud_index s) (\<lambda>(pud, s).
         if pud = 0 then Inr (0, s)
         else sbind (get_lower_table pud pmd_index s) (\<lambda>(pt, s).
         if pt = 0 then Inr (0, s) else Inr (pt, s)))))"

text \<open>\<open>movq %cr3, %rax; movq %rax, %cr3\<close>\<close>

definition reload_cr3 :: "kernel \<Rightarrow> kernel" where
  "reload_cr3 s = emit (LoadCr3 (cr3 s)) s"

definition vmm_map_page :: "u64 \<Rightarrow> u64 \<Rightarrow> u64 \<Rightarrow> u64 \<Rightarrow> kernel \<Rightarrow> failure + kernel" where
  "vmm_map_page page_map virtual_addr physical_addr flags s =
     (let pt_index = drop_bit 12 virtual_addr AND 0x1ff
      in sbind (get_pt page_map virtual_addr s) (\<lambda>(pt, s).
         sbind (if pt = 0 then log_panic ''Page table not recieved'' s else Inr s) (\<lambda>s.
         Inr (reload_cr3 (wr64 (pt + 8 * pt_index) (physical_addr OR flags) s)))))"

definition vmm_free_page :: "u64 \<Rightarrow> u64 \<Rightarrow> kernel \<Rightarrow> failure + kernel" where
  "vmm_free_page page_map virtual_addr s =
     (let pt_index = drop_bit 12 virtual_addr AND 0x1ff
      in sbind (get_pt page_map virtual_addr s) (\<lambda>(pt, s).
         sbind (pmm_free_block (rd64 s (pt + 8 * pt_index) AND PTE_ADDRESS) s) (\<lambda>s.
         Inr (reload_cr3 (wr64 (pt + 8 * pt_index) 0 s)))))"

section \<open>The direct map\<close>

definition tables :: "kernel \<Rightarrow> u64 \<Rightarrow> u64" where
  "tables s = ld64 (phys s)"

text \<open>The first \<open>nblocks\<close> blocks of memory are seen at their address plus \<open>hhdmoffset\<close>.\<close>

definition hhdm_linear :: "kernel \<Rightarrow> bool" where
  "hhdm_linear s \<longleftrightarrow> unat (hhdmoffset s) + 4096 * nblocks s \<le> 2 ^ 64 \<and>
     (\<forall>p. unat p < 4096 * nblocks s \<longrightarrow> vm s (p + hhdmoffset s) = p)"

text \<open>An address inside block \<open>b\<close>, and a block that does not hold the bitmap.\<close>

definition in_block :: "nat \<Rightarrow> u64 \<Rightarrow> bool" where
  "in_block b x \<longleftrightarrow> unat x div 4096 = b"

definition clear_block :: "kernel \<Rightarrow> nat \<Rightarrow> bool" where
  "clear_block s b \<longleftrightarrow> (\<forall>x \<in> bitmap_bytes (nblocks s) s. \<not> in_block b x)"

lemma block_bytes:
  assumes "b < 2 ^ 52" "k < 4096"
  shows "unat (block_addr b + of_nat k) = 4096 * b + k" "in_block b (block_addr b + of_nat k)"
proof -
  show u: "unat (block_addr b + of_nat k) = 4096 * b + k"
    using unat_add_of_nat [of "block_addr b" k] unat_block_addr [OF assms(1)] assms by simp
  then show "in_block b (block_addr b + of_nat k)" using assms(2) by (simp add: in_block_def)
qed

lemma in_block_I: "in_block b x \<Longrightarrow> b < 2 ^ 52 \<Longrightarrow> \<exists>k < 4096. x = block_addr b + of_nat k"
  using block_bytes(1) [of b "unat x mod 4096"]
  by (intro exI [of _ "unat x mod 4096"]) (auto simp: in_block_def word_unat_eq_iff)

lemma hhdm_linearD: "hhdm_linear s \<Longrightarrow> b < nblocks s \<Longrightarrow> in_block b x \<Longrightarrow> vm s (x + hhdmoffset s) = x"
  unfolding hhdm_linear_def in_block_def by (auto simp: div_less_iff_less_mult)

lemma hhdm_not_null: "hhdm_linear s \<Longrightarrow> b < nblocks s \<Longrightarrow> in_block b x \<Longrightarrow> b \<noteq> 0 \<Longrightarrow> x + hhdmoffset s \<noteq> 0"
proof
  assume a: "hhdm_linear s" "b < nblocks s" "in_block b x" "b \<noteq> 0" "x + hhdmoffset s = 0"
  then have x: "unat x < 4096 * nblocks s" "0 < unat x"
    by (auto simp: in_block_def div_less_iff_less_mult intro: gr0I)
  then have "unat (x + hhdmoffset s) = unat x + unat (hhdmoffset s)"
    using a(1) by (intro unat_add_no_wrap) (simp add: hhdm_linear_def)
  then show False using a(5) x(2) by simp
qed

text \<open>A word of a table block, read and written through the direct map.\<close>

lemma word_in_block:
  assumes "i < 512" "k < 8" "b < 2 ^ 52"
  shows "in_block b (block_addr b + 8 * i + of_nat k)"
proof -
  have i: "unat i < 512" using assms(1) by (simp add: word_less_nat_alt)
  have "block_addr b + 8 * i + of_nat k = block_addr b + of_nat (8 * unat i + k)" by simp
  moreover have "8 * unat i + k < 4096" using i assms(2) by simp
  ultimately show ?thesis using block_bytes(2) [OF assms(3)] by metis
qed

lemma ld64_shift: "(\<And>k. k < 8 \<Longrightarrow> m (a + of_nat k) = m' (b + of_nat k)) \<Longrightarrow> ld64 m a = ld64 m' b"
  unfolding ld64_bytes
  by (intro arg_cong [where f = word_rcat] arg_cong [where f = rev] map_cong) auto

lemma rd64_table:
  assumes "hhdm_linear s" "b < nblocks s" "b < 2 ^ 52" "i < 512"
  shows "rd64 s (block_addr b + hhdmoffset s + 8 * i) = tables s (block_addr b + 8 * i)"
  unfolding rd64_def tables_def
proof (rule ld64_shift)
  fix k :: nat
  assume "k < 8"
  then have "vm s (block_addr b + 8 * i + of_nat k + hhdmoffset s) = block_addr b + 8 * i + of_nat k"
    using hhdm_linearD [OF assms(1,2)] word_in_block [OF assms(4) _ assms(3)] by blast
  then show "rd8 s (block_addr b + hhdmoffset s + 8 * i + of_nat k) = phys s (block_addr b + 8 * i + of_nat k)"
    by (simp add: rd8_def algebra_simps)
qed

lemma mem_only_wr64: "mem_only s (wr64 a v s)"
  by (auto simp: wr64_def intro!: mem_only_fold)

lemma phys_fold_wr8:
  assumes "\<And>k. k \<in> set ks \<Longrightarrow> vm s (a + of_nat k) = p + of_nat k"
  shows "phys (fold (\<lambda>k. wr8 (a + of_nat k) (f k)) ks s) = fold (\<lambda>k m. m(p + of_nat k := f k)) ks (phys s)"
  using assms
proof (induction ks arbitrary: s)
  case Nil
  then show ?case by simp
next
  case (Cons k ks)
  have "phys (fold (\<lambda>k. wr8 (a + of_nat k) (f k)) ks (wr8 (a + of_nat k) (f k) s)) =
      fold (\<lambda>k m. m(p + of_nat k := f k)) ks (phys (wr8 (a + of_nat k) (f k) s))"
    using Cons.prems by (intro Cons.IH) (auto simp: kern_simps)
  then show ?case using Cons.prems [of k] by (simp add: phys_wr8 del: fun_upd_apply)
qed

lemma st64_bytes: "st64 p v m = fold (\<lambda>k m. m(p + of_nat k := byte_of k v)) [0..<8] m"
proof
  fix x
  have "fold (\<lambda>k m. m(p + of_nat k := byte_of k v)) [0..<n] m x =
      (if unat (x - p) < n then byte_of (unat (x - p)) v else m x)" if "n \<le> 8" for n
    using that
  proof (induction n)
    case (Suc n)
    then have "x = p + of_nat n \<longleftrightarrow> unat (x - p) = n"
      by (auto simp: unat_of_nat)
    then show ?case using Suc by (auto simp: less_Suc_eq)
  qed simp
  from this [of 8] show "st64 p v m x = fold (\<lambda>k m. m(p + of_nat k := byte_of k v)) [0..<8] m x"
    by (simp add: st64_def byte_of_def u64_less_8_unat del: upt_Suc)
qed

lemma wr64_table:
  assumes "hhdm_linear s" "b < nblocks s" "b < 2 ^ 52" "i < 512"
  shows "phys (wr64 (block_addr b + hhdmoffset s + 8 * i) v s) = st64 (block_addr b + 8 * i) v (phys s)"
  unfolding wr64_def st64_bytes
proof (rule phys_fold_wr8)
  fix k
  assume "k \<in> set [0..<8 :: nat]"
  then have "vm s (block_addr b + 8 * i + of_nat k + hhdmoffset s) = block_addr b + 8 * i + of_nat k"
    by (intro hhdm_linearD [OF assms(1,2)] word_in_block [OF assms(4) _ assms(3)]) simp
  then show "vm s (block_addr b + hhdmoffset s + 8 * i + of_nat k) = block_addr b + 8 * i + of_nat k"
    by (simp add: algebra_simps)
qed

text \<open>The entry that links a block as a table.\<close>

lemma link_entry:
  assumes "b < 2 ^ 40"
  defines "e \<equiv> block_addr b OR PTE_BIT_PRESENT OR PTE_BIT_READ_WRITE OR PTE_BIT_ACCESS_ALL"
  shows "present e" "table_of e = block_addr b"
proof -
  have a: "block_addr b = push_bit 12 (of_nat b)"
    by (simp add: block_addr_def BLOCK_SIZE_def push_bit_eq_mult)
  have "PTE_BIT_PRESENT OR PTE_BIT_READ_WRITE OR PTE_BIT_ACCESS_ALL = mask 3"
    by (simp add: PTE_BIT_PRESENT_def PTE_BIT_READ_WRITE_def PTE_BIT_ACCESS_ALL_def mask_eq_exp_minus_1)
  then have e: "e = push_bit 12 (of_nat b) OR mask 3" by (simp add: e_def a)
  have small: "n < 40" if "bit b n" for n
  proof -
    have "2 ^ n \<le> b" using that by (metis bit_iff_odd div_less even_zero not_less)
    then show ?thesis using assms(1) power_less_imp_less_exp [of "2 :: nat" n 40] by linarith
  qed
  show "table_of e = block_addr b"
    unfolding a e by (intro bit_word_eqI) (auto simp: bit_table_of bit_simps dest: small)
  show "present e" by (simp add: present_bit e bit_simps)
qed

section \<open>The invariant\<close>

definition table_block :: "kernel \<Rightarrow> u64 \<Rightarrow> bool" where
  "table_block s t \<longleftrightarrow> (\<exists>b. t = block_addr b \<and> b \<noteq> 0 \<and> b < nblocks s \<and> used s b \<and> clear_block s b)"

definition vmm_sound :: "u64 \<Rightarrow> kernel \<Rightarrow> bool" where
  "vmm_sound root s \<longleftrightarrow> pmm_sound s \<and> hhdm_linear s \<and> 0 \<notin> free_blocks s \<and>
     (\<forall>b \<in> free_blocks s. clear_block s b) \<and> separate (tables s) root \<and>
     (\<forall>(is, t) \<in> nodes (tables s) root. table_block s t)"

lemma vmm_soundD:
  assumes "vmm_sound root s"
  shows "pmm_sound s" "hhdm_linear s" "0 \<notin> free_blocks s" "separate (tables s) root"
    and "b \<in> free_blocks s \<Longrightarrow> clear_block s b"
    and "(is, t) \<in> nodes (tables s) root \<Longrightarrow> table_block s t"
  using assms unfolding vmm_sound_def by blast+

lemma pmm_sound_small: "pmm_sound s \<Longrightarrow> b < nblocks s \<Longrightarrow> b < 2 ^ 31"
  by (simp add: pmm_sound_def bitmap_wf_def)

lemma env_mem_only:
  assumes "mem_only s u"
  shows "clear_block u = clear_block s" "hhdm_linear u = hhdm_linear s" "pmm_sound u = pmm_sound s"
    "nblocks u = nblocks s" "hhdmoffset u = hhdmoffset s" "bitmap_bytes n u = bitmap_bytes n s"
  using mem_only_fields [OF assms] nblocks_mem_only [OF assms] bitmap_bytes_cong [OF assms]
    bitmap_wf_mem_only [OF assms]
  by (auto simp: clear_block_def hhdm_linear_def pmm_sound_def)

text \<open>Memory writes outside the bitmap keep the marks.\<close>

lemma marks_kept:
  assumes "mem_only s u" "\<And>x. x \<in> bitmap_bytes (nblocks s) s \<Longrightarrow> phys u x = phys s x"
  shows "c < nblocks s \<Longrightarrow> used u c = used s c" "free_blocks u = free_blocks s"
proof -
  have k: "used u c = used s c" if "c < nblocks s" for c
  proof -
    have "vm s (pmm_bitmap s + of_nat (c div 8)) \<in> bitmap_bytes (nblocks s) s"
      using that by (auto simp: bitmap_bytes_def)
    then show ?thesis using assms(2) by (simp add: used_def rd8_def mem_only_fields [OF assms(1)])
  qed
  then show "c < nblocks s \<Longrightarrow> used u c = used s c" .
  show "free_blocks u = free_blocks s" using k by (auto simp: free_blocks_def env_mem_only [OF assms(1)])
qed

text \<open>Memory writes outside the tables keep their entries.\<close>

lemma entries_kept:
  assumes "\<And>x. in_block b x \<Longrightarrow> phys u x = phys s x" "b < 2 ^ 52" "j < 512"
  shows "tables u (block_addr b + 8 * j) = tables s (block_addr b + 8 * j)"
  unfolding tables_def using word_in_block [OF assms(3) _ assms(2)] assms(1)
  by (intro ld64_cong) blast

lemma block_addr_inj: "b < 2 ^ 52 \<Longrightarrow> c < 2 ^ 52 \<Longrightarrow> block_addr b = block_addr c \<longleftrightarrow> b = c"
  using unat_block_addr by (metis mult_cancel2 numeral_neq_zero)

lemma block_addr_aligned: "b < 2 ^ 52 \<Longrightarrow> 4096 dvd unat (block_addr b)"
  by (simp add: unat_block_addr)

lemma word_bytes_in_block:
  assumes "x - (block_addr b + 8 * i) < 8" "i < 512" "b < 2 ^ 52"
  shows "in_block b x"
  using word_in_block [OF assms(2), of "unat (x - (block_addr b + 8 * i))" b] assms(1,3)
  by (simp add: u64_less_8_unat)

lemma memset_block:
  assumes "hhdm_linear s" "b < nblocks s" "b < 2 ^ 52"
  shows "phys (snd (memset (block_addr b + hhdmoffset s) 0 PAGE_SIZE s)) =
    (\<lambda>x. if in_block b x then 0 else phys s x)"
proof -
  have v: "vm s (block_addr b + hhdmoffset s + of_nat k) = block_addr b + of_nat k" if "k < 4096" for k
    using hhdm_linearD [OF assms(1,2) block_bytes(2) [OF assms(3) that]] by (simp add: algebra_simps)
  have "(\<exists>k < 4096. vm s (block_addr b + hhdmoffset s + of_nat k) = x) = in_block b x" for x
    using v block_bytes(2) [OF assms(3)] in_block_I [OF _ assms(3)] by metis
  then show ?thesis by (simp add: memset_def memset_loop_phys PAGE_SIZE_def cong: if_cong)
qed

section \<open>One level down\<close>

text \<open>Writes that spare the bitmap keep the soundness of everything but the tables.\<close>

lemma vmm_sound_write:
  assumes "vmm_sound root s" "mem_only s u"
    and "\<And>x. x \<in> bitmap_bytes (nblocks s) s \<Longrightarrow> phys u x = phys s x"
    and "separate (tables u) root" "\<And>is t. (is, t) \<in> nodes (tables u) root \<Longrightarrow> table_block s t"
  shows "vmm_sound root u"
proof -
  note E = env_mem_only [OF assms(2)] and M = marks_kept(1) [OF assms(2,3)]
  have fb: "free_blocks u = free_blocks s" by (rule marks_kept(2) [OF assms(2,3)])
  have "table_block u t" if "(is, t) \<in> nodes (tables u) root" for "is" t
    using assms(5) [OF that] M unfolding table_block_def E by blast
  then show ?thesis
    using vmm_soundD(1-3,5) [OF assms(1)] assms(4) by (auto simp: vmm_sound_def E fb)
qed

lemma node_block:
  assumes "vmm_sound root s" "(is, t) \<in> nodes (tables s) root"
  obtains b where "t = block_addr b" "b \<noteq> 0" "b < nblocks s" "b < 2 ^ 31" "used s b" "clear_block s b"
  using vmm_soundD(6) [OF assms] pmm_sound_small [OF vmm_soundD(1) [OF assms(1)]]
  by (auto simp: table_block_def)

text \<open>Writes that spare every table keep all its entries, hence all walks.\<close>

lemma tables_kept:
  assumes "vmm_sound root s"
    and "\<And>b x. b < nblocks s \<Longrightarrow> used s b \<Longrightarrow> clear_block s b \<Longrightarrow> in_block b x \<Longrightarrow> phys u x = phys s x"
    and "(is, t) \<in> nodes (tables s) root" "j < 512"
  shows "tables u (t + 8 * j) = tables s (t + 8 * j)"
proof -
  obtain b where b: "t = block_addr b" "b < nblocks s" "b < 2 ^ 31" "used s b" "clear_block s b"
    using node_block [OF assms(1,3)] by metis
  show ?thesis
    unfolding b(1) by (rule entries_kept) (use b assms(2,4) in auto)
qed

text \<open>
  The effect of a call that has to make the table: block \<open>m\<close> becomes used, is zeroed, and is
  linked at the absent entry.
\<close>

lemma make_table:
  assumes S: "vmm_sound root s" and t: "(is, t) \<in> nodes (tables s) root" "length is \<le> 2" "i < 512"
    and absent: "\<not> present (tables s (t + 8 * i))" and ne: "free_blocks s \<noteq> {}"
  defines "m \<equiv> Min (free_blocks s)"
  shows "\<exists>u. get_lower_table (t + hhdmoffset s) i s = Inr (block_addr m + hhdmoffset s, u) \<and>
    mem_only s u \<and> links (tables s) (tables u) root is i (block_addr m) \<and>
    free_blocks u = free_blocks s - {m} \<and> vmm_sound root u"
proof -
  note D = vmm_soundD [OF S]
  have mfree: "m \<in> free_blocks s" using ne by (simp add: m_def)
  then have m: "m < nblocks s" "\<not> used s m" "m \<noteq> 0" "clear_block s m" "m < 2 ^ 31"
    using D(3) D(5) [OF mfree] pmm_sound_small [OF D(1), of m] by (auto simp: free_blocks_def intro: ccontr)
  obtain b where b: "t = block_addr b" "b \<noteq> 0" "b < nblocks s" "b < 2 ^ 31" "used s b" "clear_block s b"
    using node_block [OF S t(1)] .
  have mb: "m \<noteq> b" using b(5) m(2) by auto
  obtain s1 where s1: "pmm_alloc_block s = Inr (block_addr m, s1)" "bitmap_only (nblocks s) s s1"
    "\<forall>c < nblocks s. used s1 c \<longleftrightarrow> c = m \<or> used s c" "free_blocks s1 = free_blocks s - {m}"
    using pmm_alloc_lowest [OF D(1) ne] unfolding m_def by blast
  define s2 where "s2 = snd (memset (block_addr m + hhdmoffset s) 0 PAGE_SIZE s1)"
  define u where "u = wr64 (t + hhdmoffset s + 8 * i)
    (block_addr m OR PTE_BIT_PRESENT OR PTE_BIT_READ_WRITE OR PTE_BIT_ACCESS_ALL) s2"
  have mo1: "mem_only s s1" using s1(2) by (simp add: bitmap_only_def)
  have mo2: "mem_only s1 s2" unfolding s2_def by (rule memset_mem_only)
  have mou: "mem_only s2 u" unfolding u_def by (rule mem_only_wr64)
  note mo = mem_only_trans [OF mo1 mo2] mem_only_trans [OF mem_only_trans [OF mo1 mo2] mou]
  note E1 = env_mem_only [OF mo1] note E2 = env_mem_only [OF mo(1)] note Eu = env_mem_only [OF mo(2)]
  have a0: "block_addr m \<noteq> 0"
    using block_addr_inj [of m 0] m(3,5) by (simp add: block_addr_def)
  have p2: "phys s2 = (\<lambda>x. if in_block m x then 0 else phys s1 x)"
    unfolding s2_def E1(5) [symmetric] by (rule memset_block) (use D(2) m E1 in auto)
  have pu: "phys u = st64 (t + 8 * i) (block_addr m OR PTE_BIT_PRESENT OR PTE_BIT_READ_WRITE OR PTE_BIT_ACCESS_ALL) (phys s2)"
    unfolding u_def b(1) E2(5) [symmetric] by (rule wr64_table) (use D(2) b t(3) E2 in auto)
  have rd: "rd64 s (t + hhdmoffset s + 8 * i) = tables s (t + 8 * i)"
    using rd64_table [OF D(2) b(3) _ t(3)] b(1,4) by simp
  have "wr64 (t + hhdmoffset s + 8 * i)
      (block_addr m OR PTE_BIT_PRESENT OR PTE_BIT_READ_WRITE OR PTE_BIT_ACCESS_ALL)
      (snd (memset (block_addr m + hhdmoffset s) 0 PAGE_SIZE s1)) = u"
    by (simp only: u_def s2_def)
  then have call: "get_lower_table (t + hhdmoffset s) i s = Inr (block_addr m + hhdmoffset s, u)"
    using absent s1(1) a0 E1(5) Eu(5) by (simp add: get_lower_table_def present_def Let_def rd)
  have clean1: "phys s1 x = phys s x" if "in_block c x" "clear_block s c" for c x
    using s1(2) that by (auto simp: bitmap_only_def clear_block_def)
  have pb: "phys u x = phys s2 x" if "\<not> in_block b x" for x
    using that word_bytes_in_block [of x b i] t(3) b(4) by (auto simp: pu st64_def b(1))
  have "tables u (v + 8 * j) = tables s (v + 8 * j)"
    if "(js, v) \<in> nodes (tables s) root" "j < 512" "(js, j) \<noteq> (is, i)" for js v j
  proof -
    have "tables u (v + 8 * j) = tables s2 (v + 8 * j)"
      using phys_mem.store_entry [OF D(4) t(1) that(1) t(3) that(2,3)] by (simp add: tables_def pu)
    also have "\<dots> = tables s (v + 8 * j)"
      by (rule tables_kept [OF S _ that(1,2)]) (use clean1 m(2) in \<open>auto simp: p2 in_block_def\<close>)
    finally show ?thesis .
  qed
  then have agree: "agree_except (tables s) (tables u) root is i" by (auto simp: agree_except_def)
  have entry: "tables u (t + 8 * i) = block_addr m OR PTE_BIT_PRESENT OR PTE_BIT_READ_WRITE OR PTE_BIT_ACCESS_ALL"
    by (simp add: tables_def pu byte_simps)
  have zero: "tables u (block_addr m + 8 * j) = 0" if "j < 512" for j
  proof -
    have "tables u (block_addr m + 8 * j) = tables s2 (block_addr m + 8 * j)"
      using pb mb m(5) that by (intro entries_kept) (auto simp: in_block_def)
    also have "\<dots> = ld64 (\<lambda>_. 0) (block_addr m + 8 * j)"
      unfolding tables_def p2 using word_in_block [OF that, of _ m] m(5) by (intro ld64_cong) auto
    finally show ?thesis by (simp add: ld64_def word_rcat_def)
  qed
  have L: "links (tables s) (tables u) root is i (block_addr m)"
    using t agree absent zero link_entry [of m] m(5) entry by (auto simp: links_def nodes_def)
  have spared: "phys u x = phys s1 x" if "x \<in> bitmap_bytes (nblocks s1) s1" for x
    using that m(4) b(6) pb [of x] by (auto simp: clear_block_def p2 E1)
  have marks: "used u c \<longleftrightarrow> c = m \<or> used s c" if "c < nblocks s" for c
    using marks_kept(1) [OF mem_only_trans [OF mo2 mou] spared, of c] s1(3) that E1(4) by simp
  have free: "free_blocks u = free_blocks s - {m}"
    using marks_kept(2) [OF mem_only_trans [OF mo2 mou] spared] s1(4) by simp
  have kept: "table_block u v" if "table_block s v" for v
    using that marks unfolding table_block_def Eu by blast
  have "table_block u (block_addr m)"
    unfolding table_block_def Eu using m marks by blast
  moreover have fresh: "\<forall>(js, v) \<in> nodes (tables s) root. v \<noteq> block_addr m"
    using D(6) m(2,5) pmm_sound_small [OF D(1)] by (fastforce simp: table_block_def block_addr_inj)
  ultimately have "vmm_sound root u"
    using D(1-3,5) D(6) [THEN kept] links_separate [OF L D(4) _ fresh] block_addr_aligned [of m] m(5)
    by (auto simp: vmm_sound_def Eu free links_nodes [OF L])
  then show ?thesis using call mo(2) L free by blast
qed

lemma use_table:
  assumes S: "vmm_sound root s" and t: "(is, t) \<in> nodes (tables s) root" "i < 512"
    and "present (tables s (t + 8 * i))"
  shows "get_lower_table (t + hhdmoffset s) i s = Inr (table_of (tables s (t + 8 * i)) + hhdmoffset s, s)"
proof -
  obtain b where b: "t = block_addr b" "b < nblocks s" "b < 2 ^ 31" using node_block [OF S t(1)] by metis
  then have "rd64 s (t + hhdmoffset s + 8 * i) = tables s (t + 8 * i)"
    using rd64_table [OF vmm_soundD(2) [OF S] b(2) _ t(2)] by simp
  then show ?thesis using assms(4) by (simp add: get_lower_table_def Let_def present_def table_of_def)
qed

lemma no_table:
  assumes S: "vmm_sound root s" and t: "(is, t) \<in> nodes (tables s) root" "i < 512"
    and "\<not> present (tables s (t + 8 * i))" "free_blocks s = {}"
  shows "\<exists>u. get_lower_table (t + hhdmoffset s) i s = Inl (Halted, u)"
proof -
  obtain b where b: "t = block_addr b" "b < nblocks s" "b < 2 ^ 31" using node_block [OF S t(1)] by metis
  then have "rd64 s (t + hhdmoffset s + 8 * i) = tables s (t + 8 * i)"
    using rd64_table [OF vmm_soundD(2) [OF S] b(2) _ t(2)] by simp
  then show ?thesis
    using assms(4) pmm_alloc_empty [OF assms(5)]
      log_panic_Inl [of "''PMM failed to allocate block for the vmm''" s, where 'a = kernel]
    by (auto simp: get_lower_table_def Let_def present_def cli_hlt_def)
qed

section \<open>All levels\<close>

fun descend :: "u64 list \<Rightarrow> u64 \<Rightarrow> kernel \<Rightarrow> failure + (u64 \<times> kernel)" where
  "descend [] p s = Inr (p, s)"
| "descend (i # is) p s =
     sbind (get_lower_table p i s) (\<lambda>(p, s). if p = 0 then Inr (0, s) else descend is p s)"

lemma get_pt_descend: "get_pt page_map va s = descend (table_path va) page_map s"
  by (auto simp: get_pt_def table_path_def Let_def sbind_def intro!: arg_cong2 [where f = case_sum]
      split: sum.split)

text \<open>Everything a call keeps of the leaves, and the number of blocks it takes.\<close>

definition same_leaves :: "u64 \<Rightarrow> kernel \<Rightarrow> kernel \<Rightarrow> bool" where
  "same_leaves root s u \<longleftrightarrow>
     (\<forall>js j. length js = 3 \<longrightarrow> set js \<subseteq> {..<512} \<longrightarrow> j < 512 \<longrightarrow>
        leaf (tables u) root js j = leaf (tables s) root js j)"

lemma same_leaves_refl: "same_leaves root s s"
  by (simp add: same_leaves_def)

lemma same_leaves_trans: "same_leaves root s t \<Longrightarrow> same_leaves root t u \<Longrightarrow> same_leaves root s u"
  by (simp add: same_leaves_def)

lemma missing_new:
  assumes "\<forall>j < 512. E (n + 8 * j) = 0" "set is \<subseteq> {..<512}"
  shows "missing E n is = length is"
  using assms by (cases "is") (auto simp: Let_def)

text \<open>The paths at which there is a table.\<close>

definition paths :: "u64 \<Rightarrow> kernel \<Rightarrow> u64 list set" where
  "paths root s = fst ` nodes (tables s) root"

lemma paths_iff: "js \<in> paths root s \<longleftrightarrow> length js \<le> 3 \<and> set js \<subseteq> {..<512} \<and> follow (tables s) root js \<noteq> None"
  by (force simp: paths_def nodes_def)

lemma paths_prefix: "js \<in> paths root s \<Longrightarrow> prefix ks js \<Longrightarrow> ks \<in> paths root s"
  by (auto simp: paths_iff prefix_def follow_append split: option.splits)

text \<open>New tables are made in blocks that were free.\<close>

definition new_tables :: "u64 \<Rightarrow> kernel \<Rightarrow> kernel \<Rightarrow> bool" where
  "new_tables root s u \<longleftrightarrow>
     (\<forall>n \<in> nodes (tables u) root. n \<in> nodes (tables s) root \<or> snd n \<in> block_addr ` free_blocks s)"

lemma new_tables_refl: "new_tables root s s"
  by (simp add: new_tables_def)

lemma new_tables_trans:
  "new_tables root s t \<Longrightarrow> free_blocks t \<subseteq> free_blocks s \<Longrightarrow> new_tables root t u \<Longrightarrow> new_tables root s u"
  unfolding new_tables_def by (meson image_mono subsetD)

lemma descend_ok:
  assumes "vmm_sound root s" "(js, t) \<in> nodes (tables s) root" "length js + length ps \<le> 3"
    and "set ps \<subseteq> {..<512}"
  shows "if card (free_blocks s) < missing (tables s) t ps
    then \<exists>u. descend ps (t + hhdmoffset s) s = Inl (Halted, u)
    else \<exists>p u. descend ps (t + hhdmoffset s) s = Inr (p + hhdmoffset s, u) \<and> vmm_sound root u \<and>
      mem_only s u \<and> follow (tables u) root (js @ ps) = Some p \<and> same_leaves root s u \<and>
      free_blocks u \<subseteq> free_blocks s \<and> new_tables root s u \<and>
      paths root u = paths root s \<union> set (prefixes (js @ ps)) \<and>
      card (free_blocks s) = card (free_blocks u) + missing (tables s) t ps"
  using assms
proof (induction ps arbitrary: s js t)
  case Nil
  then have "set (prefixes js) \<subseteq> paths root s"
    using paths_prefix [of js root s] by (auto simp: paths_iff nodes_def)
  then show ?case using Nil by (auto simp: nodes_def same_leaves_refl new_tables_refl)
next
  case (Cons i ps)
  note S = Cons.prems(1) and t = Cons.prems(2)
  have i: "i < 512" "set ps \<subseteq> {..<512}" and len: "length js \<le> 2" "length (js @ [i]) + length ps \<le> 3"
    using Cons.prems by auto
  have fo: "follow (tables s) root js = Some t" using t by (simp add: nodes_def)
  have null: "v + hhdmoffset s \<noteq> 0" if "vmm_sound root u" "mem_only s u" "(ks, v) \<in> nodes (tables u) root" for u ks v
  proof -
    note w = that
    obtain b where "v = block_addr b" "b \<noteq> 0" "b < nblocks u" "b < 2 ^ 31" using node_block [OF w(1,3)] by metis
    then show ?thesis
      using hhdm_not_null [OF vmm_soundD(2) [OF w(1)], of b v] block_bytes(2) [of b 0] env_mem_only(5) [OF w(2)]
      by simp
  qed
  show ?case
  proof (cases "present (tables s (t + 8 * i))")
    case True
    define v where "v = table_of (tables s (t + 8 * i))"
    have v: "(js @ [i], v) \<in> nodes (tables s) root"
      using fo True len i t by (auto simp: nodes_def follow_snoc v_def)
    have "get_lower_table (t + hhdmoffset s) i s = Inr (v + hhdmoffset s, s)"
      unfolding v_def by (rule use_table [OF S t i(1) True])
    then have go: "descend (i # ps) (t + hhdmoffset s) s = descend ps (v + hhdmoffset s) s"
      using null [OF S mem_only_refl v] by simp
    have ms: "missing (tables s) t (i # ps) = missing (tables s) v ps" by (simp add: True v_def)
    show ?thesis
      using Cons.IH [OF S v len(2) i(2)] by (simp only: go ms append_assoc append_Cons append_Nil)
  next
    case False
    then have miss: "missing (tables s) t (i # ps) = Suc (length ps)" by simp
    show ?thesis
    proof (cases "free_blocks s = {}")
      case True
      then show ?thesis using no_table [OF S t i(1) False True] miss by auto
    next
      case ne: False
      define m where "m = Min (free_blocks s)"
      obtain u where u: "get_lower_table (t + hhdmoffset s) i s = Inr (block_addr m + hhdmoffset s, u)"
        "mem_only s u" "links (tables s) (tables u) root js i (block_addr m)"
        "free_blocks u = free_blocks s - {m}" "vmm_sound root u"
        using make_table [OF S t len(1) i(1) False ne] unfolding m_def by blast
      have v: "(js @ [i], block_addr m) \<in> nodes (tables u) root" by (simp add: links_nodes [OF u(3)])
      have go: "descend (i # ps) (t + hhdmoffset s) s = descend ps (block_addr m + hhdmoffset u) u"
        using u(1) null [OF u(5,2) v] env_mem_only(5) [OF u(2)] by simp
      have card: "card (free_blocks s) = Suc (card (free_blocks u))"
        using ne u(4) card_Suc_Diff1 [of "free_blocks s" m] by (simp add: m_def del: card_Diff_insert card_Diff_singleton_if card_Diff_singleton)
      have m': "missing (tables u) (block_addr m) ps = length ps"
        using u(3) i(2) by (intro missing_new) (auto simp: links_def)
      have leaves: "same_leaves root s u"
        using links_leaf [OF u(3)] by (simp add: same_leaves_def)
      have less: "free_blocks w \<subseteq> free_blocks u \<Longrightarrow> free_blocks w \<subseteq> free_blocks s" for w
        unfolding u(4) by (rule subset_trans [OF _ Diff_subset])
      note keep = mem_only_trans [OF u(2)] same_leaves_trans [OF leaves] less
      note IH = Cons.IH [OF u(5) v len(2) i(2), unfolded m' append_assoc append_Cons append_Nil]
      show ?thesis
      proof (cases "card (free_blocks u) < length ps")
        case True
        then show ?thesis using IH unfolding go miss card by simp
      next
        case False
        then obtain p w where w: "descend ps (block_addr m + hhdmoffset u) u = Inr (p + hhdmoffset u, w)"
          "vmm_sound root w" "mem_only u w" "follow (tables w) root (js @ i # ps) = Some p"
          "same_leaves root u w" "free_blocks w \<subseteq> free_blocks u"
          "paths root w = paths root u \<union> set (prefixes (js @ i # ps))" "new_tables root u w"
          "card (free_blocks u) = card (free_blocks w) + length ps"
          using IH by auto
        have "card (free_blocks s) = card (free_blocks w) + Suc (length ps)" using w(9) card by simp
        moreover have "new_tables root s u"
          using links_nodes [OF u(3)] ne by (simp add: new_tables_def m_def)
        then have "new_tables root s w"
          by (rule new_tables_trans [OF _ less [OF order_refl] w(8)])
        moreover have "paths root w = paths root s \<union> set (prefixes (js @ i # ps))"
          using w(7) links_nodes [OF u(3)] by (auto simp: paths_def)
        ultimately show ?thesis
          unfolding go miss using w(1,2,4) keep(1) [OF w(3)] keep(2) [OF w(5)] keep(3) [OF w(6)]
            env_mem_only(5) [OF u(2)]
          by simp
      qed
    qed
  qed
qed

text \<open>With every table there, the descent only reads.\<close>

lemma node_not_null:
  assumes "vmm_sound root s" "(js, t) \<in> nodes (tables s) root"
  shows "t + hhdmoffset s \<noteq> 0"
proof -
  obtain b where "t = block_addr b" "b \<noteq> 0" "b < nblocks s" "b < 2 ^ 31" using node_block [OF assms] by metis
  then show ?thesis
    using hhdm_not_null [OF vmm_soundD(2) [OF assms(1)], of b t] block_bytes(2) [of b 0] by simp
qed

lemma descend_mapped:
  assumes "vmm_sound root s"
  shows "(js, t) \<in> nodes (tables s) root \<Longrightarrow> length js + length ps \<le> 3 \<Longrightarrow> set ps \<subseteq> {..<512} \<Longrightarrow>
    follow (tables s) t ps = Some p \<Longrightarrow> descend ps (t + hhdmoffset s) s = Inr (p + hhdmoffset s, s)"
proof (induction ps arbitrary: js t)
  case (Cons i ps)
  have pr: "present (tables s (t + 8 * i))" "follow (tables s) (table_of (tables s (t + 8 * i))) ps = Some p"
    using Cons.prems(4) by (auto simp: Let_def split: if_splits)
  then have v: "(js @ [i], table_of (tables s (t + 8 * i))) \<in> nodes (tables s) root"
    using Cons.prems(1-3) by (auto simp: nodes_def follow_snoc)
  then show ?case
    using Cons.IH [OF v] Cons.prems(1-3) pr use_table [OF assms Cons.prems(1) _ pr(1)] node_not_null [OF assms v]
    by simp
qed simp

section \<open>Mapping and unmapping a page\<close>

lemma emit_frame:
  "phys (emit e s) = phys s" "vm (emit e s) = vm s" "hhdmoffset (emit e s) = hhdmoffset s"
  "pmm_bitmap (emit e s) = pmm_bitmap s" "pmm_block_count (emit e s) = pmm_block_count s"
  by (simp_all add: emit_def)

lemma emit_vmm:
  "tables (emit e s) = tables s" "free_blocks (emit e s) = free_blocks s"
  "vmm_sound root (emit e s) = vmm_sound root s"
  by (simp_all add: tables_def free_blocks_def used_def rd8_def nblocks_def vmm_sound_def pmm_sound_def
      bitmap_wf_def hhdm_linear_def clear_block_def bitmap_bytes_def table_block_def emit_frame)

text \<open>A write to the leaf entry found by the descent.\<close>

lemma leaf_set:
  fixes e :: u64
  assumes S: "vmm_sound root s" and p: "follow (tables s) root (table_path va) = Some p"
  defines "u \<equiv> wr64 (p + hhdmoffset s + 8 * page_index va) e s"
  shows "vmm_sound root u" "mem_only s u" "free_blocks u = free_blocks s"
    and "entry_of (tables u) root vb = (if same_page va vb then e else entry_of (tables s) root vb)"
    and "nodes (tables u) root = nodes (tables s) root"
proof -
  note D = vmm_soundD [OF S]
  have pn: "(table_path va, p) \<in> nodes (tables s) root"
    using p table_path_small by (simp add: nodes_def)
  obtain b where b: "p = block_addr b" "b < nblocks s" "b < 2 ^ 31" "clear_block s b"
    using node_block [OF S pn] by metis
  show mo: "mem_only s u" unfolding u_def by (rule mem_only_wr64)
  have pu: "phys u = st64 (p + 8 * page_index va) e (phys s)"
    unfolding u_def b(1) by (rule wr64_table) (use D(2) b page_index_small in auto)
  have spare: "phys u x = phys s x" if "x \<in> bitmap_bytes (nblocks s) s" for x
    using that b(3,4) word_bytes_in_block [of x b "page_index va"] page_index_small
    by (auto simp: pu st64_def b(1) clear_block_def)
  have tu: "tables u = ld64 (st64 (p + 8 * page_index va) e (phys s))" by (simp add: tables_def pu)
  note set_leaf = phys_mem.leaf_store [OF D(4) [unfolded tables_def] pn [unfolded tables_def]
      table_path_small(2) page_index_small]
  show nodes: "nodes (tables u) root = nodes (tables s) root"
    unfolding tu tables_def [of s] by (rule set_leaf(2)) (use table_path_small page_index_small in auto)
  show "entry_of (tables u) root vb = (if same_page va vb then e else entry_of (tables s) root vb)"
    unfolding entry_of_def tu same_page_path
    by (subst set_leaf(1)) (use table_path_small page_index_small in \<open>auto simp: tables_def\<close>)
  show "free_blocks u = free_blocks s" by (rule marks_kept(2) [OF mo spare])
  show "vmm_sound root u"
    by (rule vmm_sound_write [OF S mo spare]) (use D(4,6) in \<open>auto simp: separate_def nodes\<close>)
qed

lemma same_leaves_entry: "same_leaves root s u \<Longrightarrow> entry_of (tables u) root va = entry_of (tables s) root va"
  using table_path_small page_index_small by (simp add: same_leaves_def entry_of_def)

definition tables_needed :: "u64 \<Rightarrow> kernel \<Rightarrow> u64 \<Rightarrow> nat" where
  "tables_needed root s va = missing (tables s) root (table_path va)"

text \<open>The tables needed are the prefixes of the path at which there is none.\<close>

lemma missing_card: "missing E t ps = card (set (prefixes ps) - {qs. follow E t qs \<noteq> None})"
proof (induction ps arbitrary: t)
  case (Cons i ps)
  have p: "set (prefixes (i # ps)) = insert [] (Cons i ` set (prefixes ps))" by simp
  show ?case
  proof (cases "present (E (t + 8 * i))")
    case True
    have "set (prefixes (i # ps)) - {qs. follow E t qs \<noteq> None} =
        Cons i ` (set (prefixes ps) - {qs. follow E (table_of (E (t + 8 * i))) qs \<noteq> None})"
      unfolding p using True by auto
    then show ?thesis using Cons.IH True by (simp add: card_image)
  next
    case False
    then have "set (prefixes (i # ps)) - {qs. follow E t qs \<noteq> None} = Cons i ` set (prefixes ps)"
      unfolding p by auto
    then show ?thesis using False by (simp add: card_image distinct_card)
  qed
qed simp

lemma tables_needed_card: "tables_needed root s va = card (set (prefixes (table_path va)) - paths root s)"
proof -
  have "qs \<in> paths root s \<longleftrightarrow> follow (tables s) root qs \<noteq> None" if "qs \<in> set (prefixes (table_path va))" for qs
    using that table_path_small [of va] by (auto simp: paths_iff prefix_def)
  then have "set (prefixes (table_path va)) - paths root s =
      set (prefixes (table_path va)) - {qs. follow (tables s) root qs \<noteq> None}" by blast
  then show ?thesis by (simp add: tables_needed_def missing_card)
qed

lemma get_pt_ok:
  assumes "vmm_sound root s"
  shows "if card (free_blocks s) < tables_needed root s va
    then \<exists>u. get_pt (root + hhdmoffset s) va s = Inl (Halted, u)
    else \<exists>p u. get_pt (root + hhdmoffset s) va s = Inr (p + hhdmoffset s, u) \<and> p + hhdmoffset s \<noteq> 0 \<and>
      vmm_sound root u \<and> mem_only s u \<and> follow (tables u) root (table_path va) = Some p \<and>
      same_leaves root s u \<and> free_blocks u \<subseteq> free_blocks s \<and> new_tables root s u \<and>
      paths root u = paths root s \<union> set (prefixes (table_path va)) \<and>
      card (free_blocks s) = card (free_blocks u) + tables_needed root s va"
proof -
  have nz: "p + hhdmoffset s \<noteq> 0"
    if u: "vmm_sound root u" "mem_only s u" "follow (tables u) root (table_path va) = Some p" for p u
  proof -
    have "(table_path va, p) \<in> nodes (tables u) root" using u(3) table_path_small by (simp add: nodes_def)
    then obtain b where "p = block_addr b" "b \<noteq> 0" "b < nblocks u" "b < 2 ^ 31"
      using node_block [OF u(1)] by metis
    then show ?thesis
      using hhdm_not_null [OF vmm_soundD(2) [OF u(1)], of b p] block_bytes(2) [of b 0] env_mem_only(5) [OF u(2)]
      by simp
  qed
  show ?thesis
    using descend_ok [OF assms nodes_root, of "table_path va"] table_path_small nz
    unfolding get_pt_descend tables_needed_def by (auto split: if_splits)
qed

text \<open>A call changes memory and reloads \<open>cr3\<close>, nothing else.\<close>

definition vmm_frame :: "kernel \<Rightarrow> kernel \<Rightarrow> bool" where
  "vmm_frame s u \<longleftrightarrow> (\<exists>m es. u = s\<lparr>phys := m, io := es\<rparr>)"

lemma vmm_frame_I: "u = s\<lparr>phys := m, io := es\<rparr> \<Longrightarrow> vmm_frame s u"
  unfolding vmm_frame_def by blast

lemma vmm_frame_trans: "vmm_frame s t \<Longrightarrow> vmm_frame t u \<Longrightarrow> vmm_frame s u"
proof -
  assume "vmm_frame s t" "vmm_frame t u"
  then obtain m es m' es' where "t = s\<lparr>phys := m, io := es\<rparr>" "u = t\<lparr>phys := m', io := es'\<rparr>"
    by (auto simp: vmm_frame_def)
  then show ?thesis by (intro vmm_frame_I [where m = m' and es = es']) simp
qed

lemma vmm_frame_fields:
  assumes "vmm_frame s u"
  shows "vm u = vm s" "hhdmoffset u = hhdmoffset s" "pmm_bitmap u = pmm_bitmap s"
    "pmm_block_count u = pmm_block_count s" "memmap u = memmap s" "pml4addr u = pml4addr s"
    "boot u = boot s" "lapic_addr u = lapic_addr s" "pmm_usable_addr u = pmm_usable_addr s"
    "console u = console s" "cr3 u = cr3 s" "nblocks u = nblocks s"
  using assms by (auto simp: vmm_frame_def nblocks_def)

lemma vmm_frame_mem_only: "mem_only s u \<Longrightarrow> vmm_frame s u"
  by (rule vmm_frame_I [where m = "phys u" and es = "io s"]) (subst mem_only_def [THEN iffD1], assumption, simp)

lemma vmm_frame_refl: "vmm_frame s s"
  by (simp add: vmm_frame_mem_only)

lemma vmm_frame_reload: "vmm_frame s u \<Longrightarrow> vmm_frame s (reload_cr3 u)"
proof -
  assume "vmm_frame s u"
  then obtain m es where "u = s\<lparr>phys := m, io := es\<rparr>" by (auto simp: vmm_frame_def)
  then show ?thesis by (intro vmm_frame_I [where m = m and es = "es @ [LoadCr3 (cr3 s)]"]) (simp add: reload_cr3_def emit_def)
qed

text \<open>
  Mapping a page takes exactly the missing tables and sets exactly one entry, or panics when
  there are not enough free blocks.
\<close>

lemma map_page_ok:
  assumes "vmm_sound root s"
  shows "if card (free_blocks s) < tables_needed root s va
    then \<exists>u. vmm_map_page (root + hhdmoffset s) va pa flags s = Inl (Halted, u)
    else \<exists>u. vmm_map_page (root + hhdmoffset s) va pa flags s = Inr u \<and> vmm_sound root u \<and>
      (\<forall>vb. entry_of (tables u) root vb = (if same_page va vb then pa OR flags else entry_of (tables s) root vb)) \<and>
      free_blocks u \<subseteq> free_blocks s \<and> vmm_frame s u \<and> new_tables root s u \<and>
      paths root u = paths root s \<union> set (prefixes (table_path va)) \<and>
      card (free_blocks s) = card (free_blocks u) + tables_needed root s va"
proof (cases "card (free_blocks s) < tables_needed root s va")
  case True
  then show ?thesis using get_pt_ok [OF assms, of va] by (auto simp: vmm_map_page_def Let_def)
next
  case False
  then obtain p w where w: "get_pt (root + hhdmoffset s) va s = Inr (p + hhdmoffset s, w)"
    "p + hhdmoffset s \<noteq> 0" "vmm_sound root w" "mem_only s w"
    "follow (tables w) root (table_path va) = Some p" "same_leaves root s w"
    "free_blocks w \<subseteq> free_blocks s" "card (free_blocks s) = card (free_blocks w) + tables_needed root s va"
    "paths root w = paths root s \<union> set (prefixes (table_path va))" "new_tables root s w"
    using get_pt_ok [OF assms, of va] by auto
  have h: "hhdmoffset w = hhdmoffset s" using env_mem_only(5) [OF w(4)] .
  define u where "u = wr64 (p + hhdmoffset w + 8 * page_index va) (pa OR flags) w"
  note L = leaf_set [OF w(3,5), where e = "pa OR flags", folded u_def]
  have "vmm_map_page (root + hhdmoffset s) va pa flags s = Inr (reload_cr3 u)"
    using w(1,2) h by (simp add: vmm_map_page_def Let_def u_def page_index_def)
  moreover have "vmm_frame s (reload_cr3 u)"
    by (intro vmm_frame_reload vmm_frame_mem_only mem_only_trans [OF w(4) L(2)])
  ultimately show ?thesis
    using False L(1,3,4,5) same_leaves_entry [OF w(6)] w(7-10)
    by (simp add: reload_cr3_def emit_vmm paths_def new_tables_def)
qed

text \<open>Unmapping reads the entry, frees its block and clears the entry.\<close>

lemma free_page_calls:
  assumes S: "vmm_sound root s" and mapped: "follow (tables s) root (table_path va) = Some p"
  shows "vmm_free_page (root + hhdmoffset s) va s =
    sbind (pmm_free_block (table_of (entry_of (tables s) root va)) s)
      (\<lambda>u. Inr (reload_cr3 (wr64 (p + hhdmoffset s + 8 * page_index va) 0 u)))"
proof -
  have pn: "(table_path va, p) \<in> nodes (tables s) root" using mapped table_path_small by (simp add: nodes_def)
  have gp: "get_pt (root + hhdmoffset s) va s = Inr (p + hhdmoffset s, s)"
    unfolding get_pt_descend by (rule descend_mapped [OF S nodes_root _ _ mapped]) (use table_path_small in auto)
  obtain c where c: "p = block_addr c" "c < nblocks s" "c < 2 ^ 31" using node_block [OF S pn] by metis
  have "rd64 s (p + hhdmoffset s + 8 * page_index va) = entry_of (tables s) root va"
    using rd64_table [OF vmm_soundD(2) [OF S] c(2) _ page_index_small] c(3) mapped
    by (simp add: c(1) entry_of_def leaf_def)
  then show ?thesis by (simp add: vmm_free_page_def Let_def gp table_of_def flip: page_index_def)
qed

lemma free_page_block:
  assumes S: "vmm_sound root s" and mapped: "follow (tables s) root (table_path va) = Some p"
    and b: "unat (table_of (entry_of (tables s) root va)) div 4096 = b" "b < nblocks s"
  shows "\<exists>t. vmm_free_page (root + hhdmoffset s) va s = Inr t \<and> free_blocks t = insert b (free_blocks s)"
proof -
  note D = vmm_soundD [OF S]
  have pn: "(table_path va, p) \<in> nodes (tables s) root" using mapped table_path_small by (simp add: nodes_def)
  obtain c where c: "p = block_addr c" "c < nblocks s" "c < 2 ^ 31" "clear_block s c" using node_block [OF S pn] by metis
  obtain s1 where s1: "pmm_free_block (table_of (entry_of (tables s) root va)) s = Inr s1"
    "bitmap_only (nblocks s) s s1" "free_blocks s1 = insert b (free_blocks s)"
    using pmm_free_ok [OF D(1) b] by blast
  have mo: "mem_only s s1" using s1(2) by (simp add: bitmap_only_def)
  note E = env_mem_only [OF mo]
  define u where "u = wr64 (p + hhdmoffset s1 + 8 * page_index va) 0 s1"
  have "phys u = st64 (p + 8 * page_index va) 0 (phys s1)"
    unfolding u_def c(1) by (rule wr64_table) (use D(2) c E page_index_small in auto)
  then have "phys u x = phys s1 x" if "x \<in> bitmap_bytes (nblocks s1) s1" for x
    using that c(3,4) word_bytes_in_block [of x c "page_index va"] page_index_small
    by (auto simp: st64_def c(1) clear_block_def E)
  then have "free_blocks u = free_blocks s1"
    by (intro marks_kept(2)) (simp_all add: u_def mem_only_wr64)
  moreover have "vmm_free_page (root + hhdmoffset s) va s = Inr (reload_cr3 u)"
    using s1(1) E(5) by (simp add: free_page_calls [OF S mapped] u_def)
  ultimately show ?thesis using s1(3) by (simp add: reload_cr3_def emit_vmm)
qed

text \<open>Giving back a block that holds neither a table nor the bitmap keeps the tables sound.\<close>

lemma free_page_ok:
  assumes S: "vmm_sound root s" and mapped: "follow (tables s) root (table_path va) = Some p"
  defines "b \<equiv> unat (table_of (entry_of (tables s) root va)) div 4096"
  assumes b: "b < nblocks s" "b \<noteq> 0" "clear_block s b" "\<forall>(is, t) \<in> nodes (tables s) root. t \<noteq> block_addr b"
  shows "\<exists>u. vmm_free_page (root + hhdmoffset s) va s = Inr u \<and> vmm_sound root u \<and>
    (\<forall>vb. entry_of (tables u) root vb = (if same_page va vb then 0 else entry_of (tables s) root vb)) \<and>
    free_blocks u = insert b (free_blocks s) \<and> vmm_frame s u"
proof -
  note D = vmm_soundD [OF S]
  have pn: "(table_path va, p) \<in> nodes (tables s) root" using mapped table_path_small by (simp add: nodes_def)
  obtain s1 where s1: "pmm_free_block (table_of (entry_of (tables s) root va)) s = Inr s1"
    "bitmap_only (nblocks s) s s1" "\<forall>c < nblocks s. used s1 c \<longleftrightarrow> c \<noteq> b \<and> used s c"
    "free_blocks s1 = insert b (free_blocks s)"
    using pmm_free_ok [OF D(1) _ b(1)] b_def by blast
  have mo: "mem_only s s1" using s1(2) by (simp add: bitmap_only_def)
  note E = env_mem_only [OF mo]
  have same: "tables s1 (t + 8 * j) = tables s (t + 8 * j)" if "(is, t) \<in> nodes (tables s) root" "j < 512" for "is" t j
    by (rule tables_kept [OF S _ that]) (use s1(2) in \<open>auto simp: bitmap_only_def clear_block_def\<close>)
  then have agree: "agree_except (tables s) (tables s1) root (replicate 4 0) 0" by (auto simp: agree_except_def)
  have f: "follow (tables s1) root js = follow (tables s) root js"
    if "length js \<le> 3" "set js \<subseteq> {..<512}" for js
    using that by (intro follow_agree [OF agree]) (auto dest: prefix_length_le)
  then have n: "nodes (tables s1) root = nodes (tables s) root" by (auto simp: nodes_def)
  have ent: "entry_of (tables s1) root vb = entry_of (tables s) root vb" for vb
    using f [of "table_path vb"] table_path_small [of vb] same [of "table_path vb"] page_index_small
    by (auto simp: entry_of_def leaf_def nodes_def split: option.split)
  have "table_block s1 t" if w: "(is, t) \<in> nodes (tables s) root" for "is" t
  proof -
    obtain d where "t = block_addr d" "d \<noteq> 0" "d < nblocks s" "used s d" "clear_block s d"
      using node_block [OF S w] by metis
    moreover have "d \<noteq> b" using b(4) w calculation(1) by auto
    ultimately show ?thesis using s1(3) unfolding table_block_def E by blast
  qed
  then have S1: "vmm_sound root s1"
    using D b(2,3) s1(4) by (auto simp: vmm_sound_def E n separate_def)
  define u where "u = wr64 (p + hhdmoffset s1 + 8 * page_index va) 0 s1"
  have "follow (tables s1) root (table_path va) = Some p" using f table_path_small mapped by auto
  note L = leaf_set [OF S1 this, where e = 0, folded u_def]
  have "vmm_free_page (root + hhdmoffset s) va s = Inr (reload_cr3 u)"
    using s1(1) by (simp add: free_page_calls [OF S mapped] u_def E)
  moreover have "vmm_frame s (reload_cr3 u)"
    by (intro vmm_frame_reload vmm_frame_mem_only mem_only_trans [OF mo L(2)])
  ultimately show ?thesis
    using L(1,3,4) s1(4) ent by (simp add: reload_cr3_def emit_vmm)
qed

end
