(* ===== verification/Vmm_Init.thy ===== *)
theory Vmm_Init
  imports Vmm
begin

text \<open>
  \<open>vmm_init\<close> and \<open>vmm_set_ctx\<close> of \<open>kern/mm/vmm.c\<close>: the page tables the kernel builds at
  boot. Every loop of \<open>vmm_init\<close> is a list of requests to \<open>vmm_map_page\<close>; the lemmas give the
  entry of every page and the number of blocks taken after any list of requests.
\<close>

section \<open>The functions\<close>

definition ALIGN_UP :: "u64 \<Rightarrow> u64 \<Rightarrow> u64" where
  "ALIGN_UP x base = (x + base - 1) AND NOT (base - 1)"

definition ALIGN_DOWN :: "u64 \<Rightarrow> u64 \<Rightarrow> u64" where
  "ALIGN_DOWN x base = x AND NOT (base - 1)"

definition vmm_set_ctx :: "u64 \<Rightarrow> kernel \<Rightarrow> kernel" where
  "vmm_set_ctx page_map s =
     (let s = s\<lparr>cr3 := page_map - hhdmoffset s\<rparr> in emit (LoadCr3 (cr3 s)) s)"

text \<open>
  Up to the empty top-level table. \<open>kernel_page_map.pml4addr - hhdmoffset\<close> is arithmetic on a
  pointer to 8-byte words, so \<open>kernel_pml4addr\<close> loses eight times the offset; the line printed
  casts first.
\<close>

definition vmm_prepare :: "kernel \<Rightarrow> failure + kernel" where
  "vmm_prepare s =
     (case hhdm_response (boot s) of
        None \<Rightarrow> Inl (Null_deref, s)
      | Some offset \<Rightarrow>
          let s = s\<lparr>hhdmoffset := offset\<rparr>
          in sbind (if hhdmoffset s = 0 then log_panic ''HHDM offset not recieved'' s else Inr s) (\<lambda>s.
             sbind (if kernel_address_response (boot s) = None
                    then log_panic ''Kernel address not recieved'' s else Inr s) (\<lambda>s.
             sbind (pmm_alloc_block s) (\<lambda>(block, s).
             let s = s\<lparr>pml4addr := block\<rparr>
             in sbind (if pml4addr s = 0 then log_panic ''Allocating block for page map failed'' s
                       else Inr s) (\<lambda>s.
             let s = s\<lparr>pml4addr := pml4addr s + hhdmoffset s\<rparr>;
                 s = s\<lparr>kernel_pml4addr := pml4addr s - 8 * hhdmoffset s\<rparr>
             in sbind (printf ''vmm: address of page table: 0x{xn}'' [VWord (pml4addr s - hhdmoffset s)] s) (\<lambda>s.
             Inr (snd (memset (pml4addr s) 0 PAGE_SIZE s))))))))"

text \<open>\<open>base+j+hhdmoffset\<close> to \<open>base+j\<close> for every page of a memory-map entry.\<close>

definition map_entry_pages :: "u64 \<Rightarrow> limine_memmap_entry \<Rightarrow> kernel \<Rightarrow> (failure + kernel) option" where
  "map_entry_pages flags e s =
     for_u64 0 (me_length e) PAGE_SIZE (\<lambda>j s.
       vmm_map_page (pml4addr s) (me_base e + j + hhdmoffset s) (me_base e + j) flags s) s"

definition map_entry :: "limine_memmap_entry \<Rightarrow> kernel \<Rightarrow> (failure + kernel) option" where
  "map_entry e s =
     obind (if me_type e = LIMINE_MEMMAP_USABLE
            then map_entry_pages (PTE_BIT_PRESENT OR PTE_BIT_READ_WRITE) e s else Some (Inr s)) (\<lambda>s.
     obind (if me_type e = LIMINE_MEMMAP_FRAMEBUFFER
            then map_entry_pages (PTE_BIT_PRESENT OR PTE_BIT_READ_WRITE OR PTE_BIT_EXECUTE_DISABLE) e s
            else Some (Inr s)) (\<lambda>s.
     obind (if me_type e = LIMINE_MEMMAP_BOOTLOADER_RECLAIMABLE
            then map_entry_pages (PTE_BIT_PRESENT OR PTE_BIT_READ_WRITE) e s else Some (Inr s)) (\<lambda>s.
     if me_type e = LIMINE_MEMMAP_ACPI_RECLAIMABLE
     then map_entry_pages (PTE_BIT_PRESENT OR PTE_BIT_READ_WRITE) e s else Some (Inr s))))"

text \<open>One of the three loops over a section of the kernel's image.\<close>

definition map_section ::
  "u64 \<Rightarrow> u64 \<Rightarrow> u64 \<Rightarrow> limine_kernel_address_response \<Rightarrow> kernel \<Rightarrow> (failure + kernel) option" where
  "map_section section_start section_end flags kernel_address s =
     for_u64 section_start section_end PAGE_SIZE (\<lambda>addr s.
       vmm_map_page (pml4addr s) addr (addr - virtual_base kernel_address + physical_base kernel_address) flags s) s"

definition map_bitmap :: "kernel \<Rightarrow> (failure + kernel) option" where
  "map_bitmap s =
     for_u64 0 (pmm_block_count s div 8) 4096 (\<lambda>i s.
       vmm_map_page (pml4addr s) (pmm_usable_addr s + hhdmoffset s + i) (pmm_usable_addr s + i)
         (PTE_BIT_PRESENT OR PTE_BIT_READ_WRITE) s) s"

definition map_low :: "kernel \<Rightarrow> (failure + kernel) option" where
  "map_low s =
     for_u64 0x1000 0x100000000 PAGE_SIZE (\<lambda>base s.
       vmm_map_page (pml4addr s) base base
         (PTE_BIT_PRESENT OR PTE_BIT_READ_WRITE OR PTE_BIT_EXECUTE_DISABLE) s) s"

definition map_lapic :: "kernel \<Rightarrow> failure + kernel" where
  "map_lapic s =
     vmm_map_page (pml4addr s) (ALIGN_DOWN (ucast (lapic_addr s) + hhdmoffset s) PAGE_SIZE)
       (ALIGN_DOWN (ucast (lapic_addr s)) PAGE_SIZE) (PTE_BIT_PRESENT OR PTE_BIT_READ_WRITE) s"

definition vmm_init :: "kernel \<Rightarrow> (failure + kernel) option" where
  "vmm_init s =
     obind (Some (vmm_prepare s)) (\<lambda>s.
     (case kernel_address_response (boot s) of
        None \<Rightarrow> Some (Inl (Null_deref, s))
      | Some ka \<Rightarrow>
          let text_start = ALIGN_DOWN (text_start_addr (boot s)) PAGE_SIZE;
              rodata_start = ALIGN_DOWN (rodata_start_addr (boot s)) PAGE_SIZE;
              data_start = ALIGN_DOWN (data_start_addr (boot s)) PAGE_SIZE;
              text_end = ALIGN_UP (text_end_addr (boot s)) PAGE_SIZE;
              rodata_end = ALIGN_UP (rodata_end_addr (boot s)) PAGE_SIZE;
              data_end = ALIGN_UP (data_end_addr (boot s)) PAGE_SIZE
          in obind (map_bitmap s) (\<lambda>s.
             obind (foldO map_entry (memmap s) s) (\<lambda>s.
             obind (map_section text_start text_end PTE_BIT_PRESENT ka s) (\<lambda>s.
             obind (map_section rodata_start rodata_end (PTE_BIT_PRESENT OR PTE_BIT_EXECUTE_DISABLE) ka s) (\<lambda>s.
             obind (map_section data_start data_end
                      (PTE_BIT_PRESENT OR PTE_BIT_READ_WRITE OR PTE_BIT_EXECUTE_DISABLE) ka s) (\<lambda>s.
             obind (map_low s) (\<lambda>s.
             obind (Some (map_lapic s)) (\<lambda>s.
             Some (Inr (reload_cr3 (vmm_set_ctx (pml4addr s) s))))))))))))"

section \<open>Lists of requests\<close>

text \<open>A request is a virtual page, a physical page and flags.\<close>

type_synonym request = "u64 \<times> u64 \<times> u64"

definition map_request :: "request \<Rightarrow> kernel \<Rightarrow> failure + kernel" where
  "map_request = (\<lambda>(va, pa, flags) s. vmm_map_page (pml4addr s) va pa flags s)"

text \<open>The entry of a page after the requests: the last one for that page decides.\<close>

definition requested :: "request list \<Rightarrow> u64 \<Rightarrow> u64 \<Rightarrow> u64" where
  "requested rs vb e = fold (\<lambda>(va, pa, flags) e. if same_page va vb then pa OR flags else e) rs e"

definition request_paths :: "request list \<Rightarrow> u64 list set" where
  "request_paths rs = (\<Union>(va, pa, flags) \<in> set rs. set (prefixes (table_path va)))"

lemma requested_append: "requested (rs @ qs) vb e = requested qs vb (requested rs vb e)"
  by (simp add: requested_def)

lemma request_paths_append [simp]: "request_paths (rs @ qs) = request_paths rs \<union> request_paths qs"
  by (auto simp: request_paths_def)

lemma finite_request_paths: "finite (request_paths rs)"
  by (auto simp: request_paths_def)

lemma requests_ok:
  assumes "vmm_sound root s" "pml4addr s = root + hhdmoffset s"
  shows "if card (free_blocks s) < card (request_paths rs - paths root s)
    then \<exists>u. foldE map_request rs s = Inl (Halted, u)
    else \<exists>u. foldE map_request rs s = Inr u \<and> vmm_sound root u \<and> vmm_frame s u \<and>
      (\<forall>vb. entry_of (tables u) root vb = requested rs vb (entry_of (tables s) root vb)) \<and>
      free_blocks u \<subseteq> free_blocks s \<and> paths root u = paths root s \<union> request_paths rs \<and>
      card (free_blocks s) = card (free_blocks u) + card (request_paths rs - paths root s)"
  using assms
proof (induction rs arbitrary: s)
  case Nil
  then show ?case by (simp add: request_paths_def requested_def vmm_frame_refl)
next
  case (Cons r rs)
  obtain va pa fl where r: "r = (va, pa, fl)" by (cases r)
  define P where "P = set (prefixes (table_path va))"
  define K where "K = paths root s"
  have rp: "request_paths (r # rs) = P \<union> request_paths rs" by (simp add: request_paths_def r P_def)
  have fin: "finite P" "finite (request_paths rs)" by (simp_all add: P_def finite_request_paths)
  have "P \<union> request_paths rs - K = (P - K) \<union> (request_paths rs - (K \<union> P))" by auto
  moreover have "(P - K) \<inter> (request_paths rs - (K \<union> P)) = {}" by auto
  ultimately have split: "card (request_paths (r # rs) - K) = card (P - K) + card (request_paths rs - (K \<union> P))"
    unfolding rp using fin by (simp add: card_Un_disjoint)
  have need: "tables_needed root s va = card (P - K)" by (simp add: tables_needed_card P_def K_def)
  note step = map_page_ok [OF Cons.prems(1), of va pa fl, folded Cons.prems(2), unfolded need, folded P_def K_def]
  show ?case
  proof (cases "card (free_blocks s) < card (P - K)")
    case True
    then show ?thesis using step unfolding split K_def [symmetric] by (auto simp: map_request_def r)
  next
    case False
    then obtain u where u: "vmm_map_page (pml4addr s) va pa fl s = Inr u" "vmm_sound root u"
      "\<forall>vb. entry_of (tables u) root vb = (if same_page va vb then pa OR fl else entry_of (tables s) root vb)"
      "free_blocks u \<subseteq> free_blocks s" "vmm_frame s u" "paths root u = K \<union> P"
      "card (free_blocks s) = card (free_blocks u) + card (P - K)"
      using step by auto
    have go: "foldE map_request (r # rs) s = foldE map_request rs u" using u(1) by (simp add: map_request_def r)
    have pm: "pml4addr u = root + hhdmoffset u" using Cons.prems(2) vmm_frame_fields [OF u(5)] by simp
    note IH = Cons.IH [OF u(2) pm, unfolded u(6)]
    show ?thesis
    proof (cases "card (free_blocks u) < card (request_paths rs - (K \<union> P))")
      case True
      then show ?thesis using IH u(7) unfolding go split K_def [symmetric] by simp
    next
      case ok: False
      then obtain w where w: "foldE map_request rs u = Inr w" "vmm_sound root w" "vmm_frame u w"
        "\<forall>vb. entry_of (tables w) root vb = requested rs vb (entry_of (tables u) root vb)"
        "free_blocks w \<subseteq> free_blocks u" "paths root w = K \<union> P \<union> request_paths rs"
        "card (free_blocks u) = card (free_blocks w) + card (request_paths rs - (K \<union> P))"
        using IH by auto
      have "entry_of (tables w) root vb = requested (r # rs) vb (entry_of (tables s) root vb)" for vb
        using w(4) u(3) by (simp add: requested_def r)
      moreover have "paths root w = K \<union> request_paths (r # rs)" using w(6) rp by auto
      ultimately show ?thesis
        using ok u(4,7) w(1,2,5,7) vmm_frame_trans [OF u(5) w(3)] unfolding go split K_def [symmetric] by auto
    qed
  qed
qed

section \<open>The loops as requests\<close>

text \<open>A call that returns has changed memory and reloaded \<open>cr3\<close>, nothing else.\<close>

lemma mmap_set_mem_only: "mmap_set b s = Inr t \<Longrightarrow> mem_only s t"
  by (auto simp: mmap_set_def sbind_eq_Inr)

lemma pmm_alloc_mem_only: "pmm_alloc_block s = Inr (a, t) \<Longrightarrow> mem_only s t"
  by (auto simp: pmm_alloc_block_def Let_def sbind_eq_Inr split: if_splits dest: mmap_set_mem_only)

lemma get_lower_table_mem_only:
  assumes "get_lower_table p i s = Inr (q, t)"
  shows "mem_only s t"
proof (cases "rd64 s (p + 8 * i) AND PTE_BIT_PRESENT \<noteq> 0")
  case True
  then show ?thesis using assms by (simp add: get_lower_table_def Let_def)
next
  case False
  then obtain a s1 where a: "pmm_alloc_block s = Inr (a, s1)"
    "t = wr64 (p + 8 * i) (a OR PTE_BIT_PRESENT OR PTE_BIT_READ_WRITE OR PTE_BIT_ACCESS_ALL)
      (snd (memset (a + hhdmoffset s1) 0 PAGE_SIZE s1))"
    using assms by (auto simp: get_lower_table_def Let_def sbind_eq_Inr split: if_splits)
  have "mem_only s1 t"
    unfolding a(2) by (rule mem_only_trans [OF memset_mem_only mem_only_wr64])
  then show ?thesis by (rule mem_only_trans [OF pmm_alloc_mem_only [OF a(1)]])
qed

lemma get_pt_mem_only: "get_pt pm va s = Inr (pt, t) \<Longrightarrow> mem_only s t"
  by (auto simp: get_pt_def Let_def sbind_eq_Inr split: if_splits dest!: get_lower_table_mem_only
      intro: mem_only_trans)

lemma vmm_map_page_frame:
  assumes "vmm_map_page pm va pa fl s = Inr t"
  shows "vmm_frame s t"
proof -
  obtain pt w where w: "get_pt pm va s = Inr (pt, w)"
    "t = reload_cr3 (wr64 (pt + 8 * page_index va) (pa OR fl) w)"
    using assms by (auto simp: vmm_map_page_def Let_def sbind_eq_Inr page_index_def split: if_splits)
  show ?thesis
    unfolding w(2)
    by (rule vmm_frame_reload, rule vmm_frame_mem_only, rule mem_only_trans [OF get_pt_mem_only [OF w(1)] mem_only_wr64])
qed

lemma requests_frame: "foldE map_request rs s = Inr t \<Longrightarrow> vmm_frame s t"
  by (rule foldE_invariant [where P = "vmm_frame s"])
    (auto simp: map_request_def vmm_frame_refl split: prod.splits dest!: vmm_map_page_frame intro: vmm_frame_trans)

text \<open>A loop whose body maps a page that depends on the globals only.\<close>

lemma loop_requests:
  assumes "0 < st" "unat n + unat st \<le> 2 ^ 64"
    and "\<And>x w. vmm_frame s w \<Longrightarrow> body x w = map_request (f x) w" "vmm_frame s u"
  shows "for_u64 i n st body u = Some (foldE map_request (map f (steps i n st)) u)"
proof -
  have "foldE body (steps i n st) u = foldE (\<lambda>x. map_request (f x)) (steps i n st) u"
    by (rule foldE_cong_inv [where P = "vmm_frame s"])
      (use assms in \<open>auto simp: map_request_def split: prod.splits dest!: vmm_map_page_frame intro: vmm_frame_trans\<close>)
  then show ?thesis by (simp add: for_u64_foldE [OF assms(1,2)] foldE_map comp_def)
qed

definition bitmap_requests :: "kernel \<Rightarrow> request list" where
  "bitmap_requests s = map (\<lambda>i. (pmm_usable_addr s + hhdmoffset s + i, pmm_usable_addr s + i,
     PTE_BIT_PRESENT OR PTE_BIT_READ_WRITE)) (steps 0 (pmm_block_count s div 8) 4096)"

definition entry_flags :: "limine_memmap_entry \<Rightarrow> u64 option" where
  "entry_flags e =
     (if me_type e = LIMINE_MEMMAP_FRAMEBUFFER
      then Some (PTE_BIT_PRESENT OR PTE_BIT_READ_WRITE OR PTE_BIT_EXECUTE_DISABLE)
      else if me_type e \<in> {LIMINE_MEMMAP_USABLE, LIMINE_MEMMAP_BOOTLOADER_RECLAIMABLE,
        LIMINE_MEMMAP_ACPI_RECLAIMABLE}
      then Some (PTE_BIT_PRESENT OR PTE_BIT_READ_WRITE) else None)"

definition entry_requests :: "kernel \<Rightarrow> limine_memmap_entry \<Rightarrow> request list" where
  "entry_requests s e =
     (case entry_flags e of
        None \<Rightarrow> []
      | Some fl \<Rightarrow> map (\<lambda>j. (me_base e + j + hhdmoffset s, me_base e + j, fl)) (steps 0 (me_length e) 4096))"

definition section_requests :: "u64 \<Rightarrow> u64 \<Rightarrow> u64 \<Rightarrow> limine_kernel_address_response \<Rightarrow> request list" where
  "section_requests a b fl ka = map (\<lambda>x. (x, x - virtual_base ka + physical_base ka, fl)) (steps a b 4096)"

definition low_requests :: "request list" where
  "low_requests = map (\<lambda>x. (x, x, PTE_BIT_PRESENT OR PTE_BIT_READ_WRITE OR PTE_BIT_EXECUTE_DISABLE))
     (steps 0x1000 0x100000000 4096)"

definition lapic_request :: "kernel \<Rightarrow> request" where
  "lapic_request s = (ALIGN_DOWN (ucast (lapic_addr s) + hhdmoffset s) PAGE_SIZE,
     ALIGN_DOWN (ucast (lapic_addr s)) PAGE_SIZE, PTE_BIT_PRESENT OR PTE_BIT_READ_WRITE)"

lemma map_bitmap_requests:
  assumes "vmm_frame s u"
  shows "map_bitmap u = Some (foldE map_request (bitmap_requests s) u)"
  unfolding map_bitmap_def bitmap_requests_def vmm_frame_fields [OF assms]
proof (rule loop_requests [OF _ _ _ assms])
  show "unat (pmm_block_count s div 8) + unat (4096 :: u64) \<le> 2 ^ 64"
    using unat_u64_bound [of "pmm_block_count s"] by (simp add: unat_div del: unat_u64_bound)
  fix x w
  assume "vmm_frame s w"
  then show "vmm_map_page (pml4addr w) (pmm_usable_addr w + hhdmoffset w + x) (pmm_usable_addr w + x)
      (PTE_BIT_PRESENT OR PTE_BIT_READ_WRITE) w =
    map_request (pmm_usable_addr s + hhdmoffset s + x, pmm_usable_addr s + x, PTE_BIT_PRESENT OR PTE_BIT_READ_WRITE) w"
    using vmm_frame_fields [of s w] by (simp add: map_request_def)
qed simp

lemma map_entry_pages_requests:
  assumes "vmm_frame s u" "unat (me_length e) + 4096 \<le> 2 ^ 64"
  shows "map_entry_pages fl e u = Some (foldE map_request
    (map (\<lambda>j. (me_base e + j + hhdmoffset s, me_base e + j, fl)) (steps 0 (me_length e) 4096)) u)"
  unfolding map_entry_pages_def PAGE_SIZE_def
proof (rule loop_requests [OF _ _ _ assms(1)])
  show "unat (me_length e) + unat (4096 :: u64) \<le> 2 ^ 64" using assms(2) by simp
  fix x w
  assume "vmm_frame s w"
  then show "vmm_map_page (pml4addr w) (me_base e + x + hhdmoffset w) (me_base e + x) fl w =
    map_request (me_base e + x + hhdmoffset s, me_base e + x, fl) w"
    using vmm_frame_fields [of s w] by (simp add: map_request_def)
qed simp

lemma map_entry_requests:
  assumes "vmm_frame s u" "entry_flags e \<noteq> None \<Longrightarrow> unat (me_length e) + 4096 \<le> 2 ^ 64"
  shows "map_entry e u = Some (foldE map_request (entry_requests s e) u)"
proof -
  have "LIMINE_MEMMAP_USABLE \<noteq> LIMINE_MEMMAP_FRAMEBUFFER"
    "LIMINE_MEMMAP_USABLE \<noteq> LIMINE_MEMMAP_BOOTLOADER_RECLAIMABLE"
    "LIMINE_MEMMAP_USABLE \<noteq> LIMINE_MEMMAP_ACPI_RECLAIMABLE"
    "LIMINE_MEMMAP_FRAMEBUFFER \<noteq> LIMINE_MEMMAP_BOOTLOADER_RECLAIMABLE"
    "LIMINE_MEMMAP_FRAMEBUFFER \<noteq> LIMINE_MEMMAP_ACPI_RECLAIMABLE"
    "LIMINE_MEMMAP_BOOTLOADER_RECLAIMABLE \<noteq> LIMINE_MEMMAP_ACPI_RECLAIMABLE"
    by (simp_all add: LIMINE_MEMMAP_USABLE_def LIMINE_MEMMAP_FRAMEBUFFER_def
        LIMINE_MEMMAP_BOOTLOADER_RECLAIMABLE_def LIMINE_MEMMAP_ACPI_RECLAIMABLE_def)
  then show ?thesis
    using assms(2) map_entry_pages_requests [OF assms(1)]
    by (auto simp: map_entry_def entry_requests_def entry_flags_def obind_sbind [where f = Inr])
qed

lemma map_section_requests:
  assumes "vmm_frame s u" "unat b + 4096 \<le> 2 ^ 64"
  shows "map_section a b fl ka u = Some (foldE map_request (section_requests a b fl ka) u)"
  unfolding map_section_def section_requests_def PAGE_SIZE_def
  by (rule loop_requests [OF _ _ _ assms(1)]) (use assms(2) in \<open>simp_all add: map_request_def\<close>)

lemma map_low_requests:
  assumes "vmm_frame s u"
  shows "map_low u = Some (foldE map_request low_requests u)"
  unfolding map_low_def low_requests_def PAGE_SIZE_def
  by (rule loop_requests [OF _ _ _ assms]) (simp_all add: map_request_def)

lemma map_lapic_requests:
  assumes "vmm_frame s u"
  shows "map_lapic u = foldE map_request [lapic_request s] u"
  using vmm_frame_fields [OF assms] by (simp add: map_lapic_def lapic_request_def map_request_def)

text \<open>Running the requests, then the rest of \<open>vmm_init\<close>.\<close>

definition run_requests :: "request list \<Rightarrow> kernel \<Rightarrow> (failure + kernel) option" where
  "run_requests rs s =
     Some (sbind (foldE map_request rs s) (\<lambda>u. Inr (reload_cr3 (vmm_set_ctx (pml4addr u) u))))"

lemma run_requests_more:
  assumes "g u = Some (foldE map_request rs u)" "vmm_frame s u"
    and "\<And>w. vmm_frame s w \<Longrightarrow> k w = run_requests qs w"
  shows "obind (g u) k = run_requests (rs @ qs) u"
proof (cases "foldE map_request rs u")
  case (Inl e)
  then show ?thesis using assms(1) by (simp add: run_requests_def foldE_append)
next
  case (Inr w)
  then have "vmm_frame s w" using vmm_frame_trans [OF assms(2) requests_frame] by blast
  then show ?thesis using assms(1,3) Inr by (simp add: run_requests_def foldE_append)
qed

lemma entries_requests:
  assumes "\<forall>e \<in> set es. entry_flags e \<noteq> None \<longrightarrow> unat (me_length e) + 4096 \<le> 2 ^ 64"
  shows "vmm_frame s u \<Longrightarrow> foldO map_entry es u = Some (foldE map_request (concat (map (entry_requests s) es)) u)"
  using assms
proof (induction es arbitrary: u)
  case (Cons e es)
  have e: "map_entry e u = Some (foldE map_request (entry_requests s e) u)"
    using Cons.prems by (intro map_entry_requests) auto
  show ?case
  proof (cases "foldE map_request (entry_requests s e) u")
    case (Inl f)
    then show ?thesis using e by (simp add: foldE_append)
  next
    case (Inr w)
    then have "vmm_frame s w" using vmm_frame_trans [OF Cons.prems(1) requests_frame] by blast
    then show ?thesis using Cons.IH [of w] Cons.prems(2) e Inr by (simp add: foldE_append)
  qed
qed simp

definition boot_requests :: "limine_kernel_address_response \<Rightarrow> kernel \<Rightarrow> request list" where
  "boot_requests ka s =
     bitmap_requests s @ concat (map (entry_requests s) (memmap s)) @
     section_requests (ALIGN_DOWN (text_start_addr (boot s)) PAGE_SIZE) (ALIGN_UP (text_end_addr (boot s)) PAGE_SIZE)
       PTE_BIT_PRESENT ka @
     section_requests (ALIGN_DOWN (rodata_start_addr (boot s)) PAGE_SIZE) (ALIGN_UP (rodata_end_addr (boot s)) PAGE_SIZE)
       (PTE_BIT_PRESENT OR PTE_BIT_EXECUTE_DISABLE) ka @
     section_requests (ALIGN_DOWN (data_start_addr (boot s)) PAGE_SIZE) (ALIGN_UP (data_end_addr (boot s)) PAGE_SIZE)
       (PTE_BIT_PRESENT OR PTE_BIT_READ_WRITE OR PTE_BIT_EXECUTE_DISABLE) ka @
     low_requests @ [lapic_request s]"

text \<open>No loop counter of \<open>vmm_init\<close> wraps around.\<close>

definition image_fits :: "kernel \<Rightarrow> bool" where
  "image_fits s \<longleftrightarrow>
     (\<forall>e \<in> set (memmap s). entry_flags e \<noteq> None \<longrightarrow> unat (me_length e) + 4096 \<le> 2 ^ 64) \<and>
     unat (ALIGN_UP (text_end_addr (boot s)) PAGE_SIZE) + 4096 \<le> 2 ^ 64 \<and>
     unat (ALIGN_UP (rodata_end_addr (boot s)) PAGE_SIZE) + 4096 \<le> 2 ^ 64 \<and>
     unat (ALIGN_UP (data_end_addr (boot s)) PAGE_SIZE) + 4096 \<le> 2 ^ 64"

lemma vmm_init_requests:
  assumes "vmm_prepare s = Inr u" "kernel_address_response (boot u) = Some ka" "image_fits u"
  shows "vmm_init s = run_requests (boot_requests ka u) u"
proof -
  have last: "obind (Some (map_lapic w)) (\<lambda>s. Some (Inr (reload_cr3 (vmm_set_ctx (pml4addr s) s)))) =
      run_requests [lapic_request u] w" if "vmm_frame u w" for w
    by (simp add: map_lapic_requests [OF that] run_requests_def)
  have fits: "\<forall>e \<in> set (memmap u). entry_flags e \<noteq> None \<longrightarrow> unat (me_length e) + 4096 \<le> 2 ^ 64"
    "unat (ALIGN_UP (text_end_addr (boot u)) PAGE_SIZE) + 4096 \<le> 2 ^ 64"
    "unat (ALIGN_UP (rodata_end_addr (boot u)) PAGE_SIZE) + 4096 \<le> 2 ^ 64"
    "unat (ALIGN_UP (data_end_addr (boot u)) PAGE_SIZE) + 4096 \<le> 2 ^ 64"
    using assms(3) by (auto simp: image_fits_def)
  have entries: "foldO map_entry (memmap w) w = Some (foldE map_request (concat (map (entry_requests u) (memmap u))) w)"
    if "vmm_frame u w" for w using vmm_frame_fields [OF that] entries_requests [OF fits(1) that] by simp
  show ?thesis
    unfolding vmm_init_def assms(1) boot_requests_def
    by (simp only: obind_simps assms(2) option.case Let_def)
      (intro run_requests_more [OF _ vmm_frame_refl] run_requests_more [where s = u] last
        map_bitmap_requests map_section_requests map_low_requests fits
        entries vmm_frame_refl, assumption+)
qed

section \<open>The empty top-level table\<close>

text \<open>The allocator's view of a state.\<close>

lemma pmm_view:
  assumes "phys u = phys s" "vm u = vm s" "pmm_bitmap u = pmm_bitmap s" "pmm_block_count u = pmm_block_count s"
  shows "used u = used s" "nblocks u = nblocks s" "free_blocks u = free_blocks s" "pmm_sound u = pmm_sound s"
    "clear_block u = clear_block s" "bitmap_bytes n u = bitmap_bytes n s" "tables u = tables s"
  by (auto simp: used_def [abs_def] rd8_def nblocks_def free_blocks_def pmm_sound_def bitmap_wf_def clear_block_def [abs_def]
      bitmap_bytes_def tables_def assms)

text \<open>What \<open>vmm_init\<close> finds: a sound allocator and the direct map the boot loader made.\<close>

definition boot_pool :: "u64 \<Rightarrow> kernel \<Rightarrow> bool" where
  "boot_pool off s \<longleftrightarrow> pmm_sound s \<and> hhdm_linear (s\<lparr>hhdmoffset := off\<rparr>) \<and> 0 \<notin> free_blocks s \<and>
     (\<forall>b \<in> free_blocks s. clear_block s b)"

lemma fits_vmm: "fits ''vmm: address of page table: 0x{xn}'' [VWord a]"
  by (simp add: fits_simps)

lemma empty_root:
  assumes "\<forall>j < 512. E (root + 8 * j) = 0" "4096 dvd unat root"
  shows "nodes E root = {([], root)}" "separate E root" "entry_of E root vb = 0"
proof -
  have f: "follow E root ps = (if ps = [] then Some root else None)" if "set ps \<subseteq> {..<512}" for ps
    using that assms(1) by (cases ps) auto
  then show n: "nodes E root = {([], root)}" by (auto simp: nodes_def split: if_splits)
  then show "separate E root" using assms(2) by (simp add: separate_def)
  show "entry_of E root vb = 0"
    using f [of "table_path vb"] table_path_small [of vb] by (auto simp: entry_of_def leaf_def table_path_def)
qed

lemma zero_block:
  assumes "\<And>x. in_block b x \<Longrightarrow> phys u x = 0" "b < 2 ^ 52" "j < 512"
  shows "tables u (block_addr b + 8 * j) = 0"
proof -
  have "tables u (block_addr b + 8 * j) = ld64 (\<lambda>_. 0) (block_addr b + 8 * j)"
    unfolding tables_def using word_in_block [OF assms(3) _ assms(2)] assms(1) by (intro ld64_cong) auto
  then show ?thesis by (simp add: ld64_def word_rcat_def)
qed

text \<open>The fields written before the first page is mapped.\<close>

definition boot_frame :: "u64 \<Rightarrow> kernel \<Rightarrow> kernel \<Rightarrow> bool" where
  "boot_frame off s u \<longleftrightarrow>
     (\<exists>p c a k. u = s\<lparr>phys := p, console := c, hhdmoffset := off, pml4addr := a, kernel_pml4addr := k\<rparr>)"

definition boot_root :: "kernel \<Rightarrow> u64" where
  "boot_root s = block_addr (Min (free_blocks s))"

lemma prepare_ok:
  assumes resp: "hhdm_response (boot s) = Some off" "off \<noteq> 0" "kernel_address_response (boot s) = Some ka"
    and pool: "boot_pool off s"
  shows "if free_blocks s = {} then \<exists>u. vmm_prepare s = Inl (Halted, u)
    else \<exists>u. vmm_prepare s = Inr u \<and> vmm_sound (boot_root s) u \<and> pml4addr u = boot_root s + off \<and>
      hhdmoffset u = off \<and> kernel_pml4addr u = boot_root s + off - 8 * off \<and>
      free_blocks u = free_blocks s - {Min (free_blocks s)} \<and> paths (boot_root s) u = {[]} \<and>
      (\<forall>vb. entry_of (tables u) (boot_root s) vb = 0) \<and>
      boot_frame off s u"
proof -
  define s0 where "s0 = s\<lparr>hhdmoffset := off\<rparr>"
  define m where "m = Min (free_blocks s)"
  have "phys s0 = phys s" "vm s0 = vm s" "pmm_bitmap s0 = pmm_bitmap s" "pmm_block_count s0 = pmm_block_count s"
    by (simp_all add: s0_def)
  note V0 = pmm_view [OF this]
  have b0: "boot s0 = boot s" "hhdmoffset s0 = off" by (simp_all add: s0_def)
  have sound: "pmm_sound s0" using pool V0 by (simp add: boot_pool_def)
  show ?thesis
  proof (cases "free_blocks s = {}")
    case True
    then have "pmm_alloc_block s0 = Inr (0, s0)" using pmm_alloc_empty [of s0] V0 by simp
    moreover obtain v where "log_panic ''Allocating block for page map failed'' (s0\<lparr>pml4addr := 0\<rparr>) = (Inl (Halted, v) :: failure + kernel)"
      using log_panic_Inl [of "''Allocating block for page map failed''" "s0\<lparr>pml4addr := 0\<rparr>"]
      by (auto simp: cli_hlt_def)
    ultimately show ?thesis
      using True resp by (auto simp: vmm_prepare_def b0 simp flip: s0_def)
  next
    case False
    then have "m \<in> free_blocks s" by (simp add: m_def)
    then have m: "m < nblocks s" "\<not> used s m" "m \<noteq> 0" "clear_block s m" "m < 2 ^ 31"
      using pool pmm_sound_small [of s m] by (auto simp: boot_pool_def free_blocks_def intro: ccontr)
    obtain s1 where s1: "pmm_alloc_block s0 = Inr (block_addr m, s1)" "bitmap_only (nblocks s0) s0 s1"
      "\<forall>c < nblocks s0. used s1 c \<longleftrightarrow> c = m \<or> used s0 c" "free_blocks s1 = free_blocks s0 - {m}"
      using pmm_alloc_lowest [OF sound] False V0 unfolding m_def by auto
    have mo1: "mem_only s0 s1" using s1(2) by (simp add: bitmap_only_def)
    note E1 = env_mem_only [OF mo1]
    define cs where "cs = printed ''vmm: address of page table: 0x{xn}'' [VWord (block_addr m)]"
    define s3 where "s3 = s1\<lparr>pml4addr := block_addr m + off, kernel_pml4addr := block_addr m + off - 8 * off,
        console := console s1 @ cs\<rparr>"
    have "phys s3 = phys s1" "vm s3 = vm s1" "pmm_bitmap s3 = pmm_bitmap s1" "pmm_block_count s3 = pmm_block_count s1"
      by (simp_all add: s3_def)
    note V3 = pmm_view [OF this]
    have l3: "hhdm_linear s3" "hhdmoffset s3 = off"
      using pool E1 b0 by (simp_all add: boot_pool_def hhdm_linear_def s3_def nblocks_def s0_def)
    define u where "u = snd (memset (block_addr m + off) 0 PAGE_SIZE s3)"
    have mo: "mem_only s3 u" unfolding u_def by (rule memset_mem_only)
    note Eu = env_mem_only [OF mo]
    have a0: "block_addr m \<noteq> 0" using block_addr_inj [of m 0] m(3,5) by (simp add: block_addr_def)
    have init: "vmm_prepare s = Inr u"
      using resp s1(1) a0 E1(5) b0
      by (simp add: vmm_prepare_def b0 printf_fits fits_vmm flip: s0_def)
        (simp add: u_def s3_def cs_def)
    have nb: "nblocks u = nblocks s" "nblocks s1 = nblocks s" "clear_block u = clear_block s" "clear_block s3 = clear_block s"
      using Eu V3 E1 V0 by simp_all
    have pu: "phys u = (\<lambda>x. if in_block m x then 0 else phys s3 x)"
      unfolding u_def l3(2) [symmetric] by (rule memset_block) (use l3(1) m nb V3 in auto)
    have "\<forall>j < 512. tables u (block_addr m + 8 * j) = 0"
      using m(5) by (auto intro!: zero_block simp: pu)
    note R = empty_root [OF this block_addr_aligned]
    have "phys u x = phys s3 x" if "x \<in> bitmap_bytes (nblocks s3) s3" for x
    proof -
      have "x \<in> bitmap_bytes (nblocks s) s" using that V3 E1 V0 by simp
      then show ?thesis using m(4) by (auto simp: pu clear_block_def)
    qed
    note K = marks_kept [OF mo this]
    have free: "free_blocks u = free_blocks s - {m}" using K(2) V3 s1(4) V0 by simp
    have "used u m" using K(1) [of m] s1(3) m(1) V3 V0 nb by simp
    then have "table_block u (block_addr m)" unfolding table_block_def nb using m by blast
    then have "vmm_sound (block_addr m) u"
      using pool m(5) l3(1) Eu E1 V3 sound R by (auto simp: vmm_sound_def boot_pool_def nb free)
    moreover have "paths (block_addr m) u = {[]}" using R(1) m(5) by (simp add: paths_def)
    moreover have "boot_frame off s u"
    proof -
      obtain M M1 where "u = s3\<lparr>phys := M\<rparr>" "s1 = s0\<lparr>phys := M1\<rparr>"
        using mo mo1 unfolding mem_only_def by blast
      then have "u = s\<lparr>phys := M, console := console s1 @ cs, hhdmoffset := off, pml4addr := block_addr m + off,
          kernel_pml4addr := block_addr m + off - 8 * off\<rparr>" by (simp add: s3_def s0_def)
      then show ?thesis unfolding boot_frame_def by blast
    qed
    moreover have "pml4addr u = block_addr m + off" "hhdmoffset u = off" "kernel_pml4addr u = block_addr m + off - 8 * off"
    proof -
      obtain M where "u = s3\<lparr>phys := M\<rparr>" using mo unfolding mem_only_def by blast
      then show "pml4addr u = block_addr m + off" "hhdmoffset u = off" "kernel_pml4addr u = block_addr m + off - 8 * off"
        using l3(2) by (simp_all add: s3_def)
    qed
    ultimately show ?thesis
      using False init free R(3) m(5) unfolding boot_root_def m_def [symmetric] by simp
  qed
qed

section \<open>The page tables after \<open>vmm_init\<close>\<close>

text \<open>
  With enough free blocks for the tables of every page requested, \<open>vmm_init\<close> returns, and the
  entry of every page is the one of the last request for it.
\<close>

definition boot_tables :: "limine_kernel_address_response \<Rightarrow> kernel \<Rightarrow> u64 list set" where
  "boot_tables ka s = insert [] (request_paths (boot_requests ka s))"

lemma finite_boot_tables: "finite (boot_tables ka s)"
  by (simp add: boot_tables_def finite_request_paths)

lemma boot_requests_cong:
  assumes "boot_frame off s u"
  shows "boot_requests ka u = boot_requests ka (s\<lparr>hhdmoffset := off\<rparr>)" "image_fits u = image_fits s"
    "boot u = boot s" "vm u = vm s"
proof -
  obtain p c a k where u: "u = s\<lparr>phys := p, console := c, hhdmoffset := off, pml4addr := a, kernel_pml4addr := k\<rparr>"
    using assms by (auto simp: boot_frame_def)
  have "bitmap_requests u = bitmap_requests (s\<lparr>hhdmoffset := off\<rparr>)"
    "entry_requests u = entry_requests (s\<lparr>hhdmoffset := off\<rparr>)"
    "lapic_request u = lapic_request (s\<lparr>hhdmoffset := off\<rparr>)"
    by (auto simp: bitmap_requests_def entry_requests_def lapic_request_def u fun_eq_iff split: option.split)
  then show "boot_requests ka u = boot_requests ka (s\<lparr>hhdmoffset := off\<rparr>)"
    by (simp add: boot_requests_def u)
  show "image_fits u = image_fits s" "boot u = boot s" "vm u = vm s" by (simp_all add: image_fits_def u)
qed

definition vmm_init_frame :: "kernel \<Rightarrow> kernel \<Rightarrow> bool" where
  "vmm_init_frame s t \<longleftrightarrow>
     (\<exists>p i c h a k r. t = s\<lparr>phys := p, io := i, console := c, hhdmoffset := h, pml4addr := a, kernel_pml4addr := k, cr3 := r\<rparr>)"

lemma vmm_init_ok:
  assumes "hhdm_response (boot s) = Some off" "off \<noteq> 0" "kernel_address_response (boot s) = Some ka"
    and "boot_pool off s" "image_fits s"
  defines "rs \<equiv> boot_requests ka (s\<lparr>hhdmoffset := off\<rparr>)"
  defines "n \<equiv> card (insert [] (request_paths rs))"
  shows "if card (free_blocks s) < n then \<exists>u. vmm_init s = Some (Inl (Halted, u))
    else \<exists>t. vmm_init s = Some (Inr t) \<and> vmm_sound (boot_root s) t \<and> cr3 t = boot_root s \<and>
      (\<forall>vb. entry_of (tables t) (boot_root s) vb = requested rs vb 0) \<and>
      free_blocks t \<subseteq> free_blocks s \<and> card (free_blocks s) = card (free_blocks t) + n \<and> vm t = vm s \<and> vmm_init_frame s t"
proof (cases "free_blocks s = {}")
  case True
  then obtain u where "vmm_prepare s = Inl (Halted, u)" using prepare_ok [OF assms(1-4)] by auto
  moreover have "0 < n" by (simp add: n_def card_gt_0_iff finite_request_paths)
  ultimately show ?thesis using True by (auto simp: vmm_init_def)
next
  case False
  define root where "root = boot_root s"
  obtain u where u: "vmm_prepare s = Inr u" "vmm_sound root u" "pml4addr u = root + off" "hhdmoffset u = off"
    "free_blocks u = free_blocks s - {Min (free_blocks s)}" "paths root u = {[]}"
    "\<forall>vb. entry_of (tables u) root vb = 0"
    "boot_frame off s u"
    using prepare_ok [OF assms(1-4)] False unfolding root_def by auto
  note boot = boot_requests_cong(3,4) [OF u(8)]
  have rs: "boot_requests ka u = rs" "image_fits u"
    using boot_requests_cong(1,2) [OF u(8)] assms(5) by (simp_all add: rs_def)
  have run: "vmm_init s = run_requests rs u"
    using vmm_init_requests [OF u(1) _ rs(2), of ka] assms(3) boot rs(1) by simp
  have cf: "card (free_blocks s) = Suc (card (free_blocks u))"
    using False u(5) card_Suc_Diff1 [of "free_blocks s" "Min (free_blocks s)"] by simp
  have n: "n = Suc (card (request_paths rs - {[]}))"
    unfolding n_def by (subst card.insert_remove) (simp_all add: finite_request_paths)
  have "if card (free_blocks u) < card (request_paths rs - {[]})
    then \<exists>w. foldE map_request rs u = Inl (Halted, w)
    else \<exists>w. foldE map_request rs u = Inr w \<and> vmm_sound root w \<and> vmm_frame u w \<and>
      (\<forall>vb. entry_of (tables w) root vb = requested rs vb (entry_of (tables u) root vb)) \<and>
      free_blocks w \<subseteq> free_blocks u \<and> paths root w = {[]} \<union> request_paths rs \<and>
      card (free_blocks u) = card (free_blocks w) + card (request_paths rs - {[]})"
    using requests_ok [OF u(2), of rs, unfolded u(6)] u(3,4) by simp
  note R = this
  show ?thesis
  proof (cases "card (free_blocks u) < card (request_paths rs - {[]})")
    case True
    then obtain w where "foldE map_request rs u = Inl (Halted, w)" using R by auto
    then show ?thesis using True by (simp add: run run_requests_def cf n)
  next
    case ok: False
    then obtain w where w: "foldE map_request rs u = Inr w" "vmm_sound root w" "vmm_frame u w"
      "\<forall>vb. entry_of (tables w) root vb = requested rs vb (entry_of (tables u) root vb)"
      "free_blocks w \<subseteq> free_blocks u" "card (free_blocks u) = card (free_blocks w) + card (request_paths rs - {[]})"
      using R by auto
    define t where "t = reload_cr3 (vmm_set_ctx (pml4addr w) w)"
    note F = vmm_frame_fields [OF w(3)]
    have "cr3 t = root" using u(3,4) F by (simp add: t_def reload_cr3_def vmm_set_ctx_def emit_def)
    moreover have "vmm_sound root t = vmm_sound root w" "tables t = tables w" "free_blocks t = free_blocks w"
      by (simp_all add: t_def reload_cr3_def vmm_set_ctx_def emit_vmm) (simp_all add: tables_def free_blocks_def
        used_def rd8_def nblocks_def vmm_sound_def pmm_sound_def bitmap_wf_def hhdm_linear_def clear_block_def
        bitmap_bytes_def table_block_def)
    moreover have "vm t = vm s" using F(1) boot(2) by (simp add: t_def reload_cr3_def vmm_set_ctx_def emit_def)
    moreover have "vmm_init s = Some (Inr t)" by (simp add: run run_requests_def w(1) t_def)
    moreover have "vmm_init_frame s t"
    proof -
      obtain p c a k where f: "u = s\<lparr>phys := p, console := c, hhdmoffset := off, pml4addr := a, kernel_pml4addr := k\<rparr>"
        using u(8) by (auto simp: boot_frame_def)
      obtain m es where g: "w = u\<lparr>phys := m, io := es\<rparr>" using w(3) by (auto simp: vmm_frame_def)
      have "t = s\<lparr>phys := m, io := es @ [LoadCr3 (a - off), LoadCr3 (a - off)], console := c, hhdmoffset := off, pml4addr := a,
          kernel_pml4addr := k, cr3 := a - off\<rparr>"
        by (simp add: t_def g f reload_cr3_def vmm_set_ctx_def emit_def)
      then show ?thesis unfolding vmm_init_frame_def by blast
    qed
    ultimately show ?thesis using w(2,4,5,6) ok u(5,7) by (auto simp: cf n root_def)
  qed
qed

end
