(* ===== verification/Vmm_Properties.thy ===== *)
theory Vmm_Properties
  imports Vmm_Init
begin

text \<open>
  The properties of the page-table code (\<open>kern/mm/vmm.c\<close>): what the processor translates
  after a page is mapped or unmapped, how many blocks it costs, and what holds after the boot.
\<close>

section \<open>Lemmas\<close>

text \<open>A pool of sixteen blocks behind a direct map, root table in block 2, for closed examples.\<close>

definition HHDM :: u64 where "HHDM = 0xffff800000000000"

definition vmm_machine :: kernel where
  "vmm_machine = quiet_kernel\<lparr>phys := (\<lambda>_. 0)(0x1000 := 0x0f), vm := \<lambda>a. a - HHDM, hhdmoffset := HHDM,
     pmm_bitmap := HHDM + 0x1000, pmm_block_count := 16\<rparr>"

lemma ld64_zero: "(\<And>k. k < 8 \<Longrightarrow> m (a + of_nat k) = 0) \<Longrightarrow> ld64 m a = 0"
proof -
  assume "\<And>k. k < 8 \<Longrightarrow> m (a + of_nat k) = 0"
  then have "ld64 m a = ld64 (\<lambda>_. 0) a" by (intro ld64_cong) simp
  then show ?thesis by (simp add: ld64_def word_rcat_def)
qed

lemma vmm_machine_facts:
  "nblocks vmm_machine = 16" "free_blocks vmm_machine = {4..15}" "hhdmoffset vmm_machine = HHDM"
  "vmm_sound 0x2000 vmm_machine" "entry_of (tables vmm_machine) 0x2000 va = 0"
  "tables_needed 0x2000 vmm_machine va = 3" "nodes (tables vmm_machine) 0x2000 = {([], 0x2000)}"
proof -
  show n: "nblocks vmm_machine = 16" by (simp add: vmm_machine_def nblocks_def)
  show "hhdmoffset vmm_machine = HHDM" by (simp add: vmm_machine_def)
  have inj: "inj_on (\<lambda>k. (0x1000 :: u64) + of_nat k) {..<2}"
    by (intro inj_onI) (simp add: of_nat_inj_u64)
  then have sound: "pmm_sound vmm_machine"
    by (simp add: pmm_sound_def bitmap_wf_def n) (simp add: vmm_machine_def)
  have used: "used vmm_machine b \<longleftrightarrow> b < 4" if "b < 16" for b
  proof -
    have "(0x0f :: u8) = mask 4" by (simp add: mask_eq_exp_minus_1)
    then have "bit (0x0f :: u8) i \<longleftrightarrow> i < 4" for i by (simp only: bit_mask_iff) auto
    moreover have "(0x1000 :: u64) + of_nat (b div 8) = 0x1000 \<longleftrightarrow> b < 8"
      using of_nat_inj_u64 [of "b div 8" 0] that by auto
    ultimately show ?thesis
      using that by (auto simp: used_def rd8_def vmm_machine_def)
  qed
  then show free: "free_blocks vmm_machine = {4..15}" unfolding free_blocks_def n by force
  have bytes: "bitmap_bytes (nblocks vmm_machine) vmm_machine = {0x1000, 0x1001}"
    unfolding n by (auto simp: bitmap_bytes_def vmm_machine_def lessThan_nat_numeral lessThan_Suc)
  have clear: "clear_block vmm_machine b \<longleftrightarrow> b \<noteq> 1" for b
    unfolding clear_block_def bytes by (auto simp: in_block_def)
  have lin: "hhdm_linear vmm_machine" by (simp add: hhdm_linear_def n) (simp add: vmm_machine_def HHDM_def)
  have addr: "(0x2000 :: u64) = block_addr 2" by (simp add: block_addr_def BLOCK_SIZE_def)
  have "tables vmm_machine (block_addr 2 + 8 * j) = 0" if "j < 512" for j
    using that by (intro zero_block) (auto simp: vmm_machine_def in_block_def)
  then have zero: "\<forall>j < 512. tables vmm_machine (0x2000 + 8 * j) = 0" unfolding addr by blast
  have "table_block vmm_machine 0x2000"
    unfolding table_block_def addr using used [of 2] clear n by (intro exI [of _ 2]) simp
  moreover note R = empty_root [OF zero]
  ultimately show "vmm_sound 0x2000 vmm_machine"
    using sound lin by (auto simp: vmm_sound_def free clear)
  show "entry_of (tables vmm_machine) 0x2000 va = 0" "nodes (tables vmm_machine) 0x2000 = {([], 0x2000)}"
    using R by simp_all
  show "tables_needed 0x2000 vmm_machine va = 3"
    using zero table_path_small [of va] by (simp add: tables_needed_def table_path_def)
qed

text \<open>The translation through an entry made of a page-aligned address and flags.\<close>

definition page_flags :: "u64 \<Rightarrow> bool" where
  "page_flags flags \<longleftrightarrow> flags AND PTE_ADDRESS = 0 \<and> flags AND PTE_BIT_PRESENT \<noteq> 0"

definition page_frame :: "u64 \<Rightarrow> bool" where
  "page_frame pa \<longleftrightarrow> pa AND PTE_ADDRESS = pa"

lemma entry_parts:
  assumes "page_frame pa" "page_flags flags"
  shows "table_of (pa OR flags) = pa" "present (pa OR flags)"
proof -
  have a: "bit pa n \<Longrightarrow> 12 \<le> n \<and> n < 52" for n
    using assms(1) bit_PTE_ADDRESS [of n] unfolding page_frame_def by (metis bit_and_iff)
  have f: "\<not> bit flags n" if "12 \<le> n" "n < 52" for n
    using assms(2) bit_PTE_ADDRESS [of n] that unfolding page_flags_def by (metis bit_and_iff bit_0_eq bot_apply bot_bool_def)
  show "table_of (pa OR flags) = pa"
    using a f by (intro bit_word_eqI) (auto simp: bit_table_of bit_or_iff)
  show "present (pa OR flags)"
    using assms(2) by (simp add: present_bit bit_or_iff page_flags_def present_def [symmetric])
qed

text \<open>Requests for one page that all ask for an entry of a kind leave one of that kind.\<close>

lemma requested_in:
  assumes "\<And>va pa fl. (va, pa, fl) \<in> set rs \<Longrightarrow> same_page va vb \<Longrightarrow> pa OR fl \<in> S"
    and "e \<in> S \<or> (\<exists>(va, pa, fl) \<in> set rs. same_page va vb)"
  shows "requested rs vb e \<in> S"
  using assms
proof (induction rs arbitrary: e)
  case (Cons r rs)
  obtain va pa fl where r: "r = (va, pa, fl)" by (cases r)
  have "requested rs vb (if same_page va vb then pa OR fl else e) \<in> S"
    using Cons.prems by (intro Cons.IH) (auto simp: r)
  then show ?case by (simp add: requested_def r)
qed (simp add: requested_def)

lemma requested_none:
  "(\<And>va pa fl. (va, pa, fl) \<in> set rs \<Longrightarrow> \<not> same_page va vb) \<Longrightarrow> requested rs vb e = e"
proof (induction rs arbitrary: e)
  case (Cons r rs)
  obtain va pa fl where r: "r = (va, pa, fl)" by (cases r)
  then have "\<not> same_page va vb" using Cons.prems [of va pa fl] by simp
  moreover have "requested rs vb e = e" by (rule Cons.IH) (use Cons.prems in auto)
  ultimately show ?case by (simp add: requested_def r)
qed (simp add: requested_def)

lemma same_page_unat: "same_page a b \<longleftrightarrow> (unat a div 4096) mod 2 ^ 36 = (unat b div 4096) mod 2 ^ 36"
proof -
  have "unat (drop_bit 12 x AND mask 36) = (unat x div 4096) mod 2 ^ 36" for x :: u64
    by (simp add: unat_drop_bit_eq drop_bit_eq_div take_bit_eq_mod unat_mod unat_div flip: take_bit_eq_mask)
  then show ?thesis unfolding same_page_def by (metis word_unat_eq_iff)
qed

text \<open>Two addresses below \<open>2 ^ 47\<close> seen through the same page-aligned offset.\<close>

lemma same_page_offset:
  assumes "unat p < 2 ^ 47" "unat q < 2 ^ 47" "4096 dvd unat off" "unat off + 2 ^ 47 \<le> 2 ^ 64"
  shows "same_page (p + off) (q + off) \<longleftrightarrow> unat p div 4096 = unat q div 4096"
proof -
  obtain k where k: "unat off = 4096 * k" using assms(3) by blast
  have d: "unat (x + off) div 4096 = unat x div 4096 + k" if "unat x < 2 ^ 47" for x :: u64
  proof -
    have "unat (x + off) = unat x + unat off" using that assms(4) by (intro unat_add_no_wrap) linarith
    then show ?thesis using k by simp
  qed
  have l: "unat x div 4096 < 2 ^ 36" if "unat x < 2 ^ 47" for x :: u64 using that by simp
  have le: "m = n" if "m < 2 ^ 36" "n < 2 ^ 36" "m \<le> n" "(m + k) mod 2 ^ 36 = (n + k) mod 2 ^ 36" for m n :: nat
  proof -
    have "2 ^ 36 dvd (n + k) - (m + k)" using that(3,4) by (metis add_le_mono1 mod_eq_dvd_iff_nat)
    then show ?thesis using that(1-3) by (metis add_diff_cancel_right diff_is_0_eq dvd_imp_le le_antisym less_imp_diff_less not_gr_zero not_less)
  qed
  have "(m + k) mod 2 ^ 36 = (n + k) mod 2 ^ 36 \<longleftrightarrow> m = n" if "m < 2 ^ 36" "n < 2 ^ 36" for m n :: nat
    using le [OF that] le [OF that(2,1)] by (cases "m \<le> n") auto
  then show ?thesis using d l assms(1,2) unfolding same_page_unat by simp
qed

lemma same_page_low:
  assumes "unat p < 2 ^ 47" "unat q < 2 ^ 47"
  shows "same_page p q \<longleftrightarrow> unat p div 4096 = unat q div 4096"
  using same_page_offset [OF assms, of 0] by simp

text \<open>A page-aligned frame below \<open>2 ^ 52\<close>, with an offset in it.\<close>

lemma page_frame_of_nat: "k < 2 ^ 40 \<Longrightarrow> page_frame (block_addr k)"
proof -
  assume k: "k < 2 ^ 40"
  have "table_of (table_of e) = table_of e" for e by (intro bit_word_eqI) (auto simp: bit_table_of)
  then show ?thesis using link_entry(2) [OF k] by (metis page_frame_def table_of_def)
qed

lemma frame_and_offset: "unat x div 4096 = k \<Longrightarrow> block_addr k OR (x AND 0xfff) = x"
proof -
  assume k: "unat x div 4096 = k"
  have "unat (x div 4096) = k" using k by (simp add: unat_div)
  then have "(of_nat k :: u64) = x div 4096" by (intro word_unat_eq_iff [THEN iffD2]) (auto simp: unat_of_nat)
  then have "block_addr k = push_bit 12 (drop_bit 12 x)"
    by (simp add: block_addr_def BLOCK_SIZE_def push_bit_eq_mult drop_bit_eq_div)
  moreover have "(0xfff :: u64) = mask 12" by (simp add: mask_eq_exp_minus_1)
  then have b: "bit (0xfff :: u64) n \<longleftrightarrow> n < 12" for n by (simp only: bit_mask_iff) auto
  have "bit (push_bit 12 (drop_bit 12 x) OR (x AND 0xfff)) n = bit x n" for n
  proof (cases "12 \<le> n")
    case True
    then have "bit (push_bit 12 (drop_bit 12 x)) n \<longleftrightarrow> bit x n"
      by (auto simp: bit_push_bit_iff bit_drop_bit_eq dest: bit_imp_le_length)
    then show ?thesis using True b [of n] by (simp only: bit_or_iff bit_and_iff) auto
  next
    case False
    then have "\<not> bit (push_bit 12 (drop_bit 12 x)) n" by (auto simp: bit_push_bit_iff)
    then show ?thesis using False b [of n] by (simp only: bit_or_iff bit_and_iff) auto
  qed
  then have "push_bit 12 (drop_bit 12 x) OR (x AND 0xfff) = x" by (intro bit_word_eqI)
  then show ?thesis using calculation by (simp only:)
qed

lemma translate_kind:
  assumes "entry_of E root x \<in> {pa OR fl | fl. page_flags fl}" "pa = block_addr (unat x' div 4096)"
    "unat x' < 2 ^ 52" "x AND 0xfff = x' AND 0xfff"
  shows "translate E root x = Some x'"
proof -
  have "page_frame pa" using assms(2,3) page_frame_of_nat [of "unat x' div 4096"] by simp
  moreover obtain fl where fl: "entry_of E root x = pa OR fl" "page_flags fl" using assms(1) by blast
  ultimately show ?thesis
    using entry_parts frame_and_offset [of x'] assms(2,4) by (simp add: translate_def Let_def)
qed

lemma rw_flags:
  "page_flags (PTE_BIT_PRESENT OR PTE_BIT_READ_WRITE OR PTE_BIT_EXECUTE_DISABLE)"
  "page_flags (PTE_BIT_PRESENT OR PTE_BIT_READ_WRITE)"
  by code_simp+

text \<open>The low requests: one for every page from the second to the last below 4 GiB.\<close>

lemma low_request:
  assumes "(va, pa, fl) \<in> set low_requests"
  shows "\<exists>k. va = block_addr k \<and> pa = va \<and> 1 \<le> k \<and> k < 2 ^ 20 \<and>
    fl = (PTE_BIT_PRESENT OR PTE_BIT_READ_WRITE OR PTE_BIT_EXECUTE_DISABLE)"
proof -
  have "steps_count 0x1000 0x100000000 4096 = 2 ^ 20 - 1" by (simp add: steps_count_def)
  then obtain k where "k < 2 ^ 20 - 1" "va = 0x1000 + of_nat k * 4096" "pa = va"
    "fl = (PTE_BIT_PRESENT OR PTE_BIT_READ_WRITE OR PTE_BIT_EXECUTE_DISABLE)"
    using assms by (auto simp: low_requests_def steps_def)
  then show ?thesis by (intro exI [of _ "Suc k"]) (simp add: block_addr_def BLOCK_SIZE_def algebra_simps)
qed

lemma low_request_exists:
  assumes "1 \<le> k" "k < 2 ^ 20"
  shows "(block_addr k, block_addr k, PTE_BIT_PRESENT OR PTE_BIT_READ_WRITE OR PTE_BIT_EXECUTE_DISABLE) \<in> set low_requests"
proof -
  have "steps_count 0x1000 0x100000000 4096 = 2 ^ 20 - 1" by (simp add: steps_count_def)
  moreover have "block_addr k = 0x1000 + of_nat (k - 1) * 4096"
    using assms(1) by (simp add: block_addr_def BLOCK_SIZE_def of_nat_diff algebra_simps)
  moreover have "k - 1 \<in> set [0..<2 ^ 20 - 1]" using assms by simp
  ultimately have "block_addr k \<in> set (steps 0x1000 0x100000000 4096)"
    unfolding steps_def set_map by (simp only: image_eqI [of _ _ "k - 1"])
  then show ?thesis by (simp add: low_requests_def)
qed

lemma requested_low:
  assumes "0x1000 \<le> x" "x < 0x100000000"
  shows "requested low_requests x e \<in> {block_addr (unat x div 4096) OR fl | fl. page_flags fl}"
proof (rule requested_in)
  have u: "4096 \<le> unat x" "unat x < 2 ^ 32" using assms by (simp_all add: word_le_nat_alt word_less_nat_alt)
  have same: "same_page (block_addr k) x \<longleftrightarrow> k = unat x div 4096" if "k < 2 ^ 20" for k
    using same_page_low [of "block_addr k" x] that u(2) by (simp add: unat_block_addr)
  fix va pa fl
  assume "(va, pa, fl) \<in> set low_requests" "same_page va x"
  then show "pa OR fl \<in> {block_addr (unat x div 4096) OR fl | fl. page_flags fl}"
    using same low_request rw_flags by blast
next
  have u: "4096 \<le> unat x" "unat x < 2 ^ 32" using assms by (simp_all add: word_le_nat_alt word_less_nat_alt)
  then have k: "1 \<le> unat x div 4096" "unat x div 4096 < 2 ^ 20" by (simp_all add: less_eq_div_iff_mult_less_eq)
  have "same_page (block_addr (unat x div 4096)) x"
    using same_page_low [of "block_addr (unat x div 4096)" x] k(2) u(2) by (simp add: unat_block_addr)
  then show "e \<in> {block_addr (unat x div 4096) OR fl | fl. page_flags fl} \<or>
      (\<exists>(va, pa, fl) \<in> set low_requests. same_page va x)"
    using low_request_exists [OF k] by blast
qed

text \<open>What \<open>vmm_init\<close> finds at boot: the boot loader's answers and a sound allocator.\<close>

definition boots_with :: "u64 \<Rightarrow> limine_kernel_address_response \<Rightarrow> kernel \<Rightarrow> bool" where
  "boots_with off ka s \<longleftrightarrow> hhdm_response (boot s) = Some off \<and> off \<noteq> 0 \<and>
     kernel_address_response (boot s) = Some ka \<and> boot_pool off s \<and> image_fits s"

definition kernel_requests :: "u64 \<Rightarrow> limine_kernel_address_response \<Rightarrow> kernel \<Rightarrow> request list" where
  "kernel_requests off ka s = boot_requests ka (s\<lparr>hhdmoffset := off\<rparr>)"

lemma vmm_init_result:
  assumes "boots_with off ka s"
  defines "n \<equiv> card (insert [] (request_paths (kernel_requests off ka s)))"
  shows "card (free_blocks s) < n \<Longrightarrow> \<exists>u. vmm_init s = Some (Inl (Halted, u))"
    and "n \<le> card (free_blocks s) \<Longrightarrow> \<exists>t. vmm_init s = Some (Inr t)"
    and "vmm_init s = Some (Inr t) \<Longrightarrow> vmm_sound (cr3 t) t \<and> n \<le> card (free_blocks s) \<and>
      (\<forall>vb. entry_of (tables t) (cr3 t) vb = requested (kernel_requests off ka s) vb 0) \<and>
      card (free_blocks s) = card (free_blocks t) + n \<and> vm t = vm s \<and> vmm_init_frame s t"
  using vmm_init_ok [of s off ka] assms by (auto simp: boots_with_def kernel_requests_def split: if_splits)

text \<open>The requests for the direct map, made before those for the image and low memory.\<close>

definition direct_requests :: "u64 \<Rightarrow> kernel \<Rightarrow> request list" where
  "direct_requests off s =
     (let s = s\<lparr>hhdmoffset := off\<rparr> in bitmap_requests s @ concat (map (entry_requests s) (memmap s)))"

definition later_requests :: "u64 \<Rightarrow> limine_kernel_address_response \<Rightarrow> kernel \<Rightarrow> request list" where
  "later_requests off ka s = drop (length (direct_requests off s)) (kernel_requests off ka s)"

definition direct_map_ok :: "u64 \<Rightarrow> kernel \<Rightarrow> bool" where
  "direct_map_ok off s \<longleftrightarrow> 4096 dvd unat off \<and> unat off + 2 ^ 47 \<le> 2 ^ 64 \<and>
     4096 dvd unat (pmm_usable_addr s) \<and> unat (pmm_usable_addr s) + unat (pmm_block_count s div 8) \<le> 2 ^ 47 \<and>
     (\<forall>e \<in> set (memmap s). entry_flags e \<noteq> None \<longrightarrow>
        4096 dvd unat (me_base e) \<and> unat (me_base e) + unat (me_length e) \<le> 2 ^ 47)"

lemma direct_later: "kernel_requests off ka s = direct_requests off s @ later_requests off ka s"
  by (simp add: later_requests_def kernel_requests_def boot_requests_def direct_requests_def Let_def)

text \<open>
  A machine with 8192 blocks, the bitmap in block 1 and one usable page to map, for closed
  examples of the boot.
\<close>

definition boot_machine :: kernel where
  "boot_machine = quiet_kernel\<lparr>phys := (\<lambda>_. 0)(0x1000 := 0x03), vm := \<lambda>a. if a < HHDM then a else a - HHDM,
     pmm_bitmap := 0x1000, pmm_usable_addr := 0x1000, pmm_block_count := 8192,
     memmap := [\<lparr>me_base = 0x2000, me_length = 0x1000, me_type = 0\<rparr>],
     boot := no_boot\<lparr>hhdm_response := Some HHDM,
       kernel_address_response := Some \<lparr>physical_base = 0, virtual_base = 0\<rparr>\<rparr>\<rparr>"

abbreviation no_image :: limine_kernel_address_response where
  "no_image \<equiv> \<lparr>physical_base = 0, virtual_base = 0\<rparr>"

lemma vm_low: "unat a < 2 ^ 63 \<Longrightarrow> vm boot_machine a = a"
  by (simp add: boot_machine_def HHDM_def word_less_nat_alt)

lemma vm_high: "unat p < 2 ^ 32 \<Longrightarrow> vm boot_machine (p + HHDM) = p"
proof -
  assume p: "unat p < 2 ^ 32"
  then have "unat (p + HHDM) = unat p + unat HHDM" by (intro unat_add_no_wrap) (simp add: HHDM_def)
  then show ?thesis by (simp add: boot_machine_def word_less_nat_alt)
qed

lemma boot_machine_facts:
  "nblocks boot_machine = 8192" "free_blocks boot_machine = {2..8191}" "boots_with HHDM no_image boot_machine"
proof -
  show n: "nblocks boot_machine = 8192" by (simp add: boot_machine_def nblocks_def)
  have bm: "pmm_bitmap boot_machine = 0x1000" "phys boot_machine = (\<lambda>_. 0)(0x1000 := 0x03)" by (simp_all add: boot_machine_def)
  have byte: "unat ((0x1000 :: u64) + of_nat k) = 4096 + k" if "k < 2 ^ 20" for k
    using unat_add_of_nat [of "0x1000" k] that by simp
  have v: "vm boot_machine (0x1000 + of_nat k) = 0x1000 + of_nat k" if "k < 2 ^ 20" for k
    using byte that by (intro vm_low) simp
  have inj: "inj_on (\<lambda>k. vm boot_machine (0x1000 + of_nat k)) {..<1024}"
  proof (rule inj_onI)
    fix j k :: nat
    assume jk: "j \<in> {..<1024}" "k \<in> {..<1024}"
      and "vm boot_machine (0x1000 + of_nat j) = vm boot_machine (0x1000 + of_nat k)"
    then have "(0x1000 :: u64) + of_nat j = 0x1000 + of_nat k" using v by simp
    then show "j = k" using add_of_nat_inj [of j k] jk by simp
  qed
  then have sound: "pmm_sound boot_machine" by (simp add: pmm_sound_def bitmap_wf_def n bm)
  have used: "used boot_machine b \<longleftrightarrow> b < 2" if "b < 8192" for b
  proof -
    have "(0x03 :: u8) = mask 2" by (simp add: mask_eq_exp_minus_1)
    then have "bit (0x03 :: u8) i \<longleftrightarrow> i < 2" for i by (simp only: bit_mask_iff) auto
    moreover have "(0x1000 :: u64) + of_nat (b div 8) = 0x1000 \<longleftrightarrow> b < 8"
      using of_nat_inj_u64 [of "b div 8" 0] that by auto
    ultimately show ?thesis using that v [of "b div 8"] by (auto simp: used_def rd8_def bm)
  qed
  then show free: "free_blocks boot_machine = {2..8191}" unfolding free_blocks_def n by force
  have "in_block 1 x" if "x \<in> bitmap_bytes (nblocks boot_machine) boot_machine" for x
    using that v byte unfolding n bitmap_bytes_def bm by (auto simp: in_block_def)
  then have clear: "clear_block boot_machine b" if "b \<noteq> 1" for b
    using that by (force simp: clear_block_def in_block_def)
  have "hhdm_linear (boot_machine\<lparr>hhdmoffset := HHDM\<rparr>)"
    using vm_high by (simp add: hhdm_linear_def nblocks_def) (simp add: boot_machine_def HHDM_def)
  then have "boot_pool HHDM boot_machine" using sound clear by (auto simp: boot_pool_def free)
  then show "boots_with HHDM no_image boot_machine"
    by (simp add: boots_with_def) (simp add: boot_machine_def HHDM_def image_fits_def no_boot_def ALIGN_UP_def PAGE_SIZE_def)
qed

text \<open>The tables the boot makes there: two thousand for the low 4 GiB, three for the rest.\<close>

lemma table_index: "drop_bit n va AND 0x1ff = of_nat ((unat va div 2 ^ n) mod 512)" for va :: u64
proof -
  have "unat (drop_bit n va AND mask 9) = (unat va div 2 ^ n) mod 2 ^ 9"
    by (simp only: unsigned_take_bit_eq unat_drop_bit_eq flip: take_bit_eq_mask)
      (simp add: take_bit_eq_mod drop_bit_eq_div)
  then have "drop_bit n va AND mask 9 = of_nat ((unat va div 2 ^ n) mod 2 ^ 9)"
    by (intro word_unat_eq_iff [THEN iffD2]) (simp add: unat_of_nat_u64 less_trans [OF mod_less_divisor])
  then show ?thesis by (simp add: mask_eq_exp_minus_1)
qed

lemma low_paths:
  "request_paths low_requests \<subseteq> {[], [0]} \<union> (\<lambda>i. [0, of_nat i]) ` {..<4} \<union>
     (\<lambda>(i, j). [0, of_nat i, of_nat j]) ` ({..<4} \<times> {..<512})"
proof -
  have "set (prefixes (table_path va)) \<subseteq> {[], [0]} \<union> (\<lambda>i. [0, of_nat i]) ` {..<4} \<union>
     (\<lambda>(i, j). [0, of_nat i, of_nat j]) ` ({..<4} \<times> {..<512})" if r: "(va, pa, fl) \<in> set low_requests" for va pa fl
  proof -
    obtain k where k: "va = block_addr k" "k < 2 ^ 20" using low_request [OF r] by blast
    then have u: "unat va < 2 ^ 32" by (simp add: unat_block_addr)
    define i j where "i = unat va div 2 ^ 30" and "j = unat va div 2 ^ 21 mod 512"
    have ij: "i < 4" "j < 512" using u by (simp_all add: i_def j_def less_mult_imp_div_less)
    have "unat va div 2 ^ 39 = 0" using u by simp
    then have "table_path va = [0, of_nat i, of_nat j]"
      using ij(1) by (simp add: table_path_def table_index) (simp add: i_def j_def)
    then show ?thesis using ij by auto
  qed
  then show ?thesis unfolding request_paths_def by fast
qed

lemma boot_machine_requests:
  "direct_requests HHDM boot_machine =
     [(0x1000 + HHDM, 0x1000, PTE_BIT_PRESENT OR PTE_BIT_READ_WRITE),
      (0x2000 + HHDM, 0x2000, PTE_BIT_PRESENT OR PTE_BIT_READ_WRITE)]"
  "kernel_requests HHDM no_image boot_machine =
     [(0x1000 + HHDM, 0x1000, PTE_BIT_PRESENT OR PTE_BIT_READ_WRITE),
      (0x2000 + HHDM, 0x2000, PTE_BIT_PRESENT OR PTE_BIT_READ_WRITE)] @ low_requests @
     [(HHDM, 0, PTE_BIT_PRESENT OR PTE_BIT_READ_WRITE)]"
proof -
  define s where "s = boot_machine\<lparr>hhdmoffset := HHDM\<rparr>"
  have low: "ALIGN_DOWN HHDM PAGE_SIZE = HHDM" "ALIGN_DOWN 0 PAGE_SIZE = 0" "ALIGN_UP 0 PAGE_SIZE = 0"
    by code_simp+
  have "bitmap_requests s = [(0x1000 + HHDM, 0x1000, PTE_BIT_PRESENT OR PTE_BIT_READ_WRITE)]"
    by (simp add: bitmap_requests_def s_def boot_machine_def steps_def steps_count_def)
  moreover have "concat (map (entry_requests s) (memmap s)) = [(0x2000 + HHDM, 0x2000, PTE_BIT_PRESENT OR PTE_BIT_READ_WRITE)]"
    by (simp add: entry_requests_def s_def boot_machine_def steps_def steps_count_def entry_flags_def
        LIMINE_MEMMAP_USABLE_def LIMINE_MEMMAP_FRAMEBUFFER_def)
  moreover have "lapic_request s = (HHDM, 0, PTE_BIT_PRESENT OR PTE_BIT_READ_WRITE)"
    by (simp add: lapic_request_def s_def boot_machine_def low quiet_kernel_def initial_kernel_def)
  moreover have "section_requests (ALIGN_DOWN (f (boot s)) PAGE_SIZE) (ALIGN_UP (g (boot s)) PAGE_SIZE) fl no_image = []"
    if "f (boot s) = 0" "g (boot s) = 0" for f g fl
    using that by (simp add: section_requests_def low steps_empty)
  ultimately show "direct_requests HHDM boot_machine =
      [(0x1000 + HHDM, 0x1000, PTE_BIT_PRESENT OR PTE_BIT_READ_WRITE),
       (0x2000 + HHDM, 0x2000, PTE_BIT_PRESENT OR PTE_BIT_READ_WRITE)]"
    "kernel_requests HHDM no_image boot_machine =
      [(0x1000 + HHDM, 0x1000, PTE_BIT_PRESENT OR PTE_BIT_READ_WRITE),
       (0x2000 + HHDM, 0x2000, PTE_BIT_PRESENT OR PTE_BIT_READ_WRITE)] @ low_requests @
      [(HHDM, 0, PTE_BIT_PRESENT OR PTE_BIT_READ_WRITE)]"
    unfolding kernel_requests_def boot_requests_def direct_requests_def Let_def s_def [symmetric]
    by (simp_all add: s_def boot_machine_def no_boot_def)
qed

lemma boot_machine_tables:
  "card (insert [] (request_paths (kernel_requests HHDM no_image boot_machine))) \<le> 2062"
proof -
  let ?high = "{[], [256], [256, 0], [256, 0, 0 :: u64]}"
  let ?low = "{[], [0]} \<union> (\<lambda>i. [0, of_nat i]) ` {..<4} \<union> (\<lambda>(i, j). [0, of_nat i, of_nat j]) ` ({..<4} \<times> {..<512})"
  have path: "table_path HHDM = [256, 0, 0]" "table_path (0x1000 + HHDM) = [256, 0, 0]" "table_path (0x2000 + HHDM) = [256, 0, 0]"
    by code_simp+
  have "request_paths (kernel_requests HHDM no_image boot_machine) \<subseteq> ?high \<union> request_paths low_requests"
    by (auto simp: boot_machine_requests request_paths_def path)
  then have "insert [] (request_paths (kernel_requests HHDM no_image boot_machine)) \<subseteq> ?high \<union> ?low"
    using low_paths by blast
  moreover have "finite (?high \<union> ?low)" by simp
  ultimately have "card (insert [] (request_paths (kernel_requests HHDM no_image boot_machine))) \<le> card (?high \<union> ?low)"
    by (rule card_mono [rotated])
  also have "\<dots> \<le> card ?high + (card {[], [0 :: u64]} + card ((\<lambda>i. [0, of_nat i :: u64]) ` {..<4 :: nat}) +
      card ((\<lambda>(i, j). [0, of_nat i, of_nat j :: u64]) ` ({..<4 :: nat} \<times> {..<512 :: nat})))"
    by (intro order_trans [OF card_Un_le] add_mono order_refl)
  also have "\<dots> \<le> 4 + (2 + 4 + 2048)"
    using card_image_le [of "{..<4 :: nat}" "\<lambda>i. [0, of_nat i :: u64]"]
      card_image_le [of "{..<4 :: nat} \<times> {..<512 :: nat}" "\<lambda>(i, j). [0, of_nat i, of_nat j :: u64]"]
    by (intro add_mono) (auto simp: card_cartesian_product)
  finally show ?thesis by simp
qed

lemma boot_machine_init: "\<exists>t. vmm_init boot_machine = Some (Inr t)"
  using vmm_init_result(2) [OF boot_machine_facts(3)] boot_machine_tables boot_machine_facts(2) by simp

text \<open>A page of a region that starts page-aligned.\<close>

lemma region_page:
  assumes "j \<in> set (steps 0 n 4096)" "4096 dvd unat b" "unat b + unat n \<le> 2 ^ 47"
  shows "4096 dvd unat (b + j)" "unat (b + j) < 2 ^ 47"
proof -
  have "unat n + unat (4096 :: u64) \<le> 2 ^ 64" using assms(3) by simp
  then obtain k where k: "unat j = k * 4096" "unat j < unat n" using set_steps_0 [OF _ _ assms(1)] by auto
  then have "unat (b + j) = unat b + k * 4096" using assms(3) by (subst unat_add_no_wrap) auto
  then show "4096 dvd unat (b + j)" "unat (b + j) < 2 ^ 47" using k assms(2,3) by (auto intro: dvd_add)
qed

lemma region_covers:
  assumes "unat b \<le> unat x" "unat x < unat b + unat n" "4096 dvd unat b" "unat b + unat n \<le> 2 ^ 47"
  shows "\<exists>j \<in> set (steps 0 n 4096). unat (b + j) div 4096 = unat x div 4096"
proof -
  define k where "k = (unat x - unat b) div 4096"
  have k: "k * 4096 \<le> unat x - unat b" "unat x - unat b < k * 4096 + 4096" unfolding k_def by linarith+
  have "Suc k * 4096 \<le> unat n + 4095" using k(1) assms(1,2) by simp
  then have "k < steps_count 0 n 4096"
    using less_eq_div_iff_mult_less_eq [of 4096 "Suc k" "unat n + 4095"] by (simp add: steps_count_def Suc_le_eq)
  then have "of_nat k * 4096 \<in> set (steps 0 n 4096)" by (auto simp: steps_def)
  moreover have "k < 2 ^ 36" using k(1) assms by simp
  then have "unat (b + of_nat k * 4096) = unat b + k * 4096"
    using unat_add_of_nat [of b "k * 4096"] assms(4) k(1) assms(1,2) by simp
  moreover have "(unat b + k * 4096) div 4096 = unat x div 4096"
  proof -
    obtain c where "unat b = 4096 * c" using assms(3) by blast
    moreover from this have "unat x div 4096 = c + k"
      using k assms(1) by (intro div_nat_eqI) simp_all
    ultimately show ?thesis by simp
  qed
  ultimately show ?thesis by metis
qed

lemma direct_request:
  assumes "direct_map_ok off s" "(va, pa, fl) \<in> set (direct_requests off s)"
  shows "va = pa + off \<and> 4096 dvd unat pa \<and> unat pa < 2 ^ 47 \<and> page_flags fl"
proof -
  let ?s = "s\<lparr>hhdmoffset := off\<rparr>"
  consider "(va, pa, fl) \<in> set (bitmap_requests ?s)"
    | e where "e \<in> set (memmap s)" "(va, pa, fl) \<in> set (entry_requests ?s e)"
    using assms(2) by (auto simp: direct_requests_def Let_def)
  then show ?thesis
  proof cases
    case 1
    then obtain j where "j \<in> set (steps 0 (pmm_block_count s div 8) 4096)" "pa = pmm_usable_addr s + j"
      "va = pa + off" "fl = (PTE_BIT_PRESENT OR PTE_BIT_READ_WRITE)"
      by (auto simp: bitmap_requests_def algebra_simps)
    then show ?thesis using region_page assms(1) rw_flags by (simp add: direct_map_ok_def)
  next
    case 2
    then obtain f j where f: "entry_flags e = Some f" "j \<in> set (steps 0 (me_length e) 4096)" "pa = me_base e + j"
      "va = pa + off" "fl = f"
      by (cases "entry_flags e") (auto simp: entry_requests_def algebra_simps)
    moreover have "page_flags f" using f(1) rw_flags by (auto simp: entry_flags_def split: if_splits)
    ultimately show ?thesis using region_page [OF f(2)] assms(1) 2(1) by (auto simp: direct_map_ok_def)
  qed
qed

lemma offset_low_bits:
  fixes x off :: u64
  assumes "4096 dvd unat off"
  shows "(x + off) AND 0xfff = x AND 0xfff"
proof -
  have m: "(0xfff :: u64) = mask 12" by (simp add: mask_eq_exp_minus_1)
  have u: "unat (take_bit 12 y) = unat y mod 4096" for y :: u64
    unfolding unsigned_take_bit_eq by (simp add: take_bit_eq_mod)
  have "unat (x + off) mod 4096 = (unat x + unat off) mod 2 ^ 64 mod 4096"
    by (simp add: unat_word_ariths)
  also have "\<dots> = (unat x + unat off) mod 4096" by (rule mod_mod_cancel) simp
  also have "\<dots> = unat x mod 4096" using assms by (auto elim!: dvdE)
  finally have "take_bit 12 (x + off) = take_bit 12 x" by (intro word_unat_eq_iff [THEN iffD2]) (simp only: u)
  then show ?thesis unfolding m by (simp flip: take_bit_eq_mask)
qed

section \<open>Properties\<close>

text \<open>
  C8. vmm_map_page implements the update of a map from pages to entries: with enough free
  blocks for the missing tables it returns, the entry of every address of the page becomes the
  physical address with the flags, the entry of every other page is unchanged, and the tables
  are still sound (no shared tables, none in a free block or in the bitmap).
\<close>

theorem vmm_map_page_refines:
  assumes "vmm_sound root s" "tables_needed root s va \<le> card (free_blocks s)"
  shows "\<exists>t. vmm_map_page (root + hhdmoffset s) va pa flags s = Inr t \<and> vmm_sound root t \<and>
    (\<forall>vb. entry_of (tables t) root vb = (if same_page va vb then pa OR flags else entry_of (tables s) root vb))"
  using map_page_ok [OF assms(1), of va pa flags] assms(2) by (auto split: if_splits)

lemma vmm_map_page_refines_witness:
  "\<exists>t. vmm_map_page (0x2000 + HHDM) 0x40001000 0x7000 3 vmm_machine = Inr t \<and>
     entry_of (tables t) 0x2000 0x40001abc = 0x7003 \<and> entry_of (tables t) 0x2000 0x40002000 = 0"
proof -
  have "tables_needed 0x2000 vmm_machine 0x40001000 \<le> card (free_blocks vmm_machine)"
    by (simp add: vmm_machine_facts)
  from vmm_map_page_refines [OF vmm_machine_facts(4) this, of "0x7000" 3] obtain t where
    t: "vmm_map_page (0x2000 + HHDM) 0x40001000 0x7000 3 vmm_machine = Inr t"
    "\<And>vb. entry_of (tables t) 0x2000 vb = (if same_page 0x40001000 vb then 0x7000 OR 3 else 0)"
    by (auto simp: vmm_machine_facts)
  have "same_page 0x40001000 0x40001abc" "\<not> same_page 0x40001000 0x40002000" "(0x7000 OR 3 :: u64) = 0x7003"
    by code_simp+
  with t show ?thesis by simp
qed

text \<open>
  C9. After vmm_map_page of a page-aligned frame with flags that include PRESENT, the processor
  translates every address of the page to the same offset in the frame, and translates every
  address of another page as before.
\<close>

theorem vmm_map_then_translate:
  assumes "vmm_sound root s" "vmm_map_page (root + hhdmoffset s) va pa flags s = Inr t"
    and "page_frame pa" "page_flags flags"
  shows "translate (tables t) root vb =
    (if same_page va vb then Some (pa OR (vb AND 0xfff)) else translate (tables s) root vb)"
proof -
  have "entry_of (tables t) root vb = (if same_page va vb then pa OR flags else entry_of (tables s) root vb)"
    using map_page_ok [OF assms(1), of va pa flags] assms(2) by (auto split: if_splits)
  then show ?thesis using entry_parts [OF assms(3,4)] by (simp add: translate_def Let_def)
qed

lemma vmm_map_then_translate_witness:
  "\<exists>t. vmm_map_page (0x2000 + HHDM) 0x40001000 0x7000 3 vmm_machine = Inr t \<and>
     translate (tables t) 0x2000 0x40001abc = Some 0x7abc"
proof -
  obtain t where t: "vmm_map_page (0x2000 + HHDM) 0x40001000 0x7000 3 vmm_machine = Inr t"
    using map_page_ok [OF vmm_machine_facts(4), of "0x40001000" "0x7000" 3]
    by (auto simp: vmm_machine_facts split: if_splits)
  have "page_frame 0x7000" "page_flags 3" "same_page 0x40001000 0x40001abc"
    "(0x7000 OR (0x40001abc AND 0xfff) :: u64) = 0x7abc"
    by code_simp+
  then show ?thesis
    using t vmm_map_then_translate [OF vmm_machine_facts(4), of "0x40001000" "0x7000" 3 t "0x40001abc"]
    by (simp add: vmm_machine_facts)
qed

text \<open>
  C10. vmm_map_page takes from the allocator exactly one block per table missing on the way to
  the page, and it fails (by panicking) exactly when there are fewer free blocks than that.
\<close>

theorem vmm_map_page_cost:
  assumes "vmm_sound root s"
  shows "case vmm_map_page (root + hhdmoffset s) va pa flags s of
      Inl (f, _) \<Rightarrow> f = Halted \<and> card (free_blocks s) < tables_needed root s va
    | Inr t \<Rightarrow> card (free_blocks s) = card (free_blocks t) + tables_needed root s va \<and>
        free_blocks t \<subseteq> free_blocks s \<and> tables_needed root t va = 0"
proof -
  have "tables_needed root t va = 0" if "paths root t = paths root s \<union> set (prefixes (table_path va))" for t
    by (simp add: tables_needed_card that)
  then show ?thesis using map_page_ok [OF assms, of va pa flags] by (auto split: if_splits)
qed

lemma vmm_map_page_cost_witness:
  "case vmm_map_page (0x2000 + HHDM) 0 0x7000 3 vmm_machine of
      Inl (f, _) \<Rightarrow> f = Halted \<and> (12 :: nat) < 3
    | Inr t \<Rightarrow> 12 = card (free_blocks t) + 3 \<and> free_blocks t \<subseteq> {4..15} \<and> tables_needed 0x2000 t 0 = 0"
  using vmm_map_page_cost [OF vmm_machine_facts(4), of 0 "0x7000" 3]
  by (simp add: vmm_machine_facts split: sum.splits prod.splits)

text \<open>
  C11. vmm_free_page of a mapped page whose frame is a block the allocator covers, and holds
  neither a table nor the bitmap, gives exactly that block back, makes the page untranslated
  and leaves every other page as it was.
\<close>

theorem vmm_free_page_unmaps:
  assumes "vmm_sound root s" "tables_needed root s va = 0"
    and "table_of (entry_of (tables s) root va) = block_addr b" "b < nblocks s" "b \<noteq> 0" "clear_block s b"
    and "\<forall>(is, t) \<in> nodes (tables s) root. t \<noteq> block_addr b"
  shows "\<exists>t. vmm_free_page (root + hhdmoffset s) va s = Inr t \<and> vmm_sound root t \<and>
    free_blocks t = insert b (free_blocks s) \<and>
    (\<forall>vb. translate (tables t) root vb = (if same_page va vb then None else translate (tables s) root vb))"
proof -
  obtain p where p: "follow (tables s) root (table_path va) = Some p"
    using assms(2) by (auto simp: tables_needed_def missing_0)
  have "b < 2 ^ 31" using pmm_sound_small [OF vmm_soundD(1) [OF assms(1)] assms(4)] .
  then have b: "unat (table_of (entry_of (tables s) root va)) div 4096 = b"
    unfolding assms(3) by (simp add: block_addr_div)
  show ?thesis
    using free_page_ok [OF assms(1) p, unfolded b, OF assms(4-7)] by (auto simp: translate_def Let_def)
qed

lemma vmm_free_page_unmaps_witness:
  "\<exists>s t. vmm_map_page (0x2000 + HHDM) 0 0x3000 3 vmm_machine = Inr s \<and>
     vmm_free_page (0x2000 + HHDM) 0 s = Inr t \<and> 3 \<in> free_blocks t \<and> translate (tables t) 0x2000 0 = None"
proof -
  obtain s where s: "vmm_map_page (0x2000 + HHDM) 0 0x3000 3 vmm_machine = Inr s" "vmm_sound 0x2000 s"
    "entry_of (tables s) 0x2000 0 = 0x3000 OR 3" "vmm_frame vmm_machine s" "new_tables 0x2000 vmm_machine s"
    "paths 0x2000 s = paths 0x2000 vmm_machine \<union> set (prefixes (table_path 0))"
    using map_page_ok [OF vmm_machine_facts(4), of 0 "0x3000" 3]
    by (auto simp: vmm_machine_facts same_page_def split: if_splits)
  note F = vmm_frame_fields [OF s(4)]
  have need: "tables_needed 0x2000 s 0 = 0"
    by (simp add: tables_needed_card s(6))
  have b3: "(0x3000 :: u64) = block_addr 3" "(0x2000 :: u64) = block_addr 2" by (simp_all add: block_addr_def BLOCK_SIZE_def)
  have "page_frame 0x3000" "page_flags 3" by code_simp+
  then have entry: "table_of (entry_of (tables s) 0x2000 0) = block_addr 3" unfolding s(3) using entry_parts(1) b3 by metis
  have "t \<noteq> block_addr 3" if "(is, t) \<in> nodes (tables s) 0x2000" for "is" t
  proof -
    have "t = block_addr 2 \<or> t \<in> block_addr ` {4..15}"
      using bspec [OF s(5) [unfolded new_tables_def] that] vmm_machine_facts(2,7) b3(2) by auto
    then show ?thesis by (auto simp: block_addr_inj)
  qed
  then have "\<forall>(is, t) \<in> nodes (tables s) 0x2000. t \<noteq> block_addr 3" by blast
  moreover have "clear_block s 3"
    using F by (auto simp: clear_block_def bitmap_bytes_def nblocks_def vmm_machine_def in_block_def
        lessThan_nat_numeral lessThan_Suc)
  ultimately obtain t where "vmm_free_page (0x2000 + hhdmoffset s) 0 s = Inr t" "free_blocks t = insert 3 (free_blocks s)"
    "translate (tables t) 0x2000 0 = None"
    using vmm_free_page_unmaps [OF s(2) need entry] F vmm_machine_facts(1) by (auto simp: same_page_def)
  then show ?thesis using s(1) F vmm_machine_facts(3) by auto
qed

text \<open>
  C40. vmm_free_page does not check that the page is mapped: on an address whose tables exist
  but whose entry is empty it frees physical block 0, which no caller ever allocated.
\<close>

theorem vmm_free_unmapped_frees_block_zero:
  assumes "vmm_sound root s" "tables_needed root s va = 0" "entry_of (tables s) root va = 0" "0 < nblocks s"
  shows "\<exists>t. vmm_free_page (root + hhdmoffset s) va s = Inr t \<and> 0 \<in> free_blocks t"
proof -
  obtain p where p: "follow (tables s) root (table_path va) = Some p"
    using assms(2) by (auto simp: tables_needed_def missing_0)
  then show ?thesis using free_page_block [OF assms(1) p] assms(3,4) by (auto simp: table_of_def)
qed

lemma vmm_free_unmapped_frees_block_zero_witness:
  "\<exists>s t. vmm_map_page (0x2000 + HHDM) 0 0x3000 3 vmm_machine = Inr s \<and>
     vmm_free_page (0x2000 + HHDM) 0x5000 s = Inr t \<and> 0 \<in> free_blocks t"
proof -
  have other: "\<not> same_page 0 0x5000" "table_path 0x5000 = table_path 0" by code_simp+
  obtain s where s: "vmm_map_page (0x2000 + HHDM) 0 0x3000 3 vmm_machine = Inr s" "vmm_sound 0x2000 s"
    "entry_of (tables s) 0x2000 0x5000 = 0" "vmm_frame vmm_machine s"
    "paths 0x2000 s = paths 0x2000 vmm_machine \<union> set (prefixes (table_path 0))"
    using map_page_ok [OF vmm_machine_facts(4), of 0 "0x3000" 3]
    using other by (auto simp: vmm_machine_facts split: if_splits)
  have "tables_needed 0x2000 s 0x5000 = 0"
    using other by (simp add: tables_needed_card s(5))
  then show ?thesis
    using vmm_free_unmapped_frees_block_zero [OF s(2) _ s(3)] s(1) vmm_frame_fields [OF s(4)] vmm_machine_facts(1,3)
    by auto
qed

text \<open>
  C12. vmm_init halts the machine when the allocator has fewer free blocks than the distinct
  tables of the pages it maps, and otherwise returns with exactly those blocks taken, sound
  tables in force, and every page having the entry of the last request made for it.
\<close>

theorem vmm_init_builds_tables:
  assumes "boots_with off ka s"
  shows "if card (free_blocks s) < card (insert [] (request_paths (kernel_requests off ka s)))
    then \<exists>u. vmm_init s = Some (Inl (Halted, u))
    else \<exists>t. vmm_init s = Some (Inr t) \<and> vmm_sound (cr3 t) t \<and>
      (\<forall>vb. entry_of (tables t) (cr3 t) vb = requested (kernel_requests off ka s) vb 0) \<and>
      card (free_blocks s) = card (free_blocks t) + card (insert [] (request_paths (kernel_requests off ka s)))"
  using vmm_init_result [OF assms] by (metis not_less)

lemma vmm_init_builds_tables_witness:
  "\<exists>t. vmm_init boot_machine = Some (Inr t) \<and> vmm_sound (cr3 t) t"
  using vmm_init_builds_tables [OF boot_machine_facts(3)] boot_machine_tables boot_machine_facts(2)
  by (auto split: if_splits)

text \<open>
  C13. After vmm_init the first 4 GiB from the second page on are identity mapped: the processor
  translates each such address to itself, whatever the memory map, unless the local APIC's
  direct-map page is that very page.
\<close>

theorem vmm_init_identity_map:
  assumes "boots_with off ka s" "vmm_init s = Some (Inr t)" "0x1000 \<le> x" "x < 0x100000000"
    and "\<not> same_page (ALIGN_DOWN (ucast (lapic_addr s) + off) PAGE_SIZE) x"
  shows "translate (tables t) (cr3 t) x = Some x"
proof -
  define rest where "rest = requested (take (length (kernel_requests off ka s) - length low_requests - 1) (kernel_requests off ka s)) x 0"
  have "entry_of (tables t) (cr3 t) x = requested low_requests x rest"
    using vmm_init_result(3) [OF assms(1,2)] assms(5)
    by (simp add: kernel_requests_def boot_requests_def requested_append rest_def)
      (simp add: requested_def lapic_request_def)
  moreover have "unat x < 2 ^ 52" using assms(4) by (simp add: word_less_nat_alt)
  ultimately show ?thesis using requested_low [OF assms(3,4)] by (intro translate_kind) auto
qed

lemma vmm_init_identity_map_witness:
  "\<exists>t. vmm_init boot_machine = Some (Inr t) \<and> translate (tables t) (cr3 t) 0xfee00020 = Some 0xfee00020"
proof -
  obtain t where t: "vmm_init boot_machine = Some (Inr t)" using boot_machine_init by blast
  have "lapic_addr boot_machine = 0" by (simp add: boot_machine_def quiet_kernel_def initial_kernel_def)
  moreover have "\<not> same_page (ALIGN_DOWN (ucast (0 :: u32) + HHDM) PAGE_SIZE) 0xfee00020" by code_simp
  ultimately show ?thesis using vmm_init_identity_map [OF boot_machine_facts(3) t, of "0xfee00020"] t by simp
qed

text \<open>
  C14. When the direct-map offset, the bitmap, and every region of the memory map that the kernel
  uses (usable memory, the framebuffer, boot loader and ACPI memory) start on a page boundary and
  lie below 2^47, every byte of those regions is readable through the direct map once vmm_init has returned: the
  processor translates its physical address plus the offset to itself, unless a later request of
  the boot (image, low memory, local APIC) is for that very page. A region that starts inside a page
  is not covered: its last page may be left out, and the low bits of its base go into the flags.
\<close>

theorem vmm_init_direct_map:
  assumes "boots_with off ka s" "vmm_init s = Some (Inr t)" "direct_map_ok off s"
    and "e \<in> set (memmap s)" "entry_flags e \<noteq> None"
    and "unat (me_base e) \<le> unat x" "unat x < unat (me_base e) + unat (me_length e)"
    and "\<forall>(va, pa, fl) \<in> set (later_requests off ka s). \<not> same_page va (x + off)"
  shows "translate (tables t) (cr3 t) (x + off) = Some x"
proof -
  let ?S = "{block_addr (unat x div 4096) OR fl | fl. page_flags fl}"
  have ok: "4096 dvd unat off" "unat off + 2 ^ 47 \<le> 2 ^ 64" "4096 dvd unat (me_base e)"
    "unat (me_base e) + unat (me_length e) \<le> 2 ^ 47"
    using assms(3-5) by (auto simp: direct_map_ok_def)
  have x: "unat x < 2 ^ 47" using assms(7) ok(4) by linarith
  have "requested (direct_requests off s) (x + off) 0 \<in> ?S"
  proof (rule requested_in)
    fix va pa fl
    assume "(va, pa, fl) \<in> set (direct_requests off s)" "same_page va (x + off)"
    moreover from this have d: "va = pa + off" "4096 dvd unat pa" "unat pa < 2 ^ 47" "page_flags fl"
      using direct_request [OF assms(3)] by blast+
    ultimately have "unat pa div 4096 = unat x div 4096" using same_page_offset [OF d(3) x ok(1,2)] by simp
    then have "pa = block_addr (unat x div 4096)"
      using d(2) x by (intro word_unat_eq_iff [THEN iffD2]) (auto simp: unat_block_addr)
    then show "pa OR fl \<in> ?S" using d(4) by blast
  next
    obtain j where j: "j \<in> set (steps 0 (me_length e) 4096)" "unat (me_base e + j) div 4096 = unat x div 4096"
      using region_covers [OF assms(6,7) ok(3,4)] by blast
    obtain f where "entry_flags e = Some f" using assms(5) by auto
    then have "(me_base e + j + off, me_base e + j, f) \<in> set (direct_requests off s)"
      using j(1) assms(4) by (auto simp: direct_requests_def Let_def entry_requests_def intro!: bexI [of _ e])
    moreover have "same_page (me_base e + j + off) (x + off)"
      using same_page_offset [OF region_page(2) [OF j(1) ok(3,4)] x ok(1,2)] j(2) by simp
    ultimately show "0 \<in> ?S \<or> (\<exists>(va, pa, fl) \<in> set (direct_requests off s). same_page va (x + off))" by blast
  qed
  moreover have "entry_of (tables t) (cr3 t) (x + off) = requested (direct_requests off s) (x + off) 0"
    using vmm_init_result(3) [OF assms(1,2)] requested_none [of "later_requests off ka s"] assms(8)
    by (fastforce simp: direct_later requested_append)
  ultimately show ?thesis using x offset_low_bits [OF ok(1)] by (intro translate_kind) auto
qed

lemma vmm_init_direct_map_witness:
  "\<exists>t. vmm_init boot_machine = Some (Inr t) \<and> translate (tables t) (cr3 t) (0x2abc + HHDM) = Some 0x2abc"
proof -
  obtain t where t: "vmm_init boot_machine = Some (Inr t)" using boot_machine_init by blast
  have direct: "direct_map_ok HHDM boot_machine"
    by (simp add: direct_map_ok_def boot_machine_def HHDM_def)
  let ?e = "\<lparr>me_base = 0x2000, me_length = 0x1000, me_type = 0\<rparr> :: limine_memmap_entry"
  have e: "?e \<in> set (memmap boot_machine)" "entry_flags ?e \<noteq> None"
    by (simp_all add: boot_machine_def entry_flags_def LIMINE_MEMMAP_FRAMEBUFFER_def LIMINE_MEMMAP_USABLE_def)
  have "\<not> same_page va (0x2abc + HHDM)" if r: "(va, pa, fl) \<in> set (later_requests HHDM no_image boot_machine)" for va pa fl
  proof -
    have "later_requests HHDM no_image boot_machine = low_requests @ [(HHDM, 0, PTE_BIT_PRESENT OR PTE_BIT_READ_WRITE)]"
      by (simp add: later_requests_def boot_machine_requests)
    then consider "va = HHDM" | k where "va = block_addr k" "k < 2 ^ 20" using r low_request by fastforce
    then show ?thesis
    proof cases
      case 1
      have "\<not> same_page HHDM (0x2abc + HHDM)" by code_simp
      with 1 show ?thesis by simp
    next
      case 2
      then show ?thesis by (simp add: same_page_unat unat_block_addr HHDM_def)
    qed
  qed
  then show ?thesis
    using vmm_init_direct_map [OF boot_machine_facts(3) t direct e, of "0x2abc"] t by auto
qed

end
