(* ===== verification/Layout.thy ===== *)
theory Layout
  imports Machine
begin

text \<open>
  The packed structs of \<open>acpi.h\<close>, \<open>gdt.h\<close> and \<open>idt.h\<close> as the compiler lays them out: the members
  in order, with their sizes in bytes and no padding. The kernel reads the firmware's tables
  through these structs, so the offsets of the members are computed from here.
\<close>

section \<open>Packed structs\<close>

type_synonym layout = "(string \<times> nat) list"

definition sizeof :: "layout \<Rightarrow> nat" where
  "sizeof l = sum_list (map snd l)"

definition offset_of :: "layout \<Rightarrow> string \<Rightarrow> nat" where
  "offset_of l f = sizeof (takeWhile (\<lambda>m. fst m \<noteq> f) l)"

definition member_bytes :: "layout \<Rightarrow> string \<Rightarrow> nat set" where
  "member_bytes l f = (case map_of l f of
     None \<Rightarrow> {}
   | Some w \<Rightarrow> {offset_of l f ..< offset_of l f + w})"

lemma sizeof_simps [simp]: "sizeof [] = 0" "sizeof (m # l) = snd m + sizeof l"
  by (simp_all add: sizeof_def)

lemma offset_of_Cons [simp]: "offset_of (m # l) f = (if fst m = f then 0 else snd m + offset_of l f)"
  by (simp add: offset_of_def)

lemma member_bytes_Cons:
  "member_bytes ((g, w) # l) f = (if f = g then {0..<w} else (\<lambda>i. w + i) ` member_bytes l f)"
  by (auto simp: member_bytes_def image_iff algebra_simps split: option.split)

lemma member_bytes_inside: "member_bytes l f \<subseteq> {0..<sizeof l}"
proof (induction l)
  case (Cons m l)
  then show ?case by (cases m) (auto simp: member_bytes_Cons)
qed (simp add: member_bytes_def)

text \<open>Two members never share a byte.\<close>

lemma member_bytes_apart: "f \<noteq> g \<Longrightarrow> member_bytes l f \<inter> member_bytes l g = {}"
proof (induction l)
  case (Cons m l)
  then show ?case by (cases m) (auto simp: member_bytes_Cons)
qed (simp add: member_bytes_def)

section \<open>\<open>acpi.h\<close>\<close>

definition sdt_layout :: layout where
  "sdt_layout =
     [(''signature'', 4), (''length'', 4), (''revision'', 1), (''checksum'', 1),
      (''OEMID'', 6), (''OEMtableid'', 8), (''oemrevision'', 4), (''creatorid'', 4),
      (''creatorrevision'', 4)]"

definition rsdp_layout :: layout where
  "rsdp_layout =
     [(''signature'', 8), (''checksum'', 1), (''OEMID'', 6), (''revision'', 1),
      (''rsdtaddress'', 4), (''length'', 4), (''xsdtaddress'', 8), (''extendedchecksum'', 1),
      (''reserved'', 3)]"

definition xsdt_layout :: layout where
  "xsdt_layout =
     [(''header'', sizeof sdt_layout), (''tableptrs'', 0)]"

definition rsdt_layout :: layout where
  "rsdt_layout =
     [(''header'', sizeof sdt_layout), (''tableptrs'', 0)]"

definition madt_record_layout :: layout where
  "madt_record_layout =
     [(''entry_type'', 1), (''record_length'', 1)]"

definition madt_plapic_layout :: layout where
  "madt_plapic_layout =
     [(''entry_type'', 1), (''entry_length'', 1), (''processorUID'', 1), (''apicID'', 1),
      (''flags'', 4)]"

definition madt_ioapic_layout :: layout where
  "madt_ioapic_layout =
     [(''entry_type'', 1), (''entry_length'', 1), (''ioapicID'', 1), (''reserved'', 1),
      (''ioapicaddr'', 4), (''gsi'', 4)]"

definition madt_iso_layout :: layout where
  "madt_iso_layout =
     [(''entry_type'', 1), (''entry_length'', 1), (''bus'', 1), (''source'', 1),
      (''gsi'', 4), (''flags'', 2)]"

definition madt_nmi_layout :: layout where
  "madt_nmi_layout =
     [(''entry_type'', 1), (''entry_length'', 1), (''flags'', 2), (''gsi'', 4)]"

definition madt_lapicnmi_layout :: layout where
  "madt_lapicnmi_layout =
     [(''entry_type'', 1), (''entry_length'', 1), (''processorUID'', 1), (''flags'', 2),
      (''lint_num'', 1)]"

definition madt_iosapic_layout :: layout where
  "madt_iosapic_layout =
     [(''entry_type'', 1), (''entry_length'', 1), (''ioapicID'', 1), (''reserved'', 1),
      (''gsi'', 4), (''iosapicaddr'', 8)]"

definition madt_pslapic_layout :: layout where
  "madt_pslapic_layout =
     [(''entry_type'', 1), (''entry_length'', 1), (''processorUID'', 1), (''lsapicID'', 1),
      (''lsapicEID'', 1), (''reserved'', 3), (''flags'', 4), (''processorUIDval'', 4),
      (''processorUIDstr'', 1)]"

definition madt_layout :: layout where
  "madt_layout =
     [(''header'', sizeof sdt_layout), (''lapicaddr'', 4), (''flags'', 4),
      (''first_ics'', sizeof madt_record_layout)]"

definition gas_layout :: layout where
  "gas_layout =
     [(''AddressSpace'', 1), (''BitWidth'', 1), (''BitOffset'', 1), (''AccessSize'', 1),
      (''Address'', 8)]"

definition fadt_layout :: layout where
  "fadt_layout =
     [(''header'', sizeof sdt_layout), (''FirmwareCtrl'', 4), (''Dsdt'', 4),
      (''Reserved'', 1), (''PreferredPowerManagementProfile'', 1), (''SCI_Interrupt'', 2),
      (''SMI_CommandPort'', 4), (''AcpiEnable'', 1), (''AcpiDisable'', 1),
      (''S4BIOS_REQ'', 1), (''PSTATE_Control'', 1), (''PM1aEventBlock'', 4),
      (''PM1bEventBlock'', 4), (''PM1aControlBlock'', 4), (''PM1bControlBlock'', 4),
      (''PM2ControlBlock'', 4), (''PMTimerBlock'', 4), (''GPE0Block'', 4),
      (''GPE1Block'', 4), (''PM1EventLength'', 1), (''PM1ControlLength'', 1),
      (''PM2ControlLength'', 1), (''PMTimerLength'', 1), (''GPE0Length'', 1),
      (''GPE1Length'', 1), (''GPE1Base'', 1), (''CStateControl'', 1),
      (''WorstC2Latency'', 2), (''WorstC3Latency'', 2), (''FlushSize'', 2),
      (''FlushStride'', 2), (''DutyOffset'', 1), (''DutyWidth'', 1), (''DayAlarm'', 1),
      (''MonthAlarm'', 1), (''Century'', 1), (''BootArchitectureFlags'', 2),
      (''Reserved2'', 1), (''Flags'', 4), (''ResetReg'', sizeof gas_layout),
      (''ResetValue'', 1), (''Reserved3'', 3), (''X_FirmwareControl'', 8), (''X_Dsdt'', 8),
      (''X_PM1aEventBlock'', sizeof gas_layout), (''X_PM1bEventBlock'', sizeof gas_layout),
      (''X_PM1aControlBlock'', sizeof gas_layout),
      (''X_PM1bControlBlock'', sizeof gas_layout),
      (''X_PM2ControlBlock'', sizeof gas_layout), (''X_PMTimerBlock'', sizeof gas_layout),
      (''X_GPE0Block'', sizeof gas_layout), (''X_GPE1Block'', sizeof gas_layout)]"

definition ics_list_layout :: layout where
  "ics_list_layout =
     [(''type'', 4), (''header'', sizeof madt_record_layout)]"

section \<open>\<open>gdt.h\<close> and \<open>idt.h\<close>\<close>

definition gdtdesc_layout :: layout where
  "gdtdesc_layout =
     [(''limit_low'', 2), (''base_low'', 2), (''base_middle'', 1), (''access'', 1),
      (''granularity'', 1), (''base_high'', 1)]"

definition tssdesc_layout :: layout where
  "tssdesc_layout =
     [(''reserved1'', 4), (''rsp0'', 8), (''rsp1'', 8), (''rsp2'', 8), (''reserved2'', 8),
      (''ist1'', 8), (''ist2'', 8), (''ist3'', 8), (''ist4'', 8), (''ist5'', 8), (''ist6'', 8),
      (''ist7'', 8), (''reserved3'', 8), (''reserved4'', 2), (''iopb'', 2)]"

definition idtentry_layout :: layout where
  "idtentry_layout =
     [(''isr_low'', 2), (''kernel_cs'', 2), (''ist'', 1), (''attributes'', 1), (''isr_mid'', 2),
      (''isr_high'', 4), (''reserved'', 4)]"

section \<open>Sizes and offsets\<close>

lemmas layouts = sdt_layout_def rsdp_layout_def xsdt_layout_def rsdt_layout_def madt_record_layout_def
  madt_plapic_layout_def madt_ioapic_layout_def madt_iso_layout_def madt_nmi_layout_def
  madt_lapicnmi_layout_def madt_iosapic_layout_def madt_pslapic_layout_def madt_layout_def
  gas_layout_def fadt_layout_def ics_list_layout_def gdtdesc_layout_def tssdesc_layout_def idtentry_layout_def

text \<open>The lengths the ACPI specification gives the tables and the records of the MADT.\<close>

lemma acpi_sizes:
  "sizeof sdt_layout = 36" "sizeof rsdp_layout = 36" "sizeof madt_layout = 44 + sizeof madt_record_layout"
  "sizeof gas_layout = 12" "sizeof fadt_layout = 244" "sizeof madt_plapic_layout = 8" "sizeof madt_ioapic_layout = 12"
  "sizeof madt_iso_layout = 10" "sizeof madt_nmi_layout = 8" "sizeof madt_lapicnmi_layout = 6"
  "sizeof madt_iosapic_layout = 16" "sizeof madt_record_layout = 2"
  by (simp_all add: layouts)

lemma descriptor_sizes:
  "sizeof gdtdesc_layout = 8" "sizeof tssdesc_layout = 104" "sizeof idtentry_layout = 16"
  by (simp_all add: layouts)

lemma acpi_offsets:
  "offset_of sdt_layout ''length'' = 4" "offset_of rsdp_layout ''rsdtaddress'' = 16"
  "offset_of rsdp_layout ''xsdtaddress'' = 24" "offset_of rsdt_layout ''tableptrs'' = 36"
  "offset_of xsdt_layout ''tableptrs'' = 36" "offset_of fadt_layout ''PMTimerBlock'' = 76"
  "offset_of fadt_layout ''PMTimerLength'' = 91" "offset_of madt_layout ''lapicaddr'' = 36"
  "offset_of madt_layout ''first_ics'' = 44" "offset_of madt_record_layout ''entry_type'' = 0"
  "offset_of madt_record_layout ''record_length'' = 1" "offset_of madt_plapic_layout ''apicID'' = 3"
  "offset_of madt_plapic_layout ''flags'' = 4" "offset_of madt_ioapic_layout ''ioapicaddr'' = 4"
  "offset_of madt_iso_layout ''source'' = 3" "offset_of madt_iso_layout ''gsi'' = 4"
  by (simp_all add: layouts)

end
