(* ===== verification/Gdt.thy ===== *)
theory Gdt
  imports CString Layout
begin

text \<open>
  \<open>kern/sys/gdt.c\<close> with \<open>gdt.asm\<close>: the global descriptor table. The lemmas read a descriptor
  back the way the processor does. The addresses of \<open>gdt\<close> and \<open>tss\<close> are given by the linker
  and are arguments here.
\<close>

section \<open>The functions\<close>

definition GDTSEGMENTS :: nat where "GDTSEGMENTS = 7"
definition sizeof_gdtdesc :: nat where "sizeof_gdtdesc = sizeof gdtdesc_layout"
definition sizeof_tssdesc :: u64 where "sizeof_tssdesc = of_nat (sizeof tssdesc_layout)"

lemma sizeof_gdtdesc_at: "sizeof_gdtdesc = 8"
  and sizeof_tssdesc_at: "sizeof_tssdesc = 104"
  by (simp_all add: sizeof_gdtdesc_def sizeof_tssdesc_def descriptor_sizes)

text \<open>
  All six members of \<open>gdt[num]\<close> are written, from \<open>base\<close>, \<open>limit\<close> and the two flag bytes; a
  number outside the array is an access out of bounds.
\<close>

definition gdt_entry :: "u64 \<Rightarrow> u64 \<Rightarrow> u8 \<Rightarrow> u8 \<Rightarrow> gdtdesc" where
  "gdt_entry base limit acc gran =
     \<lparr>limit_low = ucast (limit AND 0xFFFF),
      base_low = ucast (base AND 0xFFFF),
      base_middle = ucast (drop_bit 16 base AND 0xFF),
      access = acc,
      granularity = ucast (drop_bit 16 limit AND 0x0F) OR ucast (push_bit 4 (ucast gran AND 0xF :: i32)),
      base_high = ucast (drop_bit 24 base AND 0xFF)\<rparr>"

definition gdt_set_entry :: "int \<Rightarrow> u64 \<Rightarrow> u64 \<Rightarrow> u8 \<Rightarrow> u8 \<Rightarrow> kernel \<Rightarrow> failure + kernel" where
  "gdt_set_entry num base limit acc gran s =
     (if 0 \<le> num \<and> num < int (length (gdt s))
      then Inr (s\<lparr>gdt := (gdt s)[nat num := gdt_entry base limit acc gran]\<rparr>)
      else Inl (Out_of_bounds, s))"

text \<open>
  \<open>s_setgdt\<close> stores \<open>gdtr\<close> again, loads it, and reloads the segment registers: the data ones with
  selector 0x10, the code segment by a far return to selector 0x08. \<open>s_settss\<close> loads selector 0x28.
\<close>

definition s_setgdt :: "u32 \<Rightarrow> u64 \<Rightarrow> kernel \<Rightarrow> kernel" where
  "s_setgdt limit base s =
     (let s = s\<lparr>gdtr := \<lparr>gdtr_limit_low = ucast limit, gdtr_base = base\<rparr>\<rparr>
      in emit (Load_Segments 0x10 0x08) (emit (Lgdt (gdtr_limit_low (gdtr s)) (gdtr_base (gdtr s))) s))"

definition s_settss :: "kernel \<Rightarrow> kernel" where
  "s_settss = emit (Ltr 0x28)"

definition gdt_init :: "u64 \<Rightarrow> u64 \<Rightarrow> kernel \<Rightarrow> failure + kernel" where
  "gdt_init gdt_addr tss_addr s =
     (let s = s\<lparr>gdtr := \<lparr>gdtr_limit_low = of_nat (sizeof_gdtdesc * GDTSEGMENTS) - 1, gdtr_base = gdt_addr\<rparr>\<rparr>;
          s = snd (memset tss_addr 0 sizeof_tssdesc s)
      in sbind (gdt_set_entry 0 0 0 0 0 s) (\<lambda>s.
         sbind (gdt_set_entry 1 0 0xFFFFF 0x9A 0xA s) (\<lambda>s.
         sbind (gdt_set_entry 2 0 0xFFFFF 0x92 0xA s) (\<lambda>s.
         sbind (gdt_set_entry 3 0 0xFFFFF 0xFA 0xA s) (\<lambda>s.
         sbind (gdt_set_entry 4 0 0xFFFFF 0xF2 0xA s) (\<lambda>s.
         sbind (gdt_set_entry 5 tss_addr sizeof_tssdesc 0x89 0x0 s) (\<lambda>s.
         Inr (s_settss (s_setgdt (ucast (gdtr_limit_low (gdtr s))) (gdtr_base (gdtr s)) s)))))))))"

section \<open>Reading a descriptor\<close>

text \<open>The fields of the eight bytes, as the processor decodes them.\<close>

definition descriptor_base :: "gdtdesc \<Rightarrow> u64" where
  "descriptor_base d = ucast (base_low d) OR push_bit 16 (ucast (base_middle d)) OR push_bit 24 (ucast (base_high d))"

definition descriptor_limit :: "gdtdesc \<Rightarrow> u64" where
  "descriptor_limit d = ucast (limit_low d) OR push_bit 16 (ucast (granularity d AND 0x0F))"

definition descriptor_flags :: "gdtdesc \<Rightarrow> u8" where
  "descriptor_flags d = drop_bit 4 (granularity d)"

text \<open>A system descriptor of long mode is two entries; the second has the upper half of the base.\<close>

definition tss_base :: "gdtdesc list \<Rightarrow> u64" where
  "tss_base ds = descriptor_base (ds ! 5) OR push_bit 32 (ucast (limit_low (ds ! 6)) OR push_bit 16 (ucast (base_low (ds ! 6))))"

text \<open>The simplifier moves bits of word numerals to the integers.\<close>

lemma int_mask_bits:
  "bit (15 :: int) n \<longleftrightarrow> n < 4" "bit (255 :: int) n \<longleftrightarrow> n < 8" "bit (65535 :: int) n \<longleftrightarrow> n < 16"
  "bit (240 :: int) n \<longleftrightarrow> 4 \<le> n \<and> n < 8"
proof -
  have "(15 :: int) = mask 4" "(255 :: int) = mask 8" "(65535 :: int) = mask 16" by (simp_all add: mask_eq_exp_minus_1)
  then show "bit (15 :: int) n \<longleftrightarrow> n < 4" "bit (255 :: int) n \<longleftrightarrow> n < 8" "bit (65535 :: int) n \<longleftrightarrow> n < 16"
    by (simp_all only: bit_mask_iff) auto
  have "(240 :: int) = push_bit 4 (mask 4)" by (simp add: mask_eq_exp_minus_1)
  then show "bit (240 :: int) n \<longleftrightarrow> 4 \<le> n \<and> n < 8" by (simp only: bit_push_bit_iff bit_mask_iff) auto
qed

lemma gdt_entry_base: "descriptor_base (gdt_entry b l a g) = take_bit 32 b"
proof (rule bit_word_eqI)
  fix n :: nat
  assume "n < LENGTH(64)"
  consider "n < 16" | "16 \<le> n" "n < 24" | "24 \<le> n" by linarith
  then show "bit (descriptor_base (gdt_entry b l a g)) n = bit (take_bit 32 b) n"
    by cases (auto simp: descriptor_base_def gdt_entry_def bit_simps int_mask_bits)
qed

lemma gdt_entry_limit: "descriptor_limit (gdt_entry b l a g) = take_bit 20 l"
proof (rule bit_word_eqI)
  fix n :: nat
  assume "n < LENGTH(64)"
  consider "n < 16" | "16 \<le> n" "n < 20" | "20 \<le> n" by linarith
  then show "bit (descriptor_limit (gdt_entry b l a g)) n = bit (take_bit 20 l) n"
    by cases (auto simp: descriptor_limit_def gdt_entry_def bit_simps int_mask_bits)
qed

lemma gdt_entry_flags: "descriptor_flags (gdt_entry b l a g) = take_bit 4 g"
  by (intro bit_word_eqI) (auto simp: descriptor_flags_def gdt_entry_def bit_simps int_mask_bits)

section \<open>The table after \<open>gdt_init\<close>\<close>

text \<open>The eight bytes of a descriptor as the processor loads them.\<close>

definition descriptor_word :: "gdtdesc \<Rightarrow> u64" where
  "descriptor_word d = ucast (limit_low d) OR push_bit 16 (ucast (base_low d)) OR push_bit 32 (ucast (base_middle d)) OR
     push_bit 40 (ucast (access d)) OR push_bit 48 (ucast (granularity d)) OR push_bit 56 (ucast (base_high d))"

lemma segment_words:
  "descriptor_word (gdt_entry 0 0 0 0) = 0"
  "descriptor_word (gdt_entry 0 0xFFFFF 0x9A 0xA) = 0x00AF9A000000FFFF"
  "descriptor_word (gdt_entry 0 0xFFFFF 0x92 0xA) = 0x00AF92000000FFFF"
  "descriptor_word (gdt_entry 0 0xFFFFF 0xFA 0xA) = 0x00AFFA000000FFFF"
  "descriptor_word (gdt_entry 0 0xFFFFF 0xF2 0xA) = 0x00AFF2000000FFFF"
  by code_simp+

lemma gdt_init_ok:
  assumes "length (gdt s) = 7"
  shows "\<exists>t. gdt_init gdt_addr tss_addr s = Inr t \<and> io t = io s @ [Lgdt 55 gdt_addr, Load_Segments 0x10 0x08, Ltr 0x28] \<and>
    gdtr t = \<lparr>gdtr_limit_low = 55, gdtr_base = gdt_addr\<rparr> \<and>
    gdt t = [gdt_entry 0 0 0 0, gdt_entry 0 0xFFFFF 0x9A 0xA, gdt_entry 0 0xFFFFF 0x92 0xA,
      gdt_entry 0 0xFFFFF 0xFA 0xA, gdt_entry 0 0xFFFFF 0xF2 0xA, gdt_entry tss_addr sizeof_tssdesc 0x89 0, gdt s ! 6] \<and>
    phys t = phys (snd (memset tss_addr 0 sizeof_tssdesc s)) \<and>
    t = s\<lparr>phys := phys t, gdt := gdt t, gdtr := gdtr t, io := io t\<rparr>"
proof -
  define s0 where "s0 = s\<lparr>gdtr := \<lparr>gdtr_limit_low = 55, gdtr_base = gdt_addr\<rparr>\<rparr>"
  obtain m where m: "snd (memset tss_addr 0 sizeof_tssdesc s0) = s0\<lparr>phys := m\<rparr>"
    using memset_mem_only [of s0 tss_addr 0 sizeof_tssdesc] unfolding mem_only_def by blast
  have "phys (snd (memset tss_addr 0 sizeof_tssdesc s0)) = phys (snd (memset tss_addr 0 sizeof_tssdesc s))"
    by (simp add: memset_def memset_loop_phys s0_def cong: if_cong)
  then have "phys (snd (memset tss_addr 0 sizeof_tssdesc s)) = m" by (simp add: m)
  moreover obtain a0 a1 a2 a3 a4 a5 a6 where "gdt s = [a0, a1, a2, a3, a4, a5, a6]"
    using assms by (auto simp: length_Suc_conv numeral_eq_Suc)
  moreover have "(of_nat (sizeof_gdtdesc * GDTSEGMENTS) - 1 :: u16) = 55"
    by (simp add: sizeof_gdtdesc_at GDTSEGMENTS_def)
  ultimately show ?thesis
    using m by (simp add: gdt_init_def gdt_set_entry_def s_setgdt_def s_settss_def emit_def Let_def flip: s0_def)
      (simp add: s0_def)
qed

section \<open>Properties\<close>

text \<open>
  C20. gdt_set_entry writes the descriptor it is asked for: the processor reads back the base
  modulo 2^32, the limit modulo 2^20, the access byte and the low four flag bits, no other
  entry changes, and a number outside the array is caught as an access out of bounds.
\<close>

theorem gdt_set_entry_decodes:
  "case gdt_set_entry num b l a g s of
     Inl (f, t) \<Rightarrow> (num < 0 \<or> int (length (gdt s)) \<le> num) \<and> f = Out_of_bounds \<and> t = s
   | Inr t \<Rightarrow> 0 \<le> num \<and> num < int (length (gdt s)) \<and> descriptor_base (gdt t ! nat num) = take_bit 32 b \<and>
       descriptor_limit (gdt t ! nat num) = take_bit 20 l \<and> access (gdt t ! nat num) = a \<and>
       descriptor_flags (gdt t ! nat num) = take_bit 4 g \<and> (\<forall>k. k \<noteq> nat num \<longrightarrow> gdt t ! k = gdt s ! k)"
  by (auto simp: gdt_set_entry_def gdt_entry_base gdt_entry_limit gdt_entry_flags nat_less_iff)
    (auto simp: gdt_entry_def nat_less_iff)

lemma gdt_set_entry_decodes_witness:
  "\<exists>t. gdt_set_entry 2 0x12345678 0xABCDE 0x92 0xA quiet_kernel = Inr t \<and>
     descriptor_base (gdt t ! 2) = 0x12345678 \<and> descriptor_limit (gdt t ! 2) = 0xABCDE"
proof -
  have q: "length (gdt quiet_kernel) = 7" by (simp add: quiet_kernel_def initial_kernel_def)
  have "take_bit 32 (0x12345678 :: u64) = 0x12345678" "take_bit 20 (0xABCDE :: u64) = 0xABCDE" by code_simp+
  then show ?thesis
    using gdt_set_entry_decodes [where num = 2 and s = quiet_kernel and b = "0x12345678" and l = "0xABCDE" and a = "0x92" and g = "0xA"] q
    by (auto split: sum.splits)
qed

text \<open>
  C21. gdt_init loads a table whose null, kernel code and data, and user code and data
  descriptors are the long-mode ones the selectors 0x08 to 0x20 stand for, with the limit of
  seven entries, then reloads the segment registers with the kernel's selectors 0x10 and 0x08, and
  then loads the task register with selector 0x28.
\<close>

theorem gdt_init_loads_segments:
  assumes "length (gdt s) = 7"
  shows "\<exists>t. gdt_init gdt_addr tss_addr s = Inr t \<and> io t = io s @ [Lgdt 55 gdt_addr, Load_Segments 0x10 0x08, Ltr 0x28] \<and>
    map descriptor_word (take 5 (gdt t)) =
      [0, 0x00AF9A000000FFFF, 0x00AF92000000FFFF, 0x00AFFA000000FFFF, 0x00AFF2000000FFFF]"
  using gdt_init_ok [OF assms, of gdt_addr tss_addr] segment_words by auto

lemma gdt_init_loads_segments_witness:
  "\<exists>t. gdt_init 0xffffffff80010000 0xffffffff80011000 quiet_kernel = Inr t \<and> length (io t) = 3"
proof -
  have q: "length (gdt quiet_kernel) = 7" by (simp add: quiet_kernel_def initial_kernel_def)
  show ?thesis
    using gdt_init_loads_segments [OF q, of "0xffffffff80010000" "0xffffffff80011000"] by fastforce
qed

text \<open>
  gdt_init writes only the first half of the 16-byte TSS descriptor: from the zeroed table
  the processor computes the task state's address modulo 2^32, so a task state in the higher
  half of the address space, where the kernel is linked, is not the one loaded.
\<close>

theorem gdt_init_tss_truncated:
  assumes "length (gdt s) = 7" "gdt s ! 6 = zero_gdtdesc" "gdt_init gdt_addr tss_addr s = Inr t"
  shows "tss_base (gdt t) = take_bit 32 tss_addr"
  using gdt_init_ok [OF assms(1), of gdt_addr tss_addr] assms(2,3)
  by (auto simp: tss_base_def gdt_entry_base zero_gdtdesc_def)

lemma gdt_init_tss_truncated_witness:
  "\<exists>t. gdt_init 0xffffffff80010000 0xffffffff80011000 quiet_kernel = Inr t \<and> tss_base (gdt t) = 0x80011000"
proof -
  have q: "length (gdt quiet_kernel) = 7" "gdt quiet_kernel ! 6 = zero_gdtdesc"
    by (simp_all add: quiet_kernel_def initial_kernel_def)
  obtain t where t: "gdt_init 0xffffffff80010000 0xffffffff80011000 quiet_kernel = Inr t"
    using gdt_init_ok [OF q(1)] by blast
  have "take_bit 32 (0xffffffff80011000 :: u64) = 0x80011000" by code_simp
  then show ?thesis using gdt_init_tss_truncated [OF q t] t by auto
qed

end
