(* ===== verification/Lapic.thy ===== *)
theory Lapic
  imports Printf
begin

text \<open>
  The local APIC part of \<open>kern/sys/acpi/apic.c\<close>: register access, the end-of-interrupt, the
  timer interrupt and the busy wait on its tick counter. Reads go to the physical address,
  writes through the direct map, as the two functions of the code do.
\<close>

section \<open>The functions\<close>

definition LAPIC_EOI_REG :: u32 where "LAPIC_EOI_REG = 0xB0"
definition LAPIC_SIVR_REG :: u32 where "LAPIC_SIVR_REG = 0xF0"
definition LAPIC_ICR_LOW :: u32 where "LAPIC_ICR_LOW = 0x300"
definition LAPIC_ICR_HIGH :: u32 where "LAPIC_ICR_HIGH = 0x310"
definition LAPIC_TIMERDIV_REG :: u32 where "LAPIC_TIMERDIV_REG = 0x3E0"
definition LAPIC_LVTTIMER_REG :: u32 where "LAPIC_LVTTIMER_REG = 0x320"
definition LAPIC_INITCNT_REG :: u32 where "LAPIC_INITCNT_REG = 0x380"
definition LAPIC_CURCNT_REG :: u32 where "LAPIC_CURCNT_REG = 0x390"
definition LAPIC_PERIODIC :: u32 where "LAPIC_PERIODIC = 0x20000"
definition LAPIC_EOI_COMMAND :: u32 where "LAPIC_EOI_COMMAND = 0x0"

definition apic_read :: "u64 \<Rightarrow> u32 \<Rightarrow> kernel \<Rightarrow> u32 \<times> kernel" where
  "apic_read apic_base reg = mmio_read (apic_base + ucast reg)"

definition apic_write :: "u64 \<Rightarrow> u32 \<Rightarrow> u32 \<Rightarrow> kernel \<Rightarrow> kernel" where
  "apic_write apic_base reg data s = emit (Mmio_Write (apic_base + ucast reg + hhdmoffset s) data) s"

definition apic_send_interrupt :: "u64 \<Rightarrow> u8 \<Rightarrow> u8 \<Rightarrow> kernel \<Rightarrow> kernel" where
  "apic_send_interrupt apic_base apic vector s =
     apic_write apic_base LAPIC_ICR_LOW (ucast vector)
       (apic_write apic_base LAPIC_ICR_HIGH (push_bit 24 (ucast apic)) s)"

definition apic_eoi :: "kernel \<Rightarrow> kernel" where
  "apic_eoi s = apic_write (lapic_address s) LAPIC_EOI_REG LAPIC_EOI_COMMAND s"

definition apic_timer :: "kernel \<Rightarrow> kernel" where
  "apic_timer s = apic_eoi (s\<lparr>apic_timer_ticks := apic_timer_ticks s + 1\<rparr>)"

text \<open>
  The busy wait. \<open>irqs i\<close> is the number of timer interrupts that arrive between the \<open>i\<close>-th
  test of the loop and the next; \<open>int curcnt\<close> keeps 32 bits of the counter and is
  sign-extended in the comparison, as \<open>ms\<close> is.
\<close>

partial_function (option) apic_sleep_loop ::
  "(nat \<Rightarrow> nat) \<Rightarrow> i32 \<Rightarrow> i32 \<Rightarrow> nat \<Rightarrow> kernel \<Rightarrow> kernel option" where
  "apic_sleep_loop irqs curcnt ms i s =
     (if apic_timer_ticks s - scast curcnt < scast ms
      then apic_sleep_loop irqs curcnt ms (Suc i) ((apic_timer ^^ irqs i) s)
      else Some s)"

definition apic_sleep :: "(nat \<Rightarrow> nat) \<Rightarrow> i32 \<Rightarrow> kernel \<Rightarrow> kernel option" where
  "apic_sleep irqs ms s = apic_sleep_loop irqs (ucast (apic_timer_ticks s)) ms 0 s"

text \<open>The wrapper in \<open>kern/include/io.c\<close>.\<close>

definition sleep :: "(nat \<Rightarrow> nat) \<Rightarrow> i32 \<Rightarrow> kernel \<Rightarrow> kernel option" where
  "sleep irqs ms = apic_sleep irqs ms"

section \<open>Lemmas\<close>

definition eoi_event :: "kernel \<Rightarrow> io_event" where
  "eoi_event s = Mmio_Write (lapic_address s + 0xB0 + hhdmoffset s) 0"

lemma apic_eoi_emit: "apic_eoi s = emit (eoi_event s) s"
  by (simp add: apic_eoi_def apic_write_def eoi_event_def LAPIC_EOI_REG_def LAPIC_EOI_COMMAND_def)

lemma apic_timers:
  "(apic_timer ^^ n) s = s\<lparr>apic_timer_ticks := apic_timer_ticks s + of_nat n, io := io s @ replicate n (eoi_event s)\<rparr>"
proof (induction n)
  case (Suc n)
  then show ?case
    by (simp add: apic_timer_def apic_eoi_emit emit_def eoi_event_def replicate_append_same algebra_simps)
qed simp

lemma scast_nonneg: "0 \<le> sint x \<Longrightarrow> unat (scast x :: u64) = nat (sint x)" for x :: i32
proof -
  assume "0 \<le> sint x"
  moreover have "sint x < 2 ^ 31" using sint_lt [of x] by simp
  ultimately have "take_bit 64 (sint x) = sint x" by (intro take_bit_int_eq_self) auto
  then have "unat (word_of_int (sint x) :: u64) = nat (sint x)" by (simp only: unsigned_of_int) simp
  then show ?thesis by simp
qed

text \<open>The interrupts that have arrived before the \<open>i\<close>-th test.\<close>

definition arrived :: "(nat \<Rightarrow> nat) \<Rightarrow> nat \<Rightarrow> nat" where
  "arrived irqs i = sum irqs {..<i}"

lemma arrived_simps [simp]: "arrived irqs 0 = 0" "arrived irqs (Suc i) = arrived irqs i + irqs i"
  by (simp_all add: arrived_def)

lemma arrived_mono: "i \<le> j \<Longrightarrow> arrived irqs i \<le> arrived irqs j"
  by (induction j) (auto simp: le_Suc_eq)

lemma arrived_unbounded:
  assumes "\<forall>i. \<exists>j \<ge> i. 0 < irqs j"
  shows "\<exists>i. n \<le> arrived irqs i"
proof (induction n)
  case (Suc n)
  then obtain i where i: "n \<le> arrived irqs i" by blast
  obtain j where j: "i \<le> j" "0 < irqs j" using assms by blast
  have "arrived irqs i \<le> arrived irqs j" using j(1) by (rule arrived_mono)
  then have "Suc n \<le> arrived irqs (Suc j)" using i j(2) by simp
  then show ?case by blast
qed simp

text \<open>Below 2^31 ticks nothing is lost in the conversions, and the loop counts the interrupts.\<close>

text \<open>A counter below 2^31 survives the copy into an \<open>int\<close>.\<close>

lemma tick_copy:
  fixes T :: u64
  assumes "unat T < 2 ^ 31"
  shows "scast (ucast T :: i32) = T"
proof -
  have u: "(ucast T :: i32) = of_nat (unat T)" by simp
  have "sint (ucast T :: i32) = int (unat T)"
    unfolding u by (rule sint_of_nat_i32 [OF assms])
  then have "unat (scast (ucast T :: i32) :: u64) = unat T" using scast_nonneg [of "ucast T :: i32"] by simp
  then show ?thesis by (simp only: word_unat_eq_iff)
qed

lemma sleep_test:
  fixes T :: u64 and ms :: i32
  assumes "unat T < 2 ^ 31" "0 \<le> sint ms" "a < 2 ^ 63"
  shows "(T + of_nat a - scast (ucast T :: i32) < scast ms) = (a < nat (sint ms))"
  using scast_nonneg [OF assms(2)] assms(3) unfolding tick_copy [OF assms(1)]
  by (simp add: word_less_nat_alt unat_of_nat_u64)

lemma apic_sleep_loop_counts:
  assumes T: "unat T < 2 ^ 31" "0 \<le> sint ms" and n: "nat (sint ms) \<le> arrived irqs n"
    "\<forall>i < n. arrived irqs i < nat (sint ms)" and small: "\<forall>i. irqs i < 2 ^ 32"
  shows "i \<le> n \<Longrightarrow> apic_timer_ticks s = T + of_nat (arrived irqs i) \<Longrightarrow>
    apic_sleep_loop irqs (ucast T) ms i s = Some ((apic_timer ^^ (arrived irqs n - arrived irqs i)) s)"
proof (induction "n - i" arbitrary: i s)
  case 0
  then have i: "i = n" by simp
  have "arrived irqs n < 2 ^ 63"
  proof (cases n)
    case (Suc m)
    have "nat (sint ms) < 2 ^ 31" using sint_lt [of ms] by simp
    moreover have "arrived irqs m < nat (sint ms)" "irqs m < 2 ^ 32" using n(2) small Suc by auto
    ultimately show ?thesis by (simp add: Suc)
  qed simp
  then show ?case
    using sleep_test [OF T, of "arrived irqs n"] n(1) 0(3) i by (subst apic_sleep_loop.simps) simp
next
  case (Suc k)
  then have i: "i < n" by simp
  have ms: "nat (sint ms) < 2 ^ 31" using sint_lt [of ms] by simp
  then have lt: "arrived irqs i < nat (sint ms)" "arrived irqs i < 2 ^ 63" using n(2) i by (auto intro: less_trans)
  let ?s = "(apic_timer ^^ irqs i) s"
  have "apic_timer_ticks ?s = T + of_nat (arrived irqs (Suc i))" using Suc.prems(2) by (simp add: apic_timers)
  then have "apic_sleep_loop irqs (ucast T) ms (Suc i) ?s = Some ((apic_timer ^^ (arrived irqs n - arrived irqs (Suc i))) ?s)"
    using i Suc.hyps(2) by (intro Suc.hyps(1)) auto
  moreover have "arrived irqs n - arrived irqs i = (arrived irqs n - arrived irqs (Suc i)) + irqs i"
    using arrived_mono [of "Suc i" n irqs] i by simp
  ultimately show ?case
    using sleep_test [OF T lt(2)] lt(1) Suc.prems(2) by (subst apic_sleep_loop.simps) (simp add: funpow_add)
qed

lemma apic_sleep_result:
  assumes "unat (apic_timer_ticks s) < 2 ^ 31" "0 \<le> sint ms"
    and "\<forall>i. \<exists>j \<ge> i. 0 < irqs j" "\<forall>i. irqs i < 2 ^ 32"
  shows "\<exists>n. apic_sleep irqs ms s = Some ((apic_timer ^^ arrived irqs n) s) \<and>
    nat (sint ms) \<le> arrived irqs n \<and> (\<forall>i < n. arrived irqs i < nat (sint ms))"
proof -
  define n where "n = (LEAST i. nat (sint ms) \<le> arrived irqs i)"
  have ex: "\<exists>i. nat (sint ms) \<le> arrived irqs i" using arrived_unbounded [OF assms(3)] by blast
  have n: "nat (sint ms) \<le> arrived irqs n" "\<forall>i < n. arrived irqs i < nat (sint ms)"
    using LeastI_ex [OF ex] not_less_Least [of _ "\<lambda>i. nat (sint ms) \<le> arrived irqs i"] by (auto simp: n_def not_le)
  then show ?thesis
    using apic_sleep_loop_counts [OF assms(1,2) n assms(4), of 0 s] by (auto simp: apic_sleep_def)
qed

section \<open>Properties\<close>

text \<open>
  C22. While the tick counter is below 2^31, apic_sleep returns as soon as, and not before, the
  timer interrupts asked for have arrived: with interrupts arriving for ever it returns after
  the first test that has seen at least ms of them, the counter having moved by exactly the
  interrupts that arrived, each acknowledged once.
\<close>

theorem apic_sleep_waits:
  assumes "unat (apic_timer_ticks s) < 2 ^ 31" "0 \<le> sint ms"
    and "\<forall>i. \<exists>j \<ge> i. 0 < irqs j" "\<forall>i. irqs i < 2 ^ 32"
  shows "\<exists>n t. apic_sleep irqs ms s = Some t \<and> nat (sint ms) \<le> arrived irqs n \<and>
    (\<forall>i < n. arrived irqs i < nat (sint ms)) \<and>
    apic_timer_ticks t = apic_timer_ticks s + of_nat (arrived irqs n) \<and>
    io t = io s @ replicate (arrived irqs n) (eoi_event s)"
  using apic_sleep_result [OF assms] by (auto simp: apic_timers)

lemma apic_sleep_waits_witness:
  "\<exists>t. apic_sleep (\<lambda>_. 1) 2 quiet_kernel = Some t \<and> apic_timer_ticks t = 2"
proof -
  have a: "arrived (\<lambda>_. 1) i = i" for i by (simp add: arrived_def)
  have t0: "apic_timer_ticks quiet_kernel = 0" by (simp add: quiet_kernel_def initial_kernel_def)
  have ms: "nat (sint (2 :: i32)) = 2" by simp
  have h: "unat (apic_timer_ticks quiet_kernel) < 2 ^ 31" "0 \<le> sint (2 :: i32)"
    "\<forall>i. \<exists>j \<ge> i. 0 < (\<lambda>_. 1 :: nat) (j :: nat)" "\<forall>i. (\<lambda>_. 1 :: nat) (i :: nat) < 2 ^ 32"
    by (simp add: t0) (simp, meson zero_less_one order_refl, simp)
  obtain n t where t: "apic_sleep (\<lambda>_. 1) 2 quiet_kernel = Some t" "2 \<le> n" "\<forall>i < n. i < 2"
    "apic_timer_ticks t = 0 + of_nat n"
    using apic_sleep_waits [OF h] unfolding a t0 ms by (elim exE conjE) (rule that)
  have "n - 1 < 2" using t(2,3) by simp
  then have "n = 2" using t(2) by simp
  then show ?thesis using t by auto
qed

text \<open>
  C38. From 2^31 ticks on, until the last 2^31 values of the 64-bit counter, apic_sleep does not
  wait: the counter is truncated to an int when it is saved, the difference the loop tests is never
  below the request, and the function returns at its first test whatever time is asked for, as
  long as the request is not negative.
\<close>

theorem apic_sleep_returns_at_once:
  assumes "2 ^ 31 \<le> unat (apic_timer_ticks s)" "unat (apic_timer_ticks s) < 2 ^ 64 - 2 ^ 31" "0 \<le> sint ms"
  shows "apic_sleep irqs ms s = Some s"
proof -
  define T where "T = apic_timer_ticks s"
  define c where "c = sint (ucast T :: i32)"
  have c: "- (2 ^ 31) \<le> c" "c < 2 ^ 31" using sint_ge [of "ucast T :: i32"] sint_lt [of "ucast T :: i32"] by (simp_all add: c_def)
  have "uint T = int (unat T)" by simp
  moreover have "int (2 ^ 31) \<le> int (unat T)" "int (unat T) < int (2 ^ 64 - 2 ^ 31)"
    using assms(1,2) by (simp_all only: T_def of_nat_le_iff of_nat_less_iff)
  ultimately have T: "2 ^ 31 \<le> uint T" "uint T < 2 ^ 64 - 2 ^ 31" by simp_all
  have "(ucast T :: i32) = of_int (uint T)" by simp
  then have "c = signed_take_bit 31 (uint T)" unfolding c_def by (simp only: signed_of_int) simp
  then have "take_bit 32 c = take_bit 32 (uint T)" by (simp add: take_bit_signed_take_bit)
  then have "2 ^ 32 dvd uint T - c" by (simp add: take_bit_eq_mod mod_eq_dvd_iff dvd_diff_commute)
  moreover have "0 < uint T - c" using T c by linarith
  ultimately have big: "2 ^ 32 \<le> uint T - c" by (rule zdvd_imp_le)
  have "T - scast (ucast T :: i32) = word_of_int (uint T - c)" by (simp add: c_def)
  then have "uint (T - scast (ucast T :: i32)) = uint T - c"
    using big T(2) c(1) by (simp only: uint_word_of_int_eq) (intro take_bit_int_eq_self, auto)
  moreover have "uint (scast ms :: u64) < 2 ^ 31"
  proof -
    have "int (unat (scast ms :: u64)) = sint ms" unfolding scast_nonneg [OF assms(3)] using assms(3) by simp
    moreover have "int (unat (scast ms :: u64)) = uint (scast ms :: u64)" by simp
    moreover have "sint ms < 2 ^ 31" using sint_lt [of ms] by simp
    ultimately show ?thesis by linarith
  qed
  ultimately have "\<not> T - scast (ucast T :: i32) < scast ms" using big by (simp add: word_less_def)
  then show ?thesis by (simp add: apic_sleep_def apic_sleep_loop.simps T_def)
qed

lemma apic_sleep_returns_at_once_witness:
  "apic_sleep (\<lambda>_. 1) 2 (quiet_kernel\<lparr>apic_timer_ticks := 0x80000000\<rparr>) = Some (quiet_kernel\<lparr>apic_timer_ticks := 0x80000000\<rparr>)"
  by (rule apic_sleep_returns_at_once) simp_all

end
