(* ===== verification/Ps2.thy ===== *)
theory Ps2
  imports Lapic
begin

text \<open>
  \<open>kern/sys/ps2/ps2.c\<close>: the PS/2 keyboard driver. Its initialisation drains the controller's
  buffer, a loop that ends only when the device says so; the interrupt handler is a small state
  machine, specified by the step relation \<open>kb_step\<close> over the three modes of the keyboard.
\<close>

section \<open>The functions\<close>

definition PS2_DATA_PORT :: u16 where "PS2_DATA_PORT = 0x60"
definition PS2_STATUS_REG :: u16 where "PS2_STATUS_REG = 0x64"
definition PS2_COMMAND_REG :: u16 where "PS2_COMMAND_REG = 0x64"
definition NORMAL_STATE :: i32 where "NORMAL_STATE = 0x00"
definition SHIFT_STATE :: i32 where "SHIFT_STATE = 0x01"
definition CAPS_STATE :: i32 where "CAPS_STATE = 0x02"
definition LEFT_SHIFT_PRESSED :: u16 where "LEFT_SHIFT_PRESSED = 0x2A"
definition LEFT_SHIFT_RELEASED :: u16 where "LEFT_SHIFT_RELEASED = 0xAA"
definition CAPS_LOCK_PRESSED :: u16 where "CAPS_LOCK_PRESSED = 0x3A"

text \<open>\<open>while(j != 0)\<close>: read the data port, then bit 1 of the status.\<close>

partial_function (option) ps2_clear :: "u16 \<Rightarrow> kernel \<Rightarrow> (u16 \<times> kernel) option" where
  "ps2_clear j s =
     (if j \<noteq> 0
      then let s = snd (inb PS2_DATA_PORT s);
               status = fst (inb PS2_STATUS_REG s);
               s = snd (inb PS2_STATUS_REG s)
           in ps2_clear (ucast (drop_bit 1 (ucast status :: i32) AND 1)) s
      else Some (j, s))"

definition ps2_unexpected :: string where
  "ps2_unexpected = ''ps2: unexpected reply for test: '' @ CHR 0x27 # ''0x{x}'' @ CHR 0x27 # ''{n}''"

definition ps2_test_reply :: "u16 \<Rightarrow> kernel \<Rightarrow> failure + kernel" where
  "ps2_test_reply data s =
     (if data = 0x55 then printf ''ps2: PS/2 controller test passed{n}'' [] s
      else if data = 0xFC then
        sbind (log_err ''PS/2 controller test failed'' s)
          (printf ''ps2: test failed, the PS/2 keyboard might not work.{n}'' [])
      else printf ps2_unexpected [VWord (ucast data)] s)"

definition ps2_init :: "kernel \<Rightarrow> (failure + kernel) option" where
  "ps2_init s =
     (let s = outb PS2_COMMAND_REG 0xAD s;
          s = outb PS2_COMMAND_REG 0xA7 s
      in case ps2_clear 1 s of None \<Rightarrow> None | Some (j, s) \<Rightarrow>
         obind (Some (printf ''ps2: starting PS/2 controller test{n}'' [] s)) (\<lambda>s.
         let s = outb PS2_COMMAND_REG 0xAA s;
             data = ucast (fst (inb PS2_DATA_PORT s)) :: u16;
             s = snd (inb PS2_DATA_PORT s)
         in obind (Some (ps2_test_reply data s)) (\<lambda>s.
            obind (Some (printf ''ps2: assuming US QWERTY layout, scan code 1. other layouts not supported{n}'' [] s)) (\<lambda>s.
            case ps2_clear j s of None \<Rightarrow> None | Some (_, s) \<Rightarrow>
            Some (Inr (outb PS2_COMMAND_REG 0xAE s))))))"

definition ascii_table :: string where
  "ascii_table =
     [CHR 0x00, CHR 0x00] @ ''12'' @
     ''3456'' @
     ''7890'' @
     ''-='' @ [CHR 0x00, CHR 0x00] @
     ''qwer'' @
     ''tyui'' @
     ''op[]'' @
     [CHR 0x00, CHR 0x00] @ ''as'' @
     ''dfgh'' @
     ''jkl;'' @
     [CHR 0x27, CHR 0x60, CHR 0x00, CHR 0x5C] @
     ''zxcv'' @
     ''bnm,'' @
     ''./'' @ [CHR 0x00] @ ''*'' @
     [CHR 0x00] @ '' ''"

definition ps2_translate2ascii :: "u16 \<Rightarrow> kernel \<Rightarrow> failure + (char \<times> kernel)" where
  "ps2_translate2ascii scancode s =
     (if scancode > 0x58 then Inr (CHR 0x00, s)
      else if scancode = LEFT_SHIFT_PRESSED \<and> keyboard_state s \<noteq> CAPS_STATE
      then Inr (CHR 0x00, s\<lparr>keyboard_state := SHIFT_STATE\<rparr>)
      else if scancode = CAPS_LOCK_PRESSED \<and> keyboard_state s = NORMAL_STATE
      then Inr (CHR 0x00, s\<lparr>keyboard_state := CAPS_STATE\<rparr>)
      else if scancode = CAPS_LOCK_PRESSED \<and> keyboard_state s = SHIFT_STATE
      then Inr (CHR 0x00, s\<lparr>keyboard_state := CAPS_STATE\<rparr>)
      else if \<not> unat scancode < length ascii_table then Inl (Out_of_bounds, s)
      else if ascii_table ! unat scancode = CHR 0x00 then Inr (CHR 0x00, s)
      else if keyboard_state s = SHIFT_STATE \<or> keyboard_state s = CAPS_STATE
      then Inr (toupper (ascii_table ! unat scancode), s)
      else Inr (ascii_table ! unat scancode, s))"

definition ps2_handler :: "kernel \<Rightarrow> failure + kernel" where
  "ps2_handler s =
     (let scancode = ucast (fst (inb PS2_DATA_PORT s)) :: u16;
          s = snd (inb PS2_DATA_PORT s);
          s = (if scancode = LEFT_SHIFT_RELEASED \<and> keyboard_state s \<noteq> CAPS_STATE
               then s\<lparr>keyboard_state := NORMAL_STATE\<rparr> else s)
      in if keyboard_state s = CAPS_STATE \<and> scancode = CAPS_LOCK_PRESSED
         then Inr (apic_eoi (s\<lparr>keyboard_state := NORMAL_STATE\<rparr>))
         else sbind (ps2_translate2ascii scancode s) (\<lambda>(character, s).
              if character = CHR 0x00 then Inr (apic_eoi s)
              else sbind (printf ''{c}'' [VWord (of_nat (of_char character))] s) (\<lambda>s.
                   Inr (apic_eoi s))))"

section \<open>The keyboard as a state machine\<close>

text \<open>
  The specification: three modes, what each scan code does in each of them, and the layout of
  the keys given row by row. \<open>capital\<close> leaves \<open>q\<close> as it is, as the \<open>toupper\<close> of the kernel does.
\<close>

datatype kmode = Lower | Shift_Held | Caps_On

definition key_rows :: "(nat \<times> string) list" where
  "key_rows =
     [(2, ''1234567890-=''), (16, ''qwertyuiop[]''), (30, ''asdfghjkl;'' @ [CHR 0x27, CHR 0x60]),
      (43, CHR 0x5C # ''zxcvbnm,./''), (55, ''*''), (57, '' '')]"

definition key_at :: "u8 \<Rightarrow> char option" where
  "key_at code =
     map_of (concat (map (\<lambda>(first, keys). zip [first..<first + length keys] keys) key_rows)) (unat code)"

definition capital :: "char \<Rightarrow> char" where
  "capital c = (if c \<in> set ''abcdefghijklmnoprstuvwxyz'' then char_of (of_char c - 32 :: nat) else c)"

definition beyond_table :: "u8 \<Rightarrow> bool" where
  "beyond_table code \<longleftrightarrow> 0x3B \<le> code \<and> code \<le> 0x58"

inductive kb_step :: "kmode \<Rightarrow> u8 \<Rightarrow> string \<Rightarrow> kmode \<Rightarrow> bool" where
  shift_down: "m \<noteq> Caps_On \<Longrightarrow> kb_step m 0x2A [] Shift_Held"
| shift_up: "m \<noteq> Caps_On \<Longrightarrow> kb_step m 0xAA [] Lower"
| caps_on: "m \<noteq> Caps_On \<Longrightarrow> kb_step m 0x3A [] Caps_On"
| caps_off: "kb_step Caps_On 0x3A [] Lower"
| caps_shift: "code = 0x2A \<or> code = 0xAA \<Longrightarrow> kb_step Caps_On code [] Caps_On"
| key: "key_at code = Some c \<Longrightarrow> kb_step m code [if m = Lower then c else capital c] m"
| silent: "key_at code = None \<Longrightarrow> \<not> beyond_table code \<Longrightarrow> code \<notin> {0x2A, 0xAA, 0x3A} \<Longrightarrow> kb_step m code [] m"

inductive kb_run :: "kmode \<Rightarrow> u8 list \<Rightarrow> string \<Rightarrow> kmode \<Rightarrow> bool" where
  run_nil: "kb_run m [] [] m"
| run_step: "kb_step m c out m' \<Longrightarrow> kb_run m' cs outs m'' \<Longrightarrow> kb_run m (c # cs) (out @ outs) m''"

code_pred (modes: i \<Rightarrow> i \<Rightarrow> o \<Rightarrow> o \<Rightarrow> bool) kb_step .
code_pred (modes: i \<Rightarrow> i \<Rightarrow> o \<Rightarrow> o \<Rightarrow> bool) kb_run .

inductive_cases kb_step_cases: "kb_step m code out m'"
inductive_simps kb_run_simps: "kb_run m [] outs m'" "kb_run m (c # cs) outs m'"

fun mode_code :: "kmode \<Rightarrow> i32" where
  "mode_code Lower = NORMAL_STATE"
| "mode_code Shift_Held = SHIFT_STATE"
| "mode_code Caps_On = CAPS_STATE"

lemma mode_code_inj [simp]: "mode_code m = mode_code n \<longleftrightarrow> m = n"
  by (cases m; cases n) (simp_all add: NORMAL_STATE_def SHIFT_STATE_def CAPS_STATE_def)

lemma mode_code_simps [simp]:
  "mode_code m = NORMAL_STATE \<longleftrightarrow> m = Lower" "mode_code m = SHIFT_STATE \<longleftrightarrow> m = Shift_Held"
  "mode_code m = CAPS_STATE \<longleftrightarrow> m = Caps_On"
  using mode_code_inj [of m Lower] mode_code_inj [of m Shift_Held] mode_code_inj [of m Caps_On] by simp_all

lemma kb_step_fun:
  assumes "kb_step m c out m'" "kb_step m c out2 m2"
  shows "out2 = out \<and> m2 = m'"
proof -
  have special: "key_at 0x2A = None" "key_at 0xAA = None" "key_at 0x3A = None"
    by (simp_all add: key_at_def key_rows_def)
  show ?thesis using assms special by (auto elim!: kb_step_cases)
qed

lemma kb_run_fun: "kb_run m cs out m' \<Longrightarrow> kb_run m cs out2 m2 \<Longrightarrow> out2 = out \<and> m2 = m'"
proof (induction arbitrary: out2 m2 rule: kb_run.induct)
  case (run_step m c out m' cs outs m'')
  obtain o1 n o2 where o: "kb_step m c o1 n" "kb_run n cs o2 m2" "out2 = o1 @ o2"
    using run_step.prems unfolding kb_run_simps by blast
  have "o1 = out \<and> n = m'" using kb_step_fun [OF run_step.hyps(1) o(1)] .
  then show ?case using run_step.IH [of o2 m2] o by simp
qed (simp add: kb_run_simps)

section \<open>The handler implements the state machine\<close>

text \<open>What one interrupt does, besides the mode.\<close>

definition key_served :: "u8 \<Rightarrow> string \<Rightarrow> kernel \<Rightarrow> kernel \<Rightarrow> bool" where
  "key_served code out s t \<longleftrightarrow>
     t = s\<lparr>keyboard_state := keyboard_state t, console := console s @ map (\<lambda>c. [c]) out,
           io := io s @ [InB 0x60 code, eoi_event s]\<rparr>"

lemma unat_ucast_u16: "unat (ucast (c :: u8) :: u16) = unat c"
proof -
  have "unat c < 2 ^ 8" using unsigned_less [of c, where 'a = nat] by simp
  then show ?thesis by (simp add: unsigned_ucast_eq take_bit_nat_eq_self)
qed

text \<open>The table against the layout, key by key.\<close>

definition layout_ok :: "nat \<Rightarrow> bool" where
  "layout_ok i \<longleftrightarrow>
     (let k = ascii_table ! i
      in key_at (of_nat i) = (if k = CHR 0x00 then None else Some k) \<and> toupper k = capital k \<and>
         (capital k = CHR 0x00 \<longleftrightarrow> k = CHR 0x00) \<and>
         of_char k < (128 :: nat) \<and> of_char (capital k) < (128 :: nat))"

lemma table_layout: "i < 58 \<Longrightarrow> layout_ok i"
proof -
  have "\<forall>i \<in> set [0..<58]. layout_ok i" by code_simp
  then show "i < 58 \<Longrightarrow> layout_ok i" by simp
qed

lemma key_beyond: "58 \<le> unat c \<Longrightarrow> key_at c = None"
  by (auto simp: key_at_def key_rows_def map_of_eq_None_iff upt_rec)

text \<open>The case analysis of the handler on the scan code and the mode.\<close>

lemma inb_eq: "inb port s = (dev_inb (dev s) (io s) port, emit (InB port (dev_inb (dev s) (io s) port)) s)"
  by (simp add: inb_def Let_def)

lemma printf_c:
  assumes "(of_char c :: nat) < 128"
  shows "printf ''{c}'' [VWord (of_nat (of_char c))] s = Inr (s\<lparr>console := console s @ [[c]]\<rparr>)"
proof -
  have "char_of_word (of_nat (of_char c)) = c"
    using assms by (simp add: char_of_word_def unsigned_ucast_eq unat_of_nat take_bit_nat_eq_self)
  then show ?thesis
    by (simp add: printf_fits fits_simps printed_def word_text_def)
qed

lemma scancode_tests:
  fixes c :: u8
  shows "(ucast c = LEFT_SHIFT_RELEASED) = (c = 0xAA)" "(ucast c = LEFT_SHIFT_PRESSED) = (c = 0x2A)"
    "(ucast c = CAPS_LOCK_PRESSED) = (c = 0x3A)" "((0x58 :: u16) < ucast c) = (88 < unat c)"
    "beyond_table c = (59 \<le> unat c \<and> unat c \<le> 88)"
  by (simp_all add: LEFT_SHIFT_RELEASED_def LEFT_SHIFT_PRESSED_def CAPS_LOCK_PRESSED_def
      word_unat_eq_iff word_less_nat_alt word_le_nat_alt unat_ucast_u16 beyond_table_def)

lemma table_length [simp]: "length ascii_table = 58"
  by (simp add: ascii_table_def)

lemma same_mode: "keyboard_state s = x \<Longrightarrow> s\<lparr>keyboard_state := x\<rparr> = s"
  by (cases s) simp

definition handler_ok :: "kmode \<Rightarrow> u8 \<Rightarrow> kernel \<Rightarrow> failure + kernel \<Rightarrow> bool" where
  "handler_ok m c s r \<longleftrightarrow>
     (case r of
        Inl (f, t) \<Rightarrow> f = Out_of_bounds \<and> beyond_table c
      | Inr t \<Rightarrow> \<not> beyond_table c \<and>
          (\<exists>out m'. kb_step m c out m' \<and> keyboard_state t = mode_code m' \<and> key_served c out s t))"

lemma handler_okI:
  assumes "kb_step m c out m'" "\<not> beyond_table c"
    and "r = Inr (s\<lparr>keyboard_state := mode_code m', console := console s @ map (\<lambda>c. [c]) out,
           io := io s @ [InB 0x60 c, eoi_event s]\<rparr>)"
  shows "handler_ok m c s r"
  using assms by (auto simp: handler_ok_def key_served_def)

lemmas scancodes = LEFT_SHIFT_RELEASED_def LEFT_SHIFT_PRESSED_def CAPS_LOCK_PRESSED_def

lemma translate_special:
  assumes "keyboard_state s = mode_code m" "m \<noteq> Caps_On"
  shows "ps2_translate2ascii 0x2A s = Inr (CHR 0x00, s\<lparr>keyboard_state := SHIFT_STATE\<rparr>)"
    and "ps2_translate2ascii 0x3A s = Inr (CHR 0x00, s\<lparr>keyboard_state := CAPS_STATE\<rparr>)"
proof -
  show "ps2_translate2ascii 0x2A s = Inr (CHR 0x00, s\<lparr>keyboard_state := SHIFT_STATE\<rparr>)"
    unfolding ps2_translate2ascii_def scancodes assms(1) mode_code_simps using assms(2) by simp
  have "m = Lower \<or> m = Shift_Held" using assms(2) by (cases m) simp_all
  then show "ps2_translate2ascii 0x3A s = Inr (CHR 0x00, s\<lparr>keyboard_state := CAPS_STATE\<rparr>)"
    unfolding ps2_translate2ascii_def scancodes assms(1) mode_code_simps by auto
qed

lemma translate_high: "88 < unat code \<Longrightarrow> ps2_translate2ascii code s = Inr (CHR 0x00, s)"
  by (simp add: ps2_translate2ascii_def word_less_nat_alt)

lemma translate_beyond:
  "58 < unat code \<Longrightarrow> unat code \<le> 88 \<Longrightarrow> ps2_translate2ascii code s = Inl (Out_of_bounds, s)"
  by (auto simp: ps2_translate2ascii_def word_less_nat_alt word_unat_eq_iff scancodes)

lemma translate_key:
  assumes "keyboard_state s = mode_code m" "unat code < 58" "code \<noteq> 0x2A \<or> m = Caps_On"
  defines "k \<equiv> ascii_table ! unat code"
  shows "ps2_translate2ascii code s =
    Inr (if k = CHR 0x00 \<or> m = Lower then k else toupper k, s)"
proof -
  have "code \<noteq> CAPS_LOCK_PRESSED" using assms(2) by (auto simp: scancodes word_unat_eq_iff)
  moreover have "\<not> 0x58 < code" using assms(2) by (simp add: word_less_nat_alt)
  ultimately show ?thesis
    using assms(2,3) unfolding ps2_translate2ascii_def assms(1) mode_code_simps k_def
    by (cases m) (auto simp: LEFT_SHIFT_PRESSED_def)
qed

text \<open>The handler after the port read, by what the translation returns.\<close>

definition scanned :: "kernel \<Rightarrow> kernel" where
  "scanned s = emit (InB 0x60 (dev_inb (dev s) (io s) 0x60)) s"

lemma handler_cases:
  assumes "dev_inb (dev s) (io s) 0x60 = c"
  shows "ps2_handler s =
    (let s = (if c = 0xAA \<and> keyboard_state s \<noteq> CAPS_STATE then scanned s\<lparr>keyboard_state := NORMAL_STATE\<rparr> else scanned s)
     in if keyboard_state s = CAPS_STATE \<and> c = 0x3A then Inr (apic_eoi (s\<lparr>keyboard_state := NORMAL_STATE\<rparr>))
        else sbind (ps2_translate2ascii (ucast c) s) (\<lambda>(k, s).
          if k = CHR 0x00 then Inr (apic_eoi s)
          else sbind (printf ''{c}'' [VWord (of_nat (of_char k))] s) (\<lambda>s. Inr (apic_eoi s))))"
  unfolding ps2_handler_def inb_eq fst_conv snd_conv PS2_DATA_PORT_def assms scancode_tests Let_def scanned_def
  by (simp add: emit_def)

lemma scanned_fields:
  "keyboard_state (scanned s) = keyboard_state s" "eoi_event (scanned s) = eoi_event s"
  "eoi_event (s\<lparr>keyboard_state := x\<rparr>) = eoi_event s"
  by (simp_all add: scanned_def emit_def eoi_event_def)

lemma apic_eoi_scanned:
  "apic_eoi (scanned s\<lparr>keyboard_state := x, console := cs\<rparr>) =
     s\<lparr>keyboard_state := x, console := cs, io := io s @ [InB 0x60 (dev_inb (dev s) (io s) 0x60), eoi_event s]\<rparr>"
  by (simp add: apic_eoi_emit emit_def scanned_def eoi_event_def)

lemma handler_step:
  assumes m: "keyboard_state s = mode_code m" and c: "dev_inb (dev s) (io s) 0x60 = c"
  shows "handler_ok m c s (ps2_handler s)"
proof -
  have eoi: "apic_eoi (scanned s\<lparr>keyboard_state := x, console := cs\<rparr>) =
      s\<lparr>keyboard_state := x, console := cs, io := io s @ [InB 0x60 c, eoi_event s]\<rparr>" for x cs
    unfolding apic_eoi_scanned c ..
  have quiet: "apic_eoi (scanned s\<lparr>keyboard_state := x\<rparr>) =
      s\<lparr>keyboard_state := x, console := console s @ map (\<lambda>c. [c]) [], io := io s @ [InB 0x60 c, eoi_event s]\<rparr>" for x
    using eoi [where x = x and cs = "console s"] by (simp add: scanned_def emit_def)
  have still: "scanned s = scanned s\<lparr>keyboard_state := mode_code m\<rparr>"
    using m by (simp add: same_mode scanned_fields)
  have m': "keyboard_state (scanned s) = mode_code m" using m by (simp add: scanned_fields)
  have states: "NORMAL_STATE \<noteq> CAPS_STATE" by (simp add: NORMAL_STATE_def CAPS_STATE_def)
  note H = handler_cases [OF c]
  consider (down) "c = 0x2A" "m \<noteq> Caps_On" | (up) "c = 0xAA" "m \<noteq> Caps_On" | (caps) "c = 0x3A" "m \<noteq> Caps_On"
    | (off) "c = 0x3A" "m = Caps_On" | (other) "c \<notin> {0x2A, 0xAA, 0x3A} \<or> c \<in> {0x2A, 0xAA} \<and> m = Caps_On"
    by blast
  then show ?thesis
  proof cases
    case down
    then show ?thesis
      using translate_special(1) [OF m' down(2)] quiet [of "mode_code Shift_Held"]
      by (intro handler_okI [where out = "[]" and m' = Shift_Held]) (simp_all add: H shift_down beyond_table_def)
  next
    case up
    then show ?thesis
      using translate_high [of "0xAA" "scanned s\<lparr>keyboard_state := NORMAL_STATE\<rparr>"] m quiet [of "mode_code Lower"] states
      by (intro handler_okI [where out = "[]" and m' = Lower]) (simp_all add: H shift_up beyond_table_def scanned_fields)
  next
    case caps
    then show ?thesis
      using translate_special(2) [OF m' caps(2)] quiet [of "mode_code Caps_On"] m
      by (intro handler_okI [where out = "[]" and m' = Caps_On]) (simp_all add: H caps_on beyond_table_def scanned_fields)
  next
    case off
    then show ?thesis
      using quiet [of "mode_code Lower"] m
      by (intro handler_okI [where out = "[]" and m' = Lower]) (simp_all add: H caps_off beyond_table_def scanned_fields)
  next
    case other
    then have H': "ps2_handler s = sbind (ps2_translate2ascii (ucast c) (scanned s)) (\<lambda>(k, s).
          if k = CHR 0x00 then Inr (apic_eoi s)
          else sbind (printf ''{c}'' [VWord (of_nat (of_char k))] s) (\<lambda>s. Inr (apic_eoi s)))"
      using m by (auto simp: H scanned_fields Let_def)
    have "unat c \<noteq> 58" using other by (auto simp: word_unat_eq_iff)
    then consider (table) "unat c < 58" | (beyond) "59 \<le> unat c" "unat c \<le> 88" | (high) "88 < unat c" by linarith
    then show ?thesis
    proof cases
      case table
      let ?k = "ascii_table ! unat c"
      have k: "key_at c = (if ?k = CHR 0x00 then None else Some ?k)" "toupper ?k = capital ?k"
        "capital ?k = CHR 0x00 \<longleftrightarrow> ?k = CHR 0x00" "of_char ?k < (128 :: nat)" "of_char (capital ?k) < (128 :: nat)"
        using table_layout [OF table] by (simp_all add: layout_ok_def Let_def)
      have nb: "\<not> beyond_table c" using table by (simp add: scancode_tests)
      have "(ucast c :: u16) \<noteq> 0x2A \<or> m = Caps_On" using other scancode_tests(2) [of c] by (auto simp: scancodes)
      then have T: "ps2_translate2ascii (ucast c) (scanned s) = Inr (if ?k = CHR 0x00 \<or> m = Lower then ?k else toupper ?k, scanned s)"
        using translate_key [OF m', of "ucast c"] table by (simp add: unat_ucast_u16)
      show ?thesis
      proof (cases "?k = CHR 0x00")
        case True
        then have "kb_step m c [] m" using other k(1) nb kb_step.silent [of c m] kb_step.caps_shift [of c] by auto
        moreover have "ps2_handler s = Inr (apic_eoi (scanned s))" unfolding H' T using True by simp
        ultimately show ?thesis
          using nb quiet [of "mode_code m"] still by (intro handler_okI [where out = "[]"]) simp_all
      next
        case False
        let ?x = "if m = Lower then ?k else capital ?k"
        have "printf ''{c}'' [VWord (of_nat (of_char ?x))] (scanned s) = Inr (scanned s\<lparr>console := console (scanned s) @ [[?x]]\<rparr>)"
          using k(4,5) by (intro printf_c) simp
        moreover have "?x \<noteq> CHR 0x00" using False k(3) by simp
        ultimately have "ps2_handler s = Inr (apic_eoi (scanned s\<lparr>console := console (scanned s) @ [[?x]]\<rparr>))"
          unfolding H' T k(2) using False by simp
        moreover have "kb_step m c [?x] m" using k(1) False by (intro kb_step.key) simp
        moreover have "scanned s\<lparr>console := console (scanned s) @ [[?x]]\<rparr> =
            scanned s\<lparr>keyboard_state := mode_code m, console := console s @ [[?x]]\<rparr>"
          using m by (simp add: scanned_def emit_def)
        ultimately show ?thesis
          using nb eoi [where x = "mode_code m" and cs = "console s @ [[?x]]"]
          by (intro handler_okI [where out = "[?x]"]) simp_all
      qed
    next
      case beyond
      then show ?thesis
        using translate_beyond [of "ucast c" "scanned s"] by (simp add: H' handler_ok_def unat_ucast_u16 scancode_tests)
    next
      case high
      then have "kb_step m c [] m" using other key_beyond [of c] kb_step.silent [of c m] kb_step.caps_shift [of c]
        by (auto simp: scancode_tests)
      moreover have "ps2_handler s = Inr (apic_eoi (scanned s))"
        using high translate_high [of "ucast c" "scanned s"] by (simp add: H' unat_ucast_u16)
      ultimately show ?thesis
        using high quiet [of "mode_code m"] still by (intro handler_okI [where out = "[]"]) (simp_all add: scancode_tests)
    qed
  qed
qed

text \<open>A sequence of interrupts, for a keyboard that delivers the given scan codes.\<close>

definition data_reads :: "io_event list \<Rightarrow> nat" where
  "data_reads evs = length (filter (\<lambda>e. \<exists>v. e = InB 0x60 v) evs)"

definition scan_codes :: "u8 list \<Rightarrow> kernel \<Rightarrow> bool" where
  "scan_codes codes s \<longleftrightarrow>
     (\<forall>evs. data_reads evs < length codes \<longrightarrow> dev_inb (dev s) (io s @ evs) 0x60 = codes ! data_reads evs)"

lemma scan_codes_Cons:
  assumes "scan_codes (c # codes) s"
  shows "dev_inb (dev s) (io s) 0x60 = c"
    and "key_served c out s t \<Longrightarrow> scan_codes codes t"
proof -
  show "dev_inb (dev s) (io s) 0x60 = c"
    using assms [unfolded scan_codes_def, rule_format, of "[]"] by (simp add: data_reads_def)
  assume t: "key_served c out s t"
  have "dev t = dev s" "io t = io s @ [InB 0x60 c, eoi_event s]"
    by (subst t [unfolded key_served_def], simp)+
  moreover have "dev_inb (dev s) (io s @ [InB 0x60 c, eoi_event s] @ evs) 0x60 = codes ! data_reads evs"
    if "data_reads evs < length codes" for evs
  proof -
    have "data_reads ([InB 0x60 c, eoi_event s] @ evs) = Suc (data_reads evs)"
      by (simp add: data_reads_def eoi_event_def)
    then show ?thesis
      using that assms [unfolded scan_codes_def, rule_format, of "[InB 0x60 c, eoi_event s] @ evs"] by simp
  qed
  ultimately show "scan_codes codes t" by (simp add: scan_codes_def)
qed

lemma handlers_run:
  assumes "scan_codes codes s" "keyboard_state s = mode_code m" "\<forall>c \<in> set codes. \<not> beyond_table c"
  shows "\<exists>t outs m'. foldE (\<lambda>_. ps2_handler) codes s = Inr t \<and> kb_run m codes outs m' \<and>
    keyboard_state t = mode_code m' \<and> console t = console s @ map (\<lambda>c. [c]) outs \<and>
    io t = io s @ concat (map (\<lambda>c. [InB 0x60 c, eoi_event s]) codes)"
  using assms
proof (induction codes arbitrary: s m)
  case Nil
  then show ?case by (auto intro: run_nil)
next
  case (Cons c codes)
  note step = handler_step [OF Cons.prems(2) scan_codes_Cons(1) [OF Cons.prems(1)], unfolded handler_ok_def]
  obtain t out m' where t: "ps2_handler s = Inr t" "kb_step m c out m'" "keyboard_state t = mode_code m'" "key_served c out s t"
    using step Cons.prems(3) by (auto split: sum.splits prod.splits)
  have f: "console t = console s @ map (\<lambda>c. [c]) out" "io t = io s @ [InB 0x60 c, eoi_event s]" "eoi_event t = eoi_event s"
    by (subst t(4) [unfolded key_served_def], simp add: eoi_event_def)+
  obtain u outs m'' where u: "foldE (\<lambda>_. ps2_handler) codes t = Inr u" "kb_run m' codes outs m''" "keyboard_state u = mode_code m''"
    "console u = console t @ map (\<lambda>c. [c]) outs" "io u = io t @ concat (map (\<lambda>c. [InB 0x60 c, eoi_event t]) codes)"
    using Cons.IH [OF scan_codes_Cons(2) [OF Cons.prems(1) t(4)] t(3)] Cons.prems(3) by auto
  show ?case
    using u t(1) run_step [OF t(2) u(2)] by (auto simp: f intro!: exI [of _ "out @ outs"])
qed

section \<open>Draining the controller\<close>

text \<open>One round of the drain loop, as the history of accesses it leaves, and its status bit.\<close>

definition drain_round :: "device \<Rightarrow> io_event list \<Rightarrow> io_event list" where
  "drain_round d h =
     (let h = h @ [InB 0x60 (dev_inb d h 0x60)] in h @ [InB 0x64 (dev_inb d h 0x64)])"

definition drain_busy :: "device \<Rightarrow> io_event list \<Rightarrow> nat \<Rightarrow> bool" where
  "drain_busy d h k =
     (let h = (drain_round d ^^ k) h in bit (dev_inb d (h @ [InB 0x60 (dev_inb d h 0x60)]) 0x64) 1)"

lemma drain_busy_Suc: "drain_busy d h (Suc k) = drain_busy d (drain_round d h) k"
  by (simp add: drain_busy_def funpow_swap1)

lemma status_bit: "(ucast (drop_bit (Suc 0) (ucast (x :: u8) :: i32) AND 1) :: u16) = of_bool (bit x (Suc 0))"
  by (rule bit_word_eqI) (auto simp: bit_simps)

lemma ps2_clear_round:
  "ps2_clear 1 s = ps2_clear (of_bool (drain_busy (dev s) (io s) 0)) (s\<lparr>io := drain_round (dev s) (io s)\<rparr>)"
  by (subst ps2_clear.simps)
    (simp add: inb_eq emit_def status_bit Let_def drain_busy_def drain_round_def PS2_DATA_PORT_def PS2_STATUS_REG_def del: of_bool_eq_1_iff)

lemma ps2_clear_0: "ps2_clear 0 s = Some (0, s)"
  by (simp add: ps2_clear.simps)

lemma ps2_clear_ends:
  assumes "\<forall>i < k. drain_busy (dev s) (io s) i" "\<not> drain_busy (dev s) (io s) k"
  shows "ps2_clear 1 s = Some (0, s\<lparr>io := (drain_round (dev s) ^^ Suc k) (io s)\<rparr>)"
  using assms
proof (induction k arbitrary: s)
  case 0
  then show ?case by (subst ps2_clear_round) (simp add: ps2_clear_0)
next
  case (Suc k)
  let ?t = "s\<lparr>io := drain_round (dev s) (io s)\<rparr>"
  have "drain_busy (dev s) (io s) 0" using Suc.prems(1) by simp
  then have "ps2_clear 1 s = ps2_clear 1 ?t" by (subst ps2_clear_round) simp
  moreover have "\<forall>i < k. drain_busy (dev ?t) (io ?t) i" "\<not> drain_busy (dev ?t) (io ?t) k"
    using Suc.prems by (auto simp flip: drain_busy_Suc)
  ultimately show ?case using Suc.IH [of ?t] by (simp add: funpow_swap1)
qed

lemma ps2_clear_Some:
  assumes "ps2_clear j s = Some r"
  shows "j = 1 \<longrightarrow> (\<exists>k. \<not> drain_busy (dev s) (io s) k)"
proof (rule ps2_clear.raw_induct [OF _ assms])
  fix f and j :: u16 and s :: kernel and r
  assume IH: "\<And>(j :: u16) s r. f j s = Some r \<Longrightarrow> j = 1 \<longrightarrow> (\<exists>k. \<not> drain_busy (dev s) (io s) k)"
    and body: "(if j \<noteq> 0
      then let s = snd (inb PS2_DATA_PORT s); status = fst (inb PS2_STATUS_REG s); s = snd (inb PS2_STATUS_REG s)
           in f (ucast (drop_bit 1 (ucast status :: i32) AND 1)) s
      else Some (j, s)) = Some r"
  let ?t = "s\<lparr>io := drain_round (dev s) (io s)\<rparr>"
  show "j = 1 \<longrightarrow> (\<exists>k. \<not> drain_busy (dev s) (io s) k)"
  proof (cases "drain_busy (dev s) (io s) 0")
    case True
    then have "f 1 ?t = Some r" if "j = 1"
      using body that
      by (simp add: inb_eq emit_def status_bit Let_def drain_busy_def drain_round_def PS2_DATA_PORT_def PS2_STATUS_REG_def)
    then show ?thesis using IH [of 1 ?t r] by (auto simp flip: drain_busy_Suc)
  qed blast
qed

lemma ps2_clear_result:
  "case ps2_clear 1 s of
     None \<Rightarrow> \<forall>k. drain_busy (dev s) (io s) k
   | Some (j, t) \<Rightarrow> \<exists>k. \<not> drain_busy (dev s) (io s) k \<and> (\<forall>i < k. drain_busy (dev s) (io s) i) \<and> j = 0 \<and>
       t = s\<lparr>io := (drain_round (dev s) ^^ Suc k) (io s)\<rparr>"
proof (cases "\<forall>k. drain_busy (dev s) (io s) k")
  case True
  then have "ps2_clear 1 s = None" using ps2_clear_Some by (cases "ps2_clear 1 s") blast+
  then show ?thesis using True by simp
next
  case False
  define k where "k = (LEAST k. \<not> drain_busy (dev s) (io s) k)"
  have k: "\<not> drain_busy (dev s) (io s) k" "\<forall>i < k. drain_busy (dev s) (io s) i"
    using False LeastI_ex [of "\<lambda>k. \<not> drain_busy (dev s) (io s) k"] not_less_Least by (auto simp: k_def)
  then show ?thesis using ps2_clear_ends [OF k(2,1)] by auto
qed

definition ps2_prologue :: "kernel \<Rightarrow> io_event list" where
  "ps2_prologue s = io s @ [OutB 0x64 0xAD, OutB 0x64 0xA7]"

lemma ps2_start: "outb PS2_COMMAND_REG 0xA7 (outb PS2_COMMAND_REG 0xAD s) = s\<lparr>io := ps2_prologue s\<rparr>"
  by (simp add: outb_def emit_def ps2_prologue_def PS2_COMMAND_REG_def)

lemma fits_ps2:
  "fits ''ps2: starting PS/2 controller test{n}'' []"
  "fits ''ps2: PS/2 controller test passed{n}'' []"
  "fits ''ps2: test failed, the PS/2 keyboard might not work.{n}'' []"
  "fits ps2_unexpected [VWord w]"
  "fits ''ps2: assuming US QWERTY layout, scan code 1. other layouts not supported{n}'' []"
  by (simp_all add: fits_simps ps2_unexpected_def)

lemma ps2_test_reply_ok: "\<exists>bs. ps2_test_reply data v = Inr (v\<lparr>console := console v @ bs\<rparr>)"
  unfolding ps2_test_reply_def log_err_def printf_fits [OF fits_log(4)] printf_fits [OF fits_ps2(2)]
    printf_fits [OF fits_ps2(3)] printf_fits [OF fits_ps2(4)] by auto

lemma ps2_init_unfold:
  assumes "ps2_clear 1 (s\<lparr>io := ps2_prologue s\<rparr>) = Some (0, t)"
  shows "\<exists>u d. ps2_init s = Some (Inr u) \<and>
    io u = io t @ [OutB 0x64 0xAA, InB 0x60 d, OutB 0x64 0xAE] \<and> u = t\<lparr>console := console u, io := io u\<rparr>"
proof -
  let ?v = "outb PS2_COMMAND_REG 0xAA (t\<lparr>console := console t @ printed ''ps2: starting PS/2 controller test{n}'' []\<rparr>)"
  obtain bs where bs: "ps2_test_reply (ucast (fst (inb PS2_DATA_PORT ?v))) (snd (inb PS2_DATA_PORT ?v)) =
       Inr ((snd (inb PS2_DATA_PORT ?v))\<lparr>console := console (snd (inb PS2_DATA_PORT ?v)) @ bs\<rparr>)"
    using ps2_test_reply_ok by blast
  let ?w = "(snd (inb PS2_DATA_PORT ?v))\<lparr>console := console (snd (inb PS2_DATA_PORT ?v)) @ bs\<rparr>"
  let ?u = "outb PS2_COMMAND_REG 0xAE
    (?w\<lparr>console := console ?w @ printed ''ps2: assuming US QWERTY layout, scan code 1. other layouts not supported{n}'' []\<rparr>)"
  have "ps2_init s = Some (Inr ?u)"
    unfolding ps2_init_def Let_def ps2_start assms option.case prod.case printf_fits [OF fits_ps2(1)] obind_simps bs
      printf_fits [OF fits_ps2(5)] ps2_clear_0 ..
  moreover have "io ?u = io t @ [OutB 0x64 0xAA, InB 0x60 (dev_inb (dev t) (io t @ [OutB 0x64 0xAA]) 0x60), OutB 0x64 0xAE]"
    by (simp add: inb_eq outb_def emit_def PS2_COMMAND_REG_def PS2_DATA_PORT_def)
  moreover have "?u = t\<lparr>console := console ?u, io := io ?u\<rparr>"
    by (simp add: inb_eq outb_def emit_def)
  ultimately show ?thesis by blast
qed

lemma ps2_init_result:
  "case ps2_init s of
     None \<Rightarrow> \<forall>k. drain_busy (dev s) (ps2_prologue s) k
   | Some r \<Rightarrow> \<exists>k t d. r = Inr t \<and> \<not> drain_busy (dev s) (ps2_prologue s) k \<and>
       (\<forall>i < k. drain_busy (dev s) (ps2_prologue s) i) \<and>
       io t = (drain_round (dev s) ^^ Suc k) (ps2_prologue s) @ [OutB 0x64 0xAA, InB 0x60 d, OutB 0x64 0xAE] \<and>
       t = s\<lparr>console := console t, io := io t\<rparr>"
proof (cases "ps2_clear 1 (s\<lparr>io := ps2_prologue s\<rparr>)")
  case None
  have "ps2_init s = None"
    unfolding ps2_init_def Let_def ps2_start None by simp
  then show ?thesis using ps2_clear_result [of "s\<lparr>io := ps2_prologue s\<rparr>"] None by simp
next
  case (Some r)
  then obtain k where k: "\<not> drain_busy (dev s) (ps2_prologue s) k" "\<forall>i < k. drain_busy (dev s) (ps2_prologue s) i"
    "ps2_clear 1 (s\<lparr>io := ps2_prologue s\<rparr>) = Some (0, s\<lparr>io := (drain_round (dev s) ^^ Suc k) (ps2_prologue s)\<rparr>)"
    using ps2_clear_result [of "s\<lparr>io := ps2_prologue s\<rparr>"] by (auto simp del: funpow.simps)
  obtain u d where u: "ps2_init s = Some (Inr u)" "io u = (drain_round (dev s) ^^ Suc k) (ps2_prologue s) @ [OutB 0x64 0xAA, InB 0x60 d, OutB 0x64 0xAE]"
    "u = s\<lparr>console := console u, io := io u\<rparr>"
    using ps2_init_unfold [OF k(3)] by (auto simp del: funpow.simps)
  then show ?thesis using k(1,2) by (simp del: funpow.simps) blast
qed

section \<open>Properties\<close>

definition next_code :: "kernel \<Rightarrow> u8" where
  "next_code s = dev_inb (dev s) (io s) 0x60"

text \<open>
  C24. ps2_handler implements the keyboard's state machine: from a state in one of the three modes
  every interrupt reads one scan code, takes the step the specification prescribes for it,
  prints exactly the character the step produces, acknowledges the interrupt once and changes
  nothing else; the only scan codes it has no step for are 0x3B to 0x58, where it reads past the
  end of its table.
\<close>

theorem ps2_handler_refines:
  assumes "keyboard_state s = mode_code m"
  shows "case ps2_handler s of
      Inl (f, t) \<Rightarrow> f = Out_of_bounds \<and> beyond_table (next_code s)
    | Inr t \<Rightarrow> \<not> beyond_table (next_code s) \<and>
        (\<exists>out m'. kb_step m (next_code s) out m' \<and> keyboard_state t = mode_code m' \<and> key_served (next_code s) out s t)"
  unfolding next_code_def using handler_step [OF assms refl] unfolding handler_ok_def .

definition typing :: "u8 list \<Rightarrow> kernel" where
  "typing codes = quiet_kernel\<lparr>dev := quiet_device\<lparr>dev_inb := \<lambda>evs port.
     if data_reads evs < length codes then codes ! data_reads evs else 0\<rparr>\<rparr>"

lemma typing_simps [simp]:
  "keyboard_state (typing codes) = mode_code Lower" "io (typing codes) = []" "console (typing codes) = []"
  "dev_inb (dev (typing codes)) evs port = (if data_reads evs < length codes then codes ! data_reads evs else 0)"
  by (simp_all add: typing_def NORMAL_STATE_def) (simp add: quiet_kernel_def initial_kernel_def)

lemma ps2_handler_refines_witness:
  "\<exists>t. ps2_handler (typing [0x23]) = Inr t \<and> console t = [''h'']"
proof -
  have k: "key_at 0x23 = Some CHR ''h''" "\<not> beyond_table 0x23"
    by (simp_all add: key_at_def key_rows_def beyond_table_def)
  have c: "next_code (typing [0x23]) = 0x23" by (simp add: next_code_def data_reads_def)
  obtain t out m' where t: "ps2_handler (typing [0x23]) = Inr t" "kb_step Lower 0x23 out m'" "key_served 0x23 out (typing [0x23]) t"
    using ps2_handler_refines [of "typing [0x23]" Lower, unfolded c] k by (auto split: sum.splits prod.splits)
  have "out = ''h''" using kb_step_fun [OF kb_step.key [OF k(1), of Lower] t(2)] by simp
  moreover have "console t = console (typing [0x23]) @ map (\<lambda>c. [c]) out"
    by (subst t(3) [unfolded key_served_def]) simp
  ultimately show ?thesis using t(1) by simp
qed

text \<open>
  Over any sequence of keyboard interrupts whose scan codes are in the table the handler
  never faults: the text on the terminal grows by exactly the output of the state machine's run,
  the mode stays one of the three, and every scan code read is followed by its end of interrupt.
\<close>

theorem ps2_session:
  assumes "scan_codes codes s" "keyboard_state s = mode_code m" "\<forall>c \<in> set codes. \<not> beyond_table c"
  shows "\<exists>t outs m'. foldE (\<lambda>_. ps2_handler) codes s = Inr t \<and> kb_run m codes outs m' \<and>
    keyboard_state t = mode_code m' \<and> shown t = shown s @ outs \<and>
    io t = io s @ concat (map (\<lambda>c. [InB 0x60 c, eoi_event s]) codes)"
  using handlers_run [OF assms] by (fastforce simp: shown_def)

lemma ps2_session_witness:
  "\<exists>t. foldE (\<lambda>_. ps2_handler) [0x2A, 0x23, 0xAA, 0x17 :: u8] (typing [0x2A, 0x23, 0xAA, 0x17]) = Inr t \<and> shown t = ''Hi''"
proof -
  let ?codes = "[0x2A, 0x23, 0xAA, 0x17] :: u8 list"
  have "scan_codes ?codes (typing ?codes)" by (simp add: scan_codes_def)
  moreover have "\<forall>c \<in> set ?codes. \<not> beyond_table c" by (simp add: beyond_table_def)
  ultimately obtain t outs m' where t: "foldE (\<lambda>_. ps2_handler) ?codes (typing ?codes) = Inr t" "kb_run Lower ?codes outs m'"
    "shown t = shown (typing ?codes) @ outs"
    using ps2_session [of ?codes "typing ?codes" Lower] by auto
  have keys: "key_at 0x23 = Some CHR ''h''" "key_at 0x17 = Some CHR ''i''" by (simp_all add: key_at_def key_rows_def)
  have steps: "kb_step Lower 0x2A [] Shift_Held" "kb_step Shift_Held 0x23 [capital CHR ''h''] Shift_Held"
    "kb_step Shift_Held 0xAA [] Lower" "kb_step Lower 0x17 ''i'' Lower"
    using kb_step.key [OF keys(1), of Shift_Held] kb_step.key [OF keys(2), of Lower] by (auto intro: kb_step.intros)
  have "kb_run Lower ?codes ([] @ [capital CHR ''h''] @ [] @ ''i'' @ []) Lower"
    by (intro run_step [OF steps(1)] run_step [OF steps(2)] run_step [OF steps(3)] run_step [OF steps(4)] run_nil)
  moreover have "capital CHR ''h'' = CHR ''H''" by code_simp
  ultimately have "outs = ''Hi''" using kb_run_fun [OF _ t(2)] by simp
  then show ?thesis using t(1,3) by (simp add: shown_def)
qed

text \<open>
  C25. ps2_init returns exactly when the controller at some point reports its buffer as drained,
  and then after the first such report: both ports were disabled before the reads, and the last
  accesses are the controller test, its reply and the enabling of the first port.
\<close>

theorem ps2_init_drains:
  "case ps2_init s of
     None \<Rightarrow> \<forall>k. drain_busy (dev s) (ps2_prologue s) k
   | Some r \<Rightarrow> \<exists>k t d. r = Inr t \<and> \<not> drain_busy (dev s) (ps2_prologue s) k \<and>
       (\<forall>i < k. drain_busy (dev s) (ps2_prologue s) i) \<and>
       io t = (drain_round (dev s) ^^ Suc k) (ps2_prologue s) @ [OutB 0x64 0xAA, InB 0x60 d, OutB 0x64 0xAE] \<and>
       t = s\<lparr>console := console t, io := io t\<rparr>"
  by (rule ps2_init_result)

lemma ps2_init_drains_witness: "\<exists>t. ps2_init quiet_kernel = Some (Inr t)"
proof -
  have "\<not> drain_busy (dev quiet_kernel) (ps2_prologue quiet_kernel) 0"
    by (simp add: drain_busy_def quiet_device_def)
  then show ?thesis using ps2_init_drains [of quiet_kernel] by (auto split: option.splits)
qed

end
