(* ===== verification/Idt.thy ===== *)
theory Idt
  imports Ps2 Gdt
begin

text \<open>
  \<open>kern/sys/idt.c\<close>, \<open>idt.h\<close> and \<open>idt.asm\<close>: the interrupt descriptor table, the assembly stubs
  every interrupt enters through, as instruction lists of a small stack machine, and the C
  handler they call with the frame they built.
\<close>

section \<open>The table\<close>

definition idt_set_gate :: "u8 \<Rightarrow> u64 \<Rightarrow> u8 \<Rightarrow> kernel \<Rightarrow> kernel" where
  "idt_set_gate vector isr flags s =
     (let descriptor =
            \<lparr>isr_low = ucast (isr AND 0xFFFF), kernel_cs = 0x08, ist = 0, attributes = flags,
             isr_mid = ucast (drop_bit 16 isr AND 0xFFFF), isr_high = ucast (drop_bit 32 isr AND 0xFFFFFFFF),
             reserved = 0\<rparr>
      in s\<lparr>idt := (idt s)[unat vector := descriptor]\<rparr>)"

definition idt_load :: "kernel \<Rightarrow> kernel" where
  "idt_load s = emit Sti (emit (Lidt (idtr_limit (idtpr s)) (idtr_base (idtpr s))) s)"

text \<open>\<open>idt_addr\<close> is the address of the array \<open>idt\<close>, \<open>isr v\<close> the address of the stub \<open>s_isr\<close>v.\<close>

definition sizeof_idtentry :: u16 where "sizeof_idtentry = of_nat (sizeof idtentry_layout)"

lemma sizeof_idtentry_at: "sizeof_idtentry = 16"
  by (simp add: sizeof_idtentry_def descriptor_sizes)

definition idt_init :: "u64 \<Rightarrow> (nat \<Rightarrow> u64) \<Rightarrow> kernel \<Rightarrow> kernel" where
  "idt_init idt_addr isr s =
     (let s = s\<lparr>idtpr := \<lparr>idtr_limit = sizeof_idtentry * 256 - 1, idtr_base = idt_addr\<rparr>\<rparr>;
          s = fold (\<lambda>v. idt_set_gate (of_nat v) (isr v) 0x8E) [0..<32] s;
          s = idt_set_gate 33 (isr 33) 0x8E s;
          s = idt_set_gate 172 (isr 172) 0x8E s
      in idt_load s)"

section \<open>The C handler\<close>

record int_frame =
  fr_r15 :: u64
  fr_r14 :: u64
  fr_r13 :: u64
  fr_r12 :: u64
  fr_r11 :: u64
  fr_r10 :: u64
  fr_r9 :: u64
  fr_r8 :: u64
  fr_rdi :: u64
  fr_rsi :: u64
  fr_rbp :: u64
  fr_rdx :: u64
  fr_rcx :: u64
  fr_rbx :: u64
  fr_rax :: u64
  fr_int_no :: u64
  fr_err :: u64
  fr_rip :: u64
  fr_cs :: u64
  fr_ss :: u64
  fr_rsp :: u64
  fr_rflags :: u64

definition exception_messages :: "string list" where
  "exception_messages =
     [''Division Error'', ''Debug'', ''Non Maskable Interrupt'', ''Breakpoint'',
      ''Into Detected Overflow'', ''Out of Bounds'', ''Invalid Opcode'', ''No Coprocessor'',
      ''Double Fault'', ''Coprocessor Segment Overrun'', ''Bad TSS'', ''Segment Not Present'',
      ''Stack Fault'', ''General Protection Fault'', ''Page Fault'', ''Unknown Interrupt'',
      ''Coprocessor Fault'', ''Alignment Check'', ''Machine Check'', ''Reserved'',
      ''Reserved'', ''Reserved'', ''Reserved'', ''Reserved'', ''Reserved'', ''Reserved'',
      ''Reserved'', ''Reserved'', ''Reserved'', ''Reserved'', ''Reserved'', ''Reserved'']"

text \<open>The lines of the report, in order: a drawing with the exception's name, then the registers.\<close>

definition exception_banner :: "int_frame \<Rightarrow> (string \<times> va list) list" where
  "exception_banner r =
     [(''Oh no!{n}'', []),
      (''               _.------.{n}'', []),
      (''           _.-`    ('' @ CHR 0x27 # ''>.-`'' @ CHR 0x22 # ''-.{n}'', []),
      ('' '' @ CHR 0x27 # ''.__.---'' @ CHR 0x27 # ''`       _'' @ CHR 0x27 # ''`   _ .--.){n}'', []),
      (''        -'' @ CHR 0x27 # ''         '' @ CHR 0x27 # ''-.-'' @ CHR 0x27 # '';`   `           ----  '' @
         CHR 0x22 # '' You have gotten exception {d}, aka '' @ CHR 0x27 # ''{s}'' @ CHR 0x27 #
         ''. Below is a provided stack frame. '' @ CHR 0x22 # ''{n}'',
       [VWord (fr_int_no r), VStr (exception_messages ! unat (fr_int_no r))]),
      (''        '' @ CHR 0x27 # '' -      _.'' @ CHR 0x27 # ''  ``'' @ CHR 0x27 # ''--. {n}'', []),
      (''            '' @ CHR 0x27 # ''---`    .-'' @ CHR 0x27 # ''`{n}'', []),
      (''                   /`{n}'', []),
      (''{n}'', []),
      (''{n}'', [])]"

definition exception_registers :: "int_frame \<Rightarrow> (string \<times> va list) list" where
  "exception_registers r =
     [(''error code 0x{xn}'', [VWord (fr_err r)]),
      (''rax 0x{x} | rbx 0x{x} | rcx 0x{x} | rdx 0x{xn}'',
       [VWord (fr_rax r), VWord (fr_rbx r), VWord (fr_rcx r), VWord (fr_rdx r)]),
      (''rdi 0x{x} | rsi 0x{x} | rbp 0x{xn}'', [VWord (fr_rdi r), VWord (fr_rsi r), VWord (fr_rbp r)]),
      (''r8 0x{x} | r9 0x{x} | r10 0x{x} | r11 0x{x} | r12 0x{x} | r13 0x{x} | r14 0x{x} | r15 0x{xn}'',
       [VWord (fr_r8 r), VWord (fr_r9 r), VWord (fr_r10 r), VWord (fr_r11 r),
        VWord (fr_r12 r), VWord (fr_r13 r), VWord (fr_r14 r), VWord (fr_r15 r)]),
      (''rip 0x{x} | cs 0x{x} | ss 0x{x} | rsp 0x{x} | rflags 0x{xn}'',
       [VWord (fr_rip r), VWord (fr_cs r), VWord (fr_ss r), VWord (fr_rsp r), VWord (fr_rflags r)])]"

definition exception_handler :: "int_frame \<Rightarrow> kernel \<Rightarrow> failure + kernel" where
  "exception_handler r s =
     sbind (if fr_int_no r < 32
            then sbind (foldE (\<lambda>(fmt, args). printf fmt args) (exception_banner r @ exception_registers r) s)
                   (\<lambda>s. Inl (cli_hlt s))
            else Inr s) (\<lambda>s.
     let s = (if fr_int_no r = 0xAC then apic_timer s else s)
     in if fr_int_no r = 33 then ps2_handler s else Inr s)"

section \<open>The stubs\<close>

datatype reg = RAX | RBX | RCX | RDX | RBP | RSI | RDI | R8 | R9 | R10 | R11 | R12 | R13 | R14 | R15

text \<open>
  The instructions of \<open>idt.asm\<close>. \<open>mov rdi, rsp; call exception_handler\<close> is one step: the C
  function reads its frame from the top of the stack and leaves arbitrary values in the
  registers. \<open>iretq\<close> ends the stub.
\<close>

datatype instr = Push_Imm u64 | Push_Reg reg | Pop_Reg reg | Call_Handler | Add_Rsp nat | Iretq

definition isr_stub :: "nat \<Rightarrow> instr list" where
  "isr_stub v = (if v \<in> {8, 10, 11, 12, 13, 14} then [] else [Push_Imm 0]) @ [Push_Imm (of_nat v)]"

definition pushaq :: "instr list" where
  "pushaq = map Push_Reg [RAX, RBX, RCX, RDX, RBP, RSI, RDI, R8, R9, R10, R11, R12, R13, R14, R15]"

definition popaq :: "instr list" where
  "popaq = map Pop_Reg [R15, R14, R13, R12, R11, R10, R9, R8, RDI, RSI, RBP, RDX, RCX, RBX, RAX]"

definition isr_common_stub :: "instr list" where
  "isr_common_stub = pushaq @ [Call_Handler] @ popaq @ [Add_Rsp 16, Iretq]"

text \<open>
  The processor: the program counter and what goes with it (\<open>int_context\<close>), the general registers,
  and the stack of the kernel, top first.
\<close>

record int_context =
  at_rip :: u64
  at_cs :: u64
  at_rflags :: u64
  at_rsp :: u64
  at_ss :: u64

record cpu =
  regs :: "reg \<Rightarrow> u64"
  stack :: "u64 list"

definition read_frame :: "u64 list \<Rightarrow> int_frame option" where
  "read_frame st =
     (case st of
        r15 # r14 # r13 # r12 # r11 # r10 # r9 # r8 # rdi # rsi # rbp # rdx # rcx # rbx # rax #
        int_no # err # rip # c # ss # rsp # rflags # _ \<Rightarrow>
          Some \<lparr>fr_r15 = r15, fr_r14 = r14, fr_r13 = r13, fr_r12 = r12, fr_r11 = r11, fr_r10 = r10,
            fr_r9 = r9, fr_r8 = r8, fr_rdi = rdi, fr_rsi = rsi, fr_rbp = rbp, fr_rdx = rdx,
            fr_rcx = rcx, fr_rbx = rbx, fr_rax = rax, fr_int_no = int_no, fr_err = err, fr_rip = rip,
            fr_cs = c, fr_ss = ss, fr_rsp = rsp, fr_rflags = rflags\<rparr>
      | _ \<Rightarrow> None)"

text \<open>\<open>clobber\<close> is what the compiled handler leaves in the registers.\<close>

fun run_isr :: "(reg \<Rightarrow> u64) \<Rightarrow> instr list \<Rightarrow> cpu \<Rightarrow> kernel \<Rightarrow> failure + (int_context \<times> cpu \<times> kernel)" where
  "run_isr clobber [] p s = Inl (Out_of_bounds, s)"
| "run_isr clobber (Push_Imm w # code) p s = run_isr clobber code (p\<lparr>stack := w # stack p\<rparr>) s"
| "run_isr clobber (Push_Reg x # code) p s = run_isr clobber code (p\<lparr>stack := regs p x # stack p\<rparr>) s"
| "run_isr clobber (Pop_Reg x # code) p s =
     (case stack p of
        w # st \<Rightarrow> run_isr clobber code (p\<lparr>regs := (regs p)(x := w), stack := st\<rparr>) s
      | [] \<Rightarrow> Inl (Out_of_bounds, s))"
| "run_isr clobber (Call_Handler # code) p s =
     (case read_frame (stack p) of
        Some r \<Rightarrow> sbind (exception_handler r s) (run_isr clobber code (p\<lparr>regs := clobber\<rparr>))
      | None \<Rightarrow> Inl (Out_of_bounds, s))"
| "run_isr clobber (Add_Rsp n # code) p s = run_isr clobber code (p\<lparr>stack := drop (n div 8) (stack p)\<rparr>) s"
| "run_isr clobber (Iretq # code) p s =
     (case stack p of
        rip # c # rflags # rsp # ss # st \<Rightarrow>
          Inr (\<lparr>at_rip = rip, at_cs = c, at_rflags = rflags, at_rsp = rsp, at_ss = ss\<rparr>, p\<lparr>stack := st\<rparr>, s)
      | _ \<Rightarrow> Inl (Out_of_bounds, s))"

text \<open>
  What the processor does first, from its manual: it pushes \<open>ss\<close>, \<open>rsp\<close>, \<open>rflags\<close>, \<open>cs\<close> and \<open>rip\<close>,
  and for ten of the exceptions an error code. Then it jumps to the stub.
\<close>

definition pushes_error :: "nat \<Rightarrow> bool" where
  "pushes_error v \<longleftrightarrow> v \<in> {8, 10, 11, 12, 13, 14, 17, 21, 29, 30}"

definition deliver :: "nat \<Rightarrow> u64 \<Rightarrow> int_context \<Rightarrow> cpu \<Rightarrow> cpu" where
  "deliver v err c p =
     p\<lparr>stack := (if pushes_error v then [err] else []) @ [at_rip c, at_cs c, at_rflags c, at_rsp c, at_ss c] @ stack p\<rparr>"

definition interrupt ::
  "(reg \<Rightarrow> u64) \<Rightarrow> nat \<Rightarrow> u64 \<Rightarrow> int_context \<Rightarrow> cpu \<Rightarrow> kernel \<Rightarrow> failure + (int_context \<times> cpu \<times> kernel)" where
  "interrupt clobber v err c p s = run_isr clobber (isr_stub v @ isr_common_stub) (deliver v err c p) s"

section \<open>Gates\<close>

text \<open>The address the processor reads from a gate.\<close>

definition gate_target :: "idtentry \<Rightarrow> u64" where
  "gate_target e = ucast (isr_low e) OR push_bit 16 (ucast (isr_mid e)) OR push_bit 32 (ucast (isr_high e))"

definition interrupt_gate :: "u64 \<Rightarrow> idtentry \<Rightarrow> bool" where
  "interrupt_gate isr e \<longleftrightarrow> gate_target e = isr \<and> kernel_cs e = 0x08 \<and> ist e = 0 \<and> attributes e = 0x8E"

definition gate :: "u64 \<Rightarrow> u8 \<Rightarrow> idtentry" where
  "gate isr flags =
     \<lparr>isr_low = ucast (isr AND 0xFFFF), kernel_cs = 0x08, ist = 0, attributes = flags,
      isr_mid = ucast (drop_bit 16 isr AND 0xFFFF), isr_high = ucast (drop_bit 32 isr AND 0xFFFFFFFF),
      reserved = 0\<rparr>"

lemma set_gate_eq: "idt_set_gate vector isr flags s = s\<lparr>idt := (idt s)[unat vector := gate isr flags]\<rparr>"
  by (simp add: idt_set_gate_def gate_def)

lemma mask32: "bit (4294967295 :: int) n \<longleftrightarrow> n < 32"
proof -
  have "(4294967295 :: int) = mask 32" by (simp add: mask_eq_exp_minus_1)
  then show ?thesis by (simp only: bit_mask_iff) simp
qed

lemma gate_target_gate: "gate_target (gate isr flags) = isr"
proof (rule bit_word_eqI)
  fix n
  assume n: "n < LENGTH(64)"
  consider "n < 16" | "16 \<le> n" "n < 32" | "32 \<le> n" by linarith
  then show "bit (gate_target (gate isr flags)) n = bit isr n"
    using n by cases (auto simp: gate_target_def gate_def bit_simps int_mask_bits mask32)
qed

lemma interrupt_gate_gate: "interrupt_gate isr (gate isr 0x8E)"
  by (simp add: interrupt_gate_def gate_target_gate) (simp add: gate_def)

lemma fold_gates:
  "n \<le> 256 \<Longrightarrow> length (idt s) = 256 \<Longrightarrow>
    fold (\<lambda>v. idt_set_gate (of_nat v) (isr v) 0x8E) [0..<n] s =
      s\<lparr>idt := map (\<lambda>v. gate (isr v) 0x8E) [0..<n] @ drop n (idt s)\<rparr>"
proof (induction n)
  case (Suc n)
  have "unat (of_nat n :: u8) = n" using Suc.prems by (simp add: unat_of_nat take_bit_nat_eq_self)
  moreover have "drop n (idt s) = (idt s ! n) # drop (Suc n) (idt s)" using Suc.prems by (simp add: Cons_nth_drop_Suc)
  ultimately show ?case using Suc by (simp add: set_gate_eq list_update_append)
qed simp

definition installed :: "nat \<Rightarrow> bool" where
  "installed v \<longleftrightarrow> v < 32 \<or> v = 33 \<or> v = 172"

lemma idt_init_gates:
  assumes "length (idt s) = 256" "v < 256"
  shows "idt (idt_init idt_addr isr s) ! v = (if installed v then gate (isr v) 0x8E else idt s ! v)"
  using assms by (simp add: idt_init_def idt_load_def emit_def fold_gates set_gate_eq installed_def nth_list_update nth_append)

definition gates_installed :: "(nat \<Rightarrow> u64) \<Rightarrow> kernel \<Rightarrow> bool" where
  "gates_installed isr s \<longleftrightarrow>
     length (idt s) = 256 \<and> (\<forall>v < 256. installed v \<longrightarrow> interrupt_gate (isr v) (idt s ! v))"

lemma gates_installed_cong: "idt t = idt s \<Longrightarrow> gates_installed isr t = gates_installed isr s"
  by (simp add: gates_installed_def)

lemma idt_init_gates_installed:
  "length (idt s) = 256 \<Longrightarrow> gates_installed isr (idt_init idt_addr isr s)"
  by (simp add: gates_installed_def idt_init_gates interrupt_gate_gate)
    (simp add: idt_init_def idt_load_def emit_def fold_gates set_gate_eq)

text \<open>The present bit; the gates the kernel does not install stay absent.\<close>

definition gate_present :: "idtentry \<Rightarrow> bool" where
  "gate_present e \<longleftrightarrow> bit (attributes e) 7"

definition idt_ready :: "(nat \<Rightarrow> u64) \<Rightarrow> kernel \<Rightarrow> bool" where
  "idt_ready isr s \<longleftrightarrow> gates_installed isr s \<and> (\<forall>v < 256. gate_present (idt s ! v) = installed v)"

lemma idt_ready_cong: "idt t = idt s \<Longrightarrow> idt_ready isr t = idt_ready isr s"
  by (simp add: idt_ready_def gates_installed_def)

lemma interrupt_gate_present: "interrupt_gate isr e \<Longrightarrow> gate_present e"
proof -
  assume "interrupt_gate isr e"
  moreover have "bit (0x8E :: u8) 7" by code_simp
  ultimately show ?thesis by (simp add: interrupt_gate_def gate_present_def)
qed

lemma idt_init_ready:
  assumes "idt s = replicate 256 zero_idtentry"
  shows "idt_ready isr (idt_init idt_addr isr s)"
proof -
  have len: "length (idt s) = 256" by (simp add: assms)
  have "gate_present (idt (idt_init idt_addr isr s) ! v) = installed v" if "v < 256" for v
    using idt_init_gates [OF len that] interrupt_gate_present [OF interrupt_gate_gate] that
    by (simp add: assms gate_present_def zero_idtentry_def)
  then show ?thesis using idt_init_gates_installed [OF len] by (simp add: idt_ready_def)
qed

section \<open>An interrupt\<close>

text \<open>The vectors whose stub pushes a dummy on top of the error code of the processor.\<close>

definition double_error :: "nat \<Rightarrow> bool" where
  "double_error v \<longleftrightarrow> v \<in> {17, 21, 29, 30}"

text \<open>The frame the C handler sees.\<close>

definition frame_of :: "nat \<Rightarrow> u64 \<Rightarrow> int_context \<Rightarrow> cpu \<Rightarrow> int_frame" where
  "frame_of v err c p =
     (let g = regs p;
          saved = (if double_error v then [err] else []) @ [at_rip c, at_cs c, at_rflags c, at_rsp c, at_ss c]
      in \<lparr>fr_r15 = g R15, fr_r14 = g R14, fr_r13 = g R13, fr_r12 = g R12, fr_r11 = g R11, fr_r10 = g R10,
          fr_r9 = g R9, fr_r8 = g R8, fr_rdi = g RDI, fr_rsi = g RSI, fr_rbp = g RBP, fr_rdx = g RDX,
          fr_rcx = g RCX, fr_rbx = g RBX, fr_rax = g RAX, fr_int_no = of_nat v,
          fr_err = (if pushes_error v \<and> \<not> double_error v then err else 0),
          fr_rip = saved ! 0, fr_cs = saved ! 1, fr_ss = saved ! 2, fr_rsp = saved ! 3, fr_rflags = saved ! 4\<rparr>)"

lemma frame_general:
  "fr_rax (frame_of v err c p) = regs p RAX" "fr_rbx (frame_of v err c p) = regs p RBX"
  "fr_rcx (frame_of v err c p) = regs p RCX" "fr_rdx (frame_of v err c p) = regs p RDX"
  "fr_rdi (frame_of v err c p) = regs p RDI" "fr_rsi (frame_of v err c p) = regs p RSI"
  "fr_rbp (frame_of v err c p) = regs p RBP" "fr_r8 (frame_of v err c p) = regs p R8"
  "fr_r9 (frame_of v err c p) = regs p R9" "fr_r10 (frame_of v err c p) = regs p R10"
  "fr_r11 (frame_of v err c p) = regs p R11" "fr_r12 (frame_of v err c p) = regs p R12"
  "fr_r13 (frame_of v err c p) = regs p R13" "fr_r14 (frame_of v err c p) = regs p R14"
  "fr_r15 (frame_of v err c p) = regs p R15"
  "fr_err (frame_of v err c p) = (if pushes_error v \<and> \<not> double_error v then err else 0)"
  by (simp_all add: frame_of_def Let_def)

lemma restore_regs:
  "clobber(R15 := g R15, R14 := g R14, R13 := g R13, R12 := g R12, R11 := g R11, R10 := g R10, R9 := g R9,
     R8 := g R8, RDI := g RDI, RSI := g RSI, RBP := g RBP, RDX := g RDX, RCX := g RCX, RBX := g RBX, RAX := g RAX) = g"
proof
  fix x
  show "(clobber(R15 := g R15, R14 := g R14, R13 := g R13, R12 := g R12, R11 := g R11, R10 := g R10, R9 := g R9,
     R8 := g R8, RDI := g RDI, RSI := g RSI, RBP := g RBP, RDX := g RDX, RCX := g RCX, RBX := g RBX, RAX := g RAX)) x = g x"
    by (cases x) simp_all
qed

text \<open>Saving the registers, and taking them back.\<close>

definition saved_regs :: "(reg \<Rightarrow> u64) \<Rightarrow> u64 list" where
  "saved_regs g = map g [R15, R14, R13, R12, R11, R10, R9, R8, RDI, RSI, RBP, RDX, RCX, RBX, RAX]"

lemma run_prologue:
  "run_isr clobber (pushaq @ Call_Handler # code) p s =
     (case read_frame (saved_regs (regs p) @ stack p) of
        Some r \<Rightarrow> sbind (exception_handler r s)
          (run_isr clobber code (p\<lparr>stack := saved_regs (regs p) @ stack p, regs := clobber\<rparr>))
      | None \<Rightarrow> Inl (Out_of_bounds, s))"
  by (simp add: pushaq_def saved_regs_def cong: option.case_cong)

lemma run_epilogue:
  "run_isr clobber (popaq @ [Add_Rsp 16, Iretq])
     (p\<lparr>stack := saved_regs g @ [int_no, err, rip, c, rflags, rsp, ss] @ st, regs := clobber\<rparr>) =
   (\<lambda>t. Inr (\<lparr>at_rip = rip, at_cs = c, at_rflags = rflags, at_rsp = rsp, at_ss = ss\<rparr>, p\<lparr>regs := g, stack := st\<rparr>, t))"
  by (rule ext) (simp add: popaq_def saved_regs_def restore_regs)

lemma frame_read:
  "read_frame (saved_regs (regs p) @ of_nat v # (if pushes_error v \<and> \<not> double_error v then err else 0) #
      (if double_error v then [err] else []) @ [at_rip c, at_cs c, at_rflags c, at_rsp c, at_ss c] @ st) =
    Some (frame_of v err c p)"
  by (simp add: read_frame_def saved_regs_def frame_of_def Let_def)

lemma interrupt_calls:
  "\<exists>K. interrupt clobber v err c p s = sbind (exception_handler (frame_of v err c p) s) K \<and>
     (\<not> double_error v \<longrightarrow> K = (\<lambda>t. Inr (c, p, t)))"
proof -
  let ?words = "of_nat v # (if pushes_error v \<and> \<not> double_error v then err else 0) #
      (if double_error v then [err] else []) @ [at_rip c, at_cs c, at_rflags c, at_rsp c, at_ss c] @ stack p"
  let ?code = "popaq @ [Add_Rsp 16, Iretq]"
  have "interrupt clobber v err c p s = run_isr clobber (pushaq @ Call_Handler # ?code) (p\<lparr>stack := ?words\<rparr>) s"
    by (auto simp: interrupt_def isr_common_stub_def isr_stub_def deliver_def pushes_error_def double_error_def)
  also have "\<dots> = sbind (exception_handler (frame_of v err c p) s)
      (run_isr clobber ?code (p\<lparr>stack := saved_regs (regs p) @ ?words, regs := clobber\<rparr>))"
    using frame_read [of p v err c "stack p"] by (simp add: run_prologue)
  finally have eq: "interrupt clobber v err c p s = \<dots>" .
  show ?thesis
  proof (cases "double_error v")
    case True
    with eq show ?thesis by blast
  next
    case False
    have "run_isr clobber ?code (p\<lparr>stack := saved_regs (regs p) @ ?words, regs := clobber\<rparr>) = (\<lambda>t. Inr (c, p, t))"
      using False run_epilogue [where clobber = clobber and p = p and g = "regs p" and st = "stack p"] by (simp add: fun_eq_iff)
    with eq show ?thesis by auto
  qed
qed

section \<open>The report of an exception\<close>

definition hex :: "u64 \<Rightarrow> string" where
  "hex w = numeral_text 16 (unat w)"

text \<open>A line of registers: name, \<open>0x\<close> and value of each.\<close>

fun register_line :: "(string \<times> u64) list \<Rightarrow> string" where
  "register_line [] = []"
| "register_line [(n, w)] = n @ '' 0x'' @ hex w @ [CHR 0x0A]"
| "register_line ((n, w) # rest) = n @ '' 0x'' @ hex w @ '' | '' @ register_line rest"

definition register_dump :: "int_frame \<Rightarrow> string" where
  "register_dump r =
     concat (map register_line
       [[(''error code'', fr_err r)],
        [(''rax'', fr_rax r), (''rbx'', fr_rbx r), (''rcx'', fr_rcx r), (''rdx'', fr_rdx r)],
        [(''rdi'', fr_rdi r), (''rsi'', fr_rsi r), (''rbp'', fr_rbp r)],
        [(''r8'', fr_r8 r), (''r9'', fr_r9 r), (''r10'', fr_r10 r), (''r11'', fr_r11 r),
         (''r12'', fr_r12 r), (''r13'', fr_r13 r), (''r14'', fr_r14 r), (''r15'', fr_r15 r)],
        [(''rip'', fr_rip r), (''cs'', fr_cs r), (''ss'', fr_ss r), (''rsp'', fr_rsp r), (''rflags'', fr_rflags r)]])"

lemma word_text_x: "word_text CHR ''x'' w = hex w"
  by (simp add: word_text_def hex_def)

lemma print_lines:
  assumes "\<forall>(fmt, args) \<in> set ls. fits fmt args"
  shows "foldE (\<lambda>(fmt, args). printf fmt args) ls s =
    Inr (s\<lparr>console := console s @ concat (map (\<lambda>(fmt, args). printed fmt args) ls)\<rparr>)"
  using assms
proof (induction ls arbitrary: s)
  case (Cons l ls)
  then show ?case by (cases l) (simp add: printf_fits)
qed simp

lemma fits_banner: "\<forall>(fmt, args) \<in> set (exception_banner r). fits fmt args"
  by (simp add: exception_banner_def fits_simps)

lemma fits_registers: "\<forall>(fmt, args) \<in> set (exception_registers r). fits fmt args"
  by (simp add: exception_registers_def fits_simps)

lemma concat_singletons [simp]: "concat (map (\<lambda>d. [d]) cs) = cs"
  by (induction cs) simp_all

lemma printed_registers:
  "concat (concat (map (\<lambda>(fmt, args). printed fmt args) (exception_registers r))) = register_dump r"
  by (simp add: exception_registers_def register_dump_def printed_def specifier_kind_def word_text_x)

definition exception_name :: "nat \<Rightarrow> string" where
  "exception_name v =
     ''You have gotten exception '' @ numeral_text 10 v @ '', aka '' @
     [CHR 0x27] @ c_string (exception_messages ! v) @ [CHR 0x27]"

lemma printed_name:
  "concat (case exception_banner r ! 4 of (fmt, args) \<Rightarrow> printed fmt args) =
     (''        -'' @ CHR 0x27 # ''         '' @ CHR 0x27 # ''-.-'' @ CHR 0x27 # '';`   `           ----  '' @ CHR 0x22 # '' '') @
     exception_name (unat (fr_int_no r)) @ (''. Below is a provided stack frame. '' @ CHR 0x22 # [CHR 0x0A])"
  by (simp add: exception_banner_def exception_name_def printed_def specifier_kind_def word_text_def)

lemma printed_banner:
  "\<exists>a b. concat (concat (map (\<lambda>(fmt, args). printed fmt args) (exception_banner r))) = a @ exception_name (unat (fr_int_no r)) @ b"
proof -
  let ?f = "\<lambda>(fmt, args). printed fmt args"
  have split: "exception_banner r = take 4 (exception_banner r) @ exception_banner r ! 4 # drop 5 (exception_banner r)"
    by (simp add: exception_banner_def)
  obtain a b where n: "concat (?f (exception_banner r ! 4)) = a @ exception_name (unat (fr_int_no r)) @ b"
    using printed_name by blast
  have "concat (concat (map ?f (exception_banner r))) = concat (concat (map ?f (take 4 (exception_banner r)))) @
      concat (?f (exception_banner r ! 4)) @ concat (concat (map ?f (drop 5 (exception_banner r))))"
    by (subst split) (simp only: map_append list.map concat_append concat.simps)
  then show ?thesis unfolding n append_assoc by (metis append_assoc)
qed

lemma exception_halts:
  assumes "fr_int_no r < 32"
  shows "\<exists>t a b. exception_handler r s = Inl (Halted, t) \<and> io t = io s @ [Cli, Hlt] \<and>
    t = s\<lparr>console := console t, io := io t\<rparr> \<and> shown t = shown s @ a @ exception_name (unat (fr_int_no r)) @ b @ register_dump r"
proof -
  let ?ls = "exception_banner r @ exception_registers r"
  let ?out = "concat (map (\<lambda>(fmt, args). printed fmt args) ?ls)"
  have "foldE (\<lambda>(fmt, args). printf fmt args) ?ls s = Inr (s\<lparr>console := console s @ ?out\<rparr>)"
    using fits_banner [of r] fits_registers [of r] by (intro print_lines) (simp only: set_append ball_Un)
  then have "exception_handler r s = Inl (Halted, s\<lparr>console := console s @ ?out, io := io s @ [Cli, Hlt]\<rparr>)"
    using assms by (simp add: exception_handler_def cli_hlt_def emit_def)
  moreover obtain a b where "concat ?out = (a @ exception_name (unat (fr_int_no r)) @ b) @ register_dump r"
    using printed_banner [of r] by (auto simp only: map_append concat_append printed_registers)
  ultimately show ?thesis
    by (intro exI [of _ "s\<lparr>console := console s @ ?out, io := io s @ [Cli, Hlt]\<rparr>"] exI [of _ a] exI [of _ b])
      (simp add: shown_def)
qed

section \<open>Properties\<close>

text \<open>
  C28. idt_init installs a present interrupt gate with the kernel's code selector for the 32
  exceptions, the keyboard and the timer, each with exactly the address of its own stub, leaves
  the other gates as they were, and loads the table of 4096 bytes before it enables interrupts.
\<close>

theorem idt_init_installs:
  assumes "length (idt s) = 256"
  shows "io (idt_init idt_addr isr s) = io s @ [Lidt 4095 idt_addr, Sti] \<and>
    (\<forall>v < 256. if installed v then interrupt_gate (isr v) (idt (idt_init idt_addr isr s) ! v)
               else idt (idt_init idt_addr isr s) ! v = idt s ! v)"
proof -
  have "io (idt_init idt_addr isr s) = io s @ [Lidt 4095 idt_addr, Sti]"
    using assms by (simp add: idt_init_def idt_load_def emit_def fold_gates set_gate_eq sizeof_idtentry_at)
  then show ?thesis using idt_init_gates [OF assms] interrupt_gate_gate by simp
qed

lemma idt_init_installs_witness:
  "interrupt_gate 0xffffffff80001210 (idt (idt_init 0xffffffff80010000 (\<lambda>v. 0xffffffff80001000 + 16 * of_nat v) quiet_kernel) ! 33)"
proof -
  have "length (idt quiet_kernel) = 256" by (simp add: quiet_kernel_def initial_kernel_def)
  note gates = idt_init_installs [OF this, THEN conjunct2, rule_format, of 33, where isr = "\<lambda>v. 0xffffffff80001000 + 16 * of_nat v"]
  then show ?thesis by (simp add: installed_def)
qed

lemma interrupt_served:
  "interrupt clobber 172 err c p s = Inr (c, p, apic_timer s) \<and>
   interrupt clobber 33 err c p s = sbind (ps2_handler s) (\<lambda>t. Inr (c, p, t))"
proof -
  have "\<not> double_error 172" "\<not> double_error 33" by (simp_all add: double_error_def)
  moreover have "fr_int_no (frame_of v err c p) = of_nat v" for v by (simp add: frame_of_def Let_def)
  ultimately show ?thesis
    using interrupt_calls [of clobber 172 err c p s] interrupt_calls [of clobber 33 err c p s]
    by (auto simp: exception_handler_def Let_def)
qed

text \<open>
  C26. The timer and the keyboard interrupt are transparent: whatever the interrupted code was
  doing and whatever the C handler leaves in the registers, the stub returns to the interrupted
  instruction with every register and the stack as they were, and the kernel's state changed by
  the handler of that device and by nothing else.
\<close>

theorem isr_transparent:
  "interrupt clobber 172 err c p s = Inr (c, p, apic_timer s) \<and>
   interrupt clobber 33 err c p s = sbind (ps2_handler s) (\<lambda>t. Inr (c, p, t))"
  by (rule interrupt_served)

lemma interrupt_halts:
  assumes "v < 32"
  shows "\<exists>t a b. interrupt clobber v err c p s = Inl (Halted, t) \<and> io t = io s @ [Cli, Hlt] \<and>
    t = s\<lparr>console := console t, io := io t\<rparr> \<and>
    shown t = shown s @ a @ exception_name v @ b @ register_dump (frame_of v err c p)"
proof -
  let ?r = "frame_of v err c p"
  have no: "unat (fr_int_no ?r) = v" "fr_int_no ?r < 32"
    using assms by (simp_all add: frame_of_def Let_def word_less_nat_alt unat_of_nat_u64)
  then obtain t a b where t: "exception_handler ?r s = Inl (Halted, t)" "io t = io s @ [Cli, Hlt]"
    "t = s\<lparr>console := console t, io := io t\<rparr>" "shown t = shown s @ a @ exception_name v @ b @ register_dump ?r"
    using exception_halts [of ?r s] by auto
  moreover have "interrupt clobber v err c p s = Inl (Halted, t)"
    using interrupt_calls [of clobber v err c p s] t(1) by auto
  ultimately show ?thesis by blast
qed

lemma register_dump_frame:
  "register_dump (frame_of v err c p) = concat (map register_line
      [[(''error code'', if pushes_error v \<and> \<not> double_error v then err else 0)],
       [(''rax'', regs p RAX), (''rbx'', regs p RBX), (''rcx'', regs p RCX), (''rdx'', regs p RDX)],
       [(''rdi'', regs p RDI), (''rsi'', regs p RSI), (''rbp'', regs p RBP)],
       [(''r8'', regs p R8), (''r9'', regs p R9), (''r10'', regs p R10), (''r11'', regs p R11),
        (''r12'', regs p R12), (''r13'', regs p R13), (''r14'', regs p R14), (''r15'', regs p R15)],
       if double_error v
       then [(''rip'', err), (''cs'', at_rip c), (''ss'', at_cs c), (''rsp'', at_rflags c), (''rflags'', at_rsp c)]
       else [(''rip'', at_rip c), (''cs'', at_cs c), (''ss'', at_rflags c), (''rsp'', at_rsp c), (''rflags'', at_ss c)]])"
  by (cases "double_error v") (simp_all add: register_dump_def frame_general, simp_all add: frame_of_def Let_def)

text \<open>
  C27. An exception never returns: the stub and the handler halt the processor with interrupts
  off after a report that names the exception and shows, next to its name, every general register
  as it was in the interrupted code. For the four vectors whose stub pushes a dummy above the error
  code of the processor the report shows the error code as rip and each of the other values one
  place off; for all others it shows the error code, rip, cs and rsp of the interrupted code, and
  rflags and ss in each other's place. Nothing but the terminal's text changes.
\<close>

theorem exception_report:
  assumes "v < 32"
  shows "\<exists>t a b. interrupt clobber v err c p s = Inl (Halted, t) \<and> io t = io s @ [Cli, Hlt] \<and>
    t = s\<lparr>console := console t, io := io t\<rparr> \<and>
    shown t = shown s @ a @ exception_name v @ b @ concat (map register_line
      [[(''error code'', if pushes_error v \<and> \<not> double_error v then err else 0)],
       [(''rax'', regs p RAX), (''rbx'', regs p RBX), (''rcx'', regs p RCX), (''rdx'', regs p RDX)],
       [(''rdi'', regs p RDI), (''rsi'', regs p RSI), (''rbp'', regs p RBP)],
       [(''r8'', regs p R8), (''r9'', regs p R9), (''r10'', regs p R10), (''r11'', regs p R11),
        (''r12'', regs p R12), (''r13'', regs p R13), (''r14'', regs p R14), (''r15'', regs p R15)],
       if double_error v
       then [(''rip'', err), (''cs'', at_rip c), (''ss'', at_cs c), (''rsp'', at_rflags c), (''rflags'', at_rsp c)]
       else [(''rip'', at_rip c), (''cs'', at_cs c), (''ss'', at_rflags c), (''rsp'', at_rsp c), (''rflags'', at_ss c)]])"
  using interrupt_halts [OF assms, of clobber err c p s] unfolding register_dump_frame .

definition idle_context :: int_context where
  "idle_context = \<lparr>at_rip = 0xffffffff80001234, at_cs = 0x08, at_rflags = 0x202, at_rsp = 0x7000, at_ss = 0x10\<rparr>"

lemma exception_report_witness:
  "\<exists>t a b. interrupt (\<lambda>_. 0) 14 2 idle_context \<lparr>regs = (\<lambda>_. 7), stack = []\<rparr> quiet_kernel = Inl (Halted, t) \<and>
     io t = [Cli, Hlt] \<and> shown t = a @ exception_name 14 @ b @ concat (map register_line
      [[(''error code'', 2)],
       [(''rax'', 7), (''rbx'', 7), (''rcx'', 7), (''rdx'', 7)],
       [(''rdi'', 7), (''rsi'', 7), (''rbp'', 7)],
       [(''r8'', 7), (''r9'', 7), (''r10'', 7), (''r11'', 7), (''r12'', 7), (''r13'', 7), (''r14'', 7), (''r15'', 7)],
       [(''rip'', 0xffffffff80001234), (''cs'', 0x08), (''ss'', 0x202), (''rsp'', 0x7000), (''rflags'', 0x10)]])"
proof -
  have e: "double_error 14 = False" "pushes_error 14 = True" "(14 :: nat) < 32" by (simp_all add: double_error_def pushes_error_def)
  have q: "shown quiet_kernel = []" "at_rip idle_context = 0xffffffff80001234" "at_cs idle_context = 0x08"
    "at_rflags idle_context = 0x202" "at_rsp idle_context = 0x7000" "at_ss idle_context = 0x10"
    by (simp_all add: shown_def idle_context_def)
  show ?thesis
    using exception_report [OF e(3), of "\<lambda>_. 0" 2 idle_context "\<lparr>regs = (\<lambda>_. 7), stack = []\<rparr>" quiet_kernel]
    unfolding e q quiet_kernel_simps if_False if_True append_Nil simp_thms cpu.simps by blast
qed

end
