(* ===== verification/Acpi.thy ===== *)
theory Acpi
  imports CString Printf Layout
begin

text \<open>
  \<open>kern/sys/acpi/acpi.c\<close> up to the initialisation: the root tables, the lookup of a table by its
  signature, and the delay on the power-management timer. The tables are read where the firmware
  left them in memory, at the offsets of the packed structs of \<open>acpi.h\<close>.
\<close>

section \<open>The functions\<close>

definition sizeof_sdt :: u64 where "sizeof_sdt = of_nat (sizeof sdt_layout)"

text \<open>Members of the packed structs, by their addresses.\<close>

definition sdt_length :: "kernel \<Rightarrow> u64 \<Rightarrow> u32" where
  "sdt_length s t = rd32 s (t + of_nat (offset_of sdt_layout ''length''))"
definition rsdp_rsdtaddress :: "kernel \<Rightarrow> u64 \<Rightarrow> u32" where
  "rsdp_rsdtaddress s p = rd32 s (p + of_nat (offset_of rsdp_layout ''rsdtaddress''))"
definition rsdp_xsdtaddress :: "kernel \<Rightarrow> u64 \<Rightarrow> u64" where
  "rsdp_xsdtaddress s p = rd64 s (p + of_nat (offset_of rsdp_layout ''xsdtaddress''))"
definition rsdt_tableptr :: "kernel \<Rightarrow> u64 \<Rightarrow> nat \<Rightarrow> u64" where
  "rsdt_tableptr s t i = ucast (rd32 s (t + of_nat (offset_of rsdt_layout ''tableptrs'' + 4 * i)))"
definition xsdt_tableptr :: "kernel \<Rightarrow> u64 \<Rightarrow> nat \<Rightarrow> u64" where
  "xsdt_tableptr s t i = rd64 s (t + of_nat (offset_of xsdt_layout ''tableptrs'' + 8 * i))"
definition fadt_PMTimerBlock :: "kernel \<Rightarrow> u64 \<Rightarrow> u32" where
  "fadt_PMTimerBlock s t = rd32 s (t + of_nat (offset_of fadt_layout ''PMTimerBlock''))"
definition fadt_PMTimerLength :: "kernel \<Rightarrow> u64 \<Rightarrow> u8" where
  "fadt_PMTimerLength s t = rd8 s (t + of_nat (offset_of fadt_layout ''PMTimerLength''))"

text \<open>The same with the offsets computed.\<close>

lemma sizeof_sdt_at: "sizeof_sdt = 36"
  by (simp add: sizeof_sdt_def acpi_sizes)

lemma acpi_members:
  shows sdt_length_at: "sdt_length s t = rd32 s (t + 4)"
    and rsdp_rsdtaddress_at: "rsdp_rsdtaddress s t = rd32 s (t + 16)"
    and rsdp_xsdtaddress_at: "rsdp_xsdtaddress s t = rd64 s (t + 24)"
    and rsdt_tableptr_at: "rsdt_tableptr s t i = ucast (rd32 s (t + sizeof_sdt + of_nat (4 * i)))"
    and xsdt_tableptr_at: "xsdt_tableptr s t i = rd64 s (t + sizeof_sdt + of_nat (8 * i))"
    and fadt_PMTimerBlock_at: "fadt_PMTimerBlock s t = rd32 s (t + 76)"
    and fadt_PMTimerLength_at: "fadt_PMTimerLength s t = rd8 s (t + 91)"
  by (simp_all add: sdt_length_def rsdp_rsdtaddress_def rsdp_xsdtaddress_def rsdt_tableptr_def xsdt_tableptr_def
      fadt_PMTimerBlock_def fadt_PMTimerLength_def acpi_offsets sizeof_sdt_at add.assoc)

definition parse_xsdt :: "u64 \<Rightarrow> u64 \<Rightarrow> kernel \<Rightarrow> u64" where
  "parse_xsdt offset rsdp s =
     (if rsdp_xsdtaddress s rsdp = 0 then 0 else rsdp_xsdtaddress s rsdp + offset)"

definition parse_rsdt :: "u64 \<Rightarrow> u64 \<Rightarrow> kernel \<Rightarrow> u64" where
  "parse_rsdt offset rsdp s =
     (if rsdp_rsdtaddress s rsdp = 0 then 0 else ucast (rsdp_rsdtaddress s rsdp) + offset)"

text \<open>The number of entries: an unsigned 64-bit computation stored in an \<open>int\<close>.\<close>

definition rsdt_entries :: "kernel \<Rightarrow> u64 \<Rightarrow> i32" where
  "rsdt_entries s r = ucast ((ucast (sdt_length s r) - sizeof_sdt) div 4)"

definition xsdt_entries :: "kernel \<Rightarrow> u64 \<Rightarrow> i32" where
  "xsdt_entries s x = ucast ((ucast (sdt_length s x) - sizeof_sdt) div 8)"

text \<open>The loop over the entries; 0 is \<open>NULL\<close>.\<close>

function find_table_from :: "kernel \<Rightarrow> u64 \<Rightarrow> (nat \<Rightarrow> u64) \<Rightarrow> i32 \<Rightarrow> nat \<Rightarrow> u64 option" where
  "find_table_from s signature tableptr entries i =
     (if int i < sint entries
      then if memcmp s (tableptr i) signature 4 = 0 then Some (tableptr i)
           else find_table_from s signature tableptr entries (i + 1)
      else None)"
  by pat_completeness auto
termination
  by (relation "measure (\<lambda>(_, _, _, entries, i). nat (sint entries) - i)") auto

declare find_table_from.simps [simp del]

definition cstring_at :: "kernel \<Rightarrow> u64 \<Rightarrow> string option" where
  "cstring_at s a =
     map_option (\<lambda>n. map (\<lambda>k. char_of (unat (rd8 s (a + of_nat k)))) [0..<unat n]) (strlen s a)"

definition signature_args :: "kernel \<Rightarrow> u64 \<Rightarrow> va list" where
  "signature_args s signature =
     [VWord (scast (rd8 s signature)), VWord (scast (rd8 s (signature + 1))),
      VWord (scast (rd8 s (signature + 2))), VWord (scast (rd8 s (signature + 3)))]"

definition find_acpi_table :: "u64 \<Rightarrow> u64 \<Rightarrow> u64 \<Rightarrow> kernel \<Rightarrow> (failure + (u64 \<times> kernel)) option" where
  "find_acpi_table signature rsdt_ptr xsdt_ptr s =
     obind (Some (printf ''acpi: looking for table with signature '{cccc}'{n}'' (signature_args s signature) s)) (\<lambda>s.
     obind (Some (if xsdt_ptr = 0
                  then if rsdt_ptr = 0 then Inl (Null_deref, s)
                       else Inr (find_table_from s signature (rsdt_tableptr s rsdt_ptr) (rsdt_entries s rsdt_ptr) 0)
                  else Inr (find_table_from s signature (xsdt_tableptr s xsdt_ptr) (xsdt_entries s xsdt_ptr) 0))) (\<lambda>found.
     case found of
       Some header \<Rightarrow>
         obind (Some (printf ''acpi: Found table with signature '{cccc}'{n}'' (signature_args s signature) s)) (\<lambda>s.
         Some (Inr (header, s)))
     | None \<Rightarrow>
         (case cstring_at s signature of
            None \<Rightarrow> None
          | Some text \<Rightarrow>
              obind (Some (printf ''acpi: Table '{s}' not found.{n}'' [VStr text] s)) (\<lambda>s.
              Some (Inr (0, s))))))"

definition fetch_fadt :: "u64 \<Rightarrow> kernel \<Rightarrow> (failure + (u64 \<times> kernel)) option" where
  "fetch_fadt facp s = find_acpi_table facp (rsdt s) (xsdt s) s"

definition PMT_TIMER_RATE :: u64 where "PMT_TIMER_RATE = 3579545"

text \<open>The loop reads the port until the 24 low bits of the difference reach the target.\<close>

partial_function (option) pmt_wait :: "u16 \<Rightarrow> u64 \<Rightarrow> u64 \<Rightarrow> u64 \<Rightarrow> kernel \<Rightarrow> kernel option" where
  "pmt_wait port count target current s =
     (if current < target
      then pmt_wait port count target ((ucast (fst (inl port s)) - count) AND 0xffffff) (snd (inl port s))
      else Some s)"

definition pmt_delay :: "u64 \<Rightarrow> kernel \<Rightarrow> (failure + kernel) option" where
  "pmt_delay us s =
     (if fadt_PMTimerLength s (fadt s) \<noteq> 4 then Some (log_panic ''ACPI Timer unavailable'' s)
      else let port = ucast (fadt_PMTimerBlock s (fadt s)) :: u16;
               count = ucast (fst (inl port s));
               s = snd (inl port s);
               target = (us * PMT_TIMER_RATE) div 1000000
           in map_option Inr (pmt_wait port count target 0 s))"

section \<open>Looking up a table\<close>

definition has_signature :: "kernel \<Rightarrow> u64 \<Rightarrow> u64 \<Rightarrow> bool" where
  "has_signature s signature t \<longleftrightarrow> (\<forall>k < 4. rd8 s (t + of_nat k) = rd8 s (signature + of_nat k))"

lemma memcmp_signature: "memcmp s t signature 4 = 0 \<longleftrightarrow> has_signature s signature t"
  by (auto simp: memcmp_def memcmp_loop_zero has_signature_def)

lemma find_table_from_find:
  "find_table_from s signature tableptr entries i = find (has_signature s signature) (map tableptr [i..<nat (sint entries)])"
proof (induction s signature tableptr entries i rule: find_table_from.induct)
  case (1 s signature tableptr entries i)
  show ?case
  proof (cases "int i < sint entries")
    case True
    then have "[i..<nat (sint entries)] = i # [i + 1..<nat (sint entries)]" by (simp add: upt_conv_Cons)
    then show ?thesis using 1 True by (subst find_table_from.simps) (simp add: memcmp_signature)
  next
    case False
    then show ?thesis by (subst find_table_from.simps) simp
  qed
qed

text \<open>The number of whole entries after the header, none for a table shorter than its header.\<close>

lemma short_entries:
  "list_all (\<lambda>n. sint (ucast ((ucast (of_nat n :: u32) - sizeof_sdt) div 4) :: i32) \<le> 0 \<and>
     sint (ucast ((ucast (of_nat n :: u32) - sizeof_sdt) div 8) :: i32) \<le> 0) [0..<36]"
  by code_simp

lemma entries_count:
  fixes len :: u32 and w :: u64
  assumes w: "w = 4 \<or> w = 8"
  shows "nat (sint (ucast ((ucast len - sizeof_sdt) div w) :: i32)) = (unat len - 36) div unat w"
proof (cases "unat len < 36")
  case True
  then have "unat len \<in> set [0..<36]" by simp
  note bspec [OF short_entries [unfolded list_all_iff] this]
  then have "sint (ucast ((ucast len - sizeof_sdt) div w) :: i32) \<le> 0" using w by auto
  then show ?thesis using True by simp
next
  case False
  have len: "unat len < 2 ^ 32" using unsigned_less [of len, where 'a = nat] by simp
  have ul: "unat (ucast len :: u64) = unat len" using len by (simp add: unsigned_ucast_eq take_bit_nat_eq_self)
  then have "unat (ucast len - sizeof_sdt :: u64) = unat len - 36"
    using False by (subst unat_sub) (simp_all add: sizeof_sdt_at word_le_nat_alt)
  then have n: "unat ((ucast len - sizeof_sdt) div w) = (unat len - 36) div unat w" by (simp add: unat_div)
  moreover have "(unat len - 36) div unat w < 2 ^ 31" using w len by auto
  moreover have "(ucast ((ucast len - sizeof_sdt) div w) :: i32) = of_nat (unat ((ucast len - sizeof_sdt) div w))" by simp
  ultimately show ?thesis by (simp only: sint_of_nat_i32 nat_int)
qed

definition listed_tables :: "kernel \<Rightarrow> u64 \<Rightarrow> u64 \<Rightarrow> u64 list" where
  "listed_tables s rsdt_ptr xsdt_ptr =
     (if xsdt_ptr = 0
      then map (rsdt_tableptr s rsdt_ptr) [0..<(unat (sdt_length s rsdt_ptr) - 36) div 4]
      else map (xsdt_tableptr s xsdt_ptr) [0..<(unat (sdt_length s xsdt_ptr) - 36) div 8])"

lemma find_listed:
  "(if xsdt_ptr = 0
    then find_table_from s signature (rsdt_tableptr s rsdt_ptr) (rsdt_entries s rsdt_ptr) 0
    else find_table_from s signature (xsdt_tableptr s xsdt_ptr) (xsdt_entries s xsdt_ptr) 0) =
   find (has_signature s signature) (listed_tables s rsdt_ptr xsdt_ptr)"
  using entries_count [of 4 "sdt_length s rsdt_ptr"] entries_count [of 8 "sdt_length s xsdt_ptr"]
  by (simp add: find_table_from_find listed_tables_def rsdt_entries_def xsdt_entries_def)

text \<open>Printing does not change what is read from memory.\<close>

lemma rd8_console [simp]: "rd8 (s\<lparr>console := c\<rparr>) = rd8 s"
  by (simp add: rd8_def fun_eq_iff)

lemma table_console [simp]:
  "rd32 (s\<lparr>console := c\<rparr>) = rd32 s" "rd64 (s\<lparr>console := c\<rparr>) = rd64 s"
  by (simp_all add: rd32_def rd64_def fun_eq_iff)

lemma acpi_console [simp]:
  "rsdt_tableptr (s\<lparr>console := c\<rparr>) = rsdt_tableptr s" "xsdt_tableptr (s\<lparr>console := c\<rparr>) = xsdt_tableptr s"
  "sdt_length (s\<lparr>console := c\<rparr>) = sdt_length s" "signature_args (s\<lparr>console := c\<rparr>) = signature_args s"
  "has_signature (s\<lparr>console := c\<rparr>) = has_signature s"
  by (simp_all add: rsdt_tableptr_at xsdt_tableptr_at sdt_length_at signature_args_def has_signature_def fun_eq_iff)

lemma listed_console [simp]: "listed_tables (s\<lparr>console := c\<rparr>) = listed_tables s"
  by (simp add: listed_tables_def fun_eq_iff)

lemma fits_acpi:
  "fits ''acpi: looking for table with signature '{cccc}'{n}'' (signature_args s sig)"
  "fits ''acpi: Found table with signature '{cccc}'{n}'' (signature_args s sig)"
  "fits ''acpi: Table '{s}' not found.{n}'' [VStr x]"
  by (simp_all add: fits_simps signature_args_def)

lemma strlen_loop_cong:
  assumes "rd8 t = rd8 s" "strlen_loop s a i = Some r"
  shows "strlen_loop t a i = Some r"
proof -
  have "rd8 t = rd8 s \<longrightarrow> strlen_loop t a i = Some r"
  proof (rule strlen_loop.raw_induct [OF _ assms(2), where P = "\<lambda>s a i r. rd8 t = rd8 s \<longrightarrow> strlen_loop t a i = Some r"])
    fix f a i r and s :: kernel
    assume "\<And>s a i r. f s a i = Some r \<Longrightarrow> rd8 t = rd8 s \<longrightarrow> strlen_loop t a i = Some r"
      "(if rd8 s (a + i) \<noteq> 0 then f s a (i + 1) else Some i) = Some r"
    then show "rd8 t = rd8 s \<longrightarrow> strlen_loop t a i = Some r"
      by (subst strlen_loop.simps) (simp split: if_splits)
  qed
  with assms(1) show ?thesis by blast
qed

lemma strlen_console: "strlen s a \<noteq> None \<Longrightarrow> strlen (s\<lparr>console := c\<rparr>) a \<noteq> None"
  using strlen_loop_cong [of "s\<lparr>console := c\<rparr>" s a 0] by (auto simp: strlen_def)

lemma find_acpi_table_find:
  assumes "rsdt_ptr \<noteq> 0 \<or> xsdt_ptr \<noteq> 0" "strlen s signature \<noteq> None"
  shows "\<exists>cs. find_acpi_table signature rsdt_ptr xsdt_ptr s =
    Some (Inr (case find (has_signature s signature) (listed_tables s rsdt_ptr xsdt_ptr) of Some a \<Rightarrow> a | None \<Rightarrow> 0,
      s\<lparr>console := cs\<rparr>))"
proof -
  let ?s = "s\<lparr>console := console s @ printed ''acpi: looking for table with signature '{cccc}'{n}'' (signature_args s signature)\<rparr>"
  have sel: "(if xsdt_ptr = 0
      then if rsdt_ptr = 0 then Inl (Null_deref, u)
           else Inr (find_table_from u signature (rsdt_tableptr u rsdt_ptr) (rsdt_entries u rsdt_ptr) 0)
      else Inr (find_table_from u signature (xsdt_tableptr u xsdt_ptr) (xsdt_entries u xsdt_ptr) 0)) =
    Inr (find (has_signature u signature) (listed_tables u rsdt_ptr xsdt_ptr))" for u
    using assms(1) find_listed [of xsdt_ptr u signature rsdt_ptr] by (auto split: if_splits)
  obtain name where name: "cstring_at ?s signature = Some name"
    using strlen_console [OF assms(2), of "console ?s"] unfolding cstring_at_def by (cases "strlen ?s signature") auto
  show ?thesis
    unfolding find_acpi_table_def printf_fits [OF fits_acpi(1)] obind_simps sel acpi_console listed_console
    by (cases "find (has_signature s signature) (listed_tables s rsdt_ptr xsdt_ptr)")
      (auto simp: name printf_fits fits_acpi)
qed

section \<open>The timer delay\<close>

definition pm_round :: "device \<Rightarrow> u16 \<Rightarrow> io_event list \<Rightarrow> io_event list" where
  "pm_round d port h = h @ [InL port (dev_inl d h port)]"

text \<open>The value of \<open>current\<close> at the \<open>k\<close>-th test of the loop.\<close>

fun pm_at :: "device \<Rightarrow> u16 \<Rightarrow> u64 \<Rightarrow> io_event list \<Rightarrow> u64 \<Rightarrow> nat \<Rightarrow> u64" where
  "pm_at d port count h current 0 = current"
| "pm_at d port count h current (Suc k) =
     pm_at d port count (pm_round d port h) ((ucast (dev_inl d h port) - count) AND 0xffffff) k"

lemma pmt_wait_round:
  "pmt_wait port count target current s =
     (if current < target
      then pmt_wait port count target ((ucast (dev_inl (dev s) (io s) port) - count) AND 0xffffff) (s\<lparr>io := pm_round (dev s) port (io s)\<rparr>)
      else Some s)"
  by (subst pmt_wait.simps) (simp add: inl_def Let_def emit_def pm_round_def)

lemma pmt_wait_ends:
  "\<forall>i < k. pm_at (dev s) port count (io s) current i < target \<Longrightarrow>
   \<not> pm_at (dev s) port count (io s) current k < target \<Longrightarrow>
   pmt_wait port count target current s = Some (s\<lparr>io := (pm_round (dev s) port ^^ k) (io s)\<rparr>)"
proof (induction k arbitrary: current s)
  case 0
  then show ?case by (subst pmt_wait_round) simp
next
  case (Suc k)
  let ?c = "(ucast (dev_inl (dev s) (io s) port) - count) AND 0xffffff"
  let ?t = "s\<lparr>io := pm_round (dev s) port (io s)\<rparr>"
  have "current < target" using Suc.prems(1) [rule_format, of 0] by simp
  then have "pmt_wait port count target current s = pmt_wait port count target ?c ?t" by (subst pmt_wait_round) simp
  moreover have shift: "pm_at (dev ?t) port count (io ?t) ?c i = pm_at (dev s) port count (io s) current (Suc i)" for i by simp
  moreover have "\<forall>i < k. pm_at (dev ?t) port count (io ?t) ?c i < target"
    unfolding shift using Suc.prems(1) by blast
  moreover have "\<not> pm_at (dev ?t) port count (io ?t) ?c k < target" unfolding shift by (rule Suc.prems(2))
  ultimately show ?case using Suc.IH [of ?t ?c] by (simp add: funpow_swap1)
qed

lemma pmt_wait_Some:
  assumes "pmt_wait port count target current s = Some r"
  shows "\<exists>k. \<not> pm_at (dev s) port count (io s) current k < target"
proof (rule pmt_wait.raw_induct [OF _ assms, where P = "\<lambda>port count target current s r. \<exists>k. \<not> pm_at (dev s) port count (io s) current k < target"])
  fix f port count target current and s :: kernel and r
  assume IH: "\<And>port count target current s r. f port count target current s = Some r \<Longrightarrow>
      \<exists>k. \<not> pm_at (dev s) port count (io s) current k < target"
    and body: "(if current < target
      then f port count target ((ucast (fst (inl port s)) - count) AND 0xffffff) (snd (inl port s))
      else Some s) = Some r"
  show "\<exists>k. \<not> pm_at (dev s) port count (io s) current k < target"
  proof (cases "current < target")
    case True
    then obtain k where "\<not> pm_at (dev (snd (inl port s))) port count (io (snd (inl port s))) ((ucast (fst (inl port s)) - count) AND 0xffffff) k < target"
      using IH body by fastforce
    then have "\<not> pm_at (dev s) port count (io s) current (Suc k) < target" by (simp add: inl_def Let_def emit_def pm_round_def)
    then show ?thesis by blast
  next
    case False
    then have "\<not> pm_at (dev s) port count (io s) current 0 < target" by simp
    then show ?thesis by blast
  qed
qed

lemma pmt_wait_result:
  "case pmt_wait port count target current s of
     None \<Rightarrow> \<forall>k. pm_at (dev s) port count (io s) current k < target
   | Some t \<Rightarrow> \<exists>k. \<not> pm_at (dev s) port count (io s) current k < target \<and>
       (\<forall>i < k. pm_at (dev s) port count (io s) current i < target) \<and> t = s\<lparr>io := (pm_round (dev s) port ^^ k) (io s)\<rparr>"
proof (cases "\<forall>k. pm_at (dev s) port count (io s) current k < target")
  case True
  then have "pmt_wait port count target current s = None"
    using pmt_wait_Some by (cases "pmt_wait port count target current s") blast+
  then show ?thesis using True by simp
next
  case False
  define k where "k = (LEAST k. \<not> pm_at (dev s) port count (io s) current k < target)"
  have k: "\<not> pm_at (dev s) port count (io s) current k < target" "\<forall>i < k. pm_at (dev s) port count (io s) current i < target"
    using False LeastI_ex [of "\<lambda>k. \<not> pm_at (dev s) port count (io s) current k < target"] not_less_Least
    by (auto simp: k_def)
  then show ?thesis using pmt_wait_ends [OF k(2,1)] by auto
qed

lemma pm_at_bound: "current \<le> 0xffffff \<Longrightarrow> pm_at d port count h current k \<le> 0xffffff"
  by (induction k arbitrary: h current) (simp_all add: word_and_le1)

definition pm_port :: "kernel \<Rightarrow> u16" where
  "pm_port s = ucast (fadt_PMTimerBlock s (fadt s))"

definition pm_target :: "u64 \<Rightarrow> u64" where
  "pm_target us = (us * PMT_TIMER_RATE) div 1000000"

text \<open>The ticks since the start that the \<open>k\<close>-th test of the delay sees, modulo 2^24.\<close>

definition pm_elapsed :: "kernel \<Rightarrow> nat \<Rightarrow> u64" where
  "pm_elapsed s =
     pm_at (dev s) (pm_port s) (ucast (dev_inl (dev s) (io s) (pm_port s))) (pm_round (dev s) (pm_port s) (io s)) 0"

lemma pmt_delay_unfold:
  assumes "fadt_PMTimerLength s (fadt s) = 4"
  shows "pmt_delay us s = map_option Inr
    (pmt_wait (pm_port s) (ucast (dev_inl (dev s) (io s) (pm_port s))) (pm_target us) 0 (s\<lparr>io := pm_round (dev s) (pm_port s) (io s)\<rparr>))"
  using assms by (simp add: pmt_delay_def Let_def inl_def emit_def pm_round_def pm_port_def pm_target_def)

lemma pmt_delay_result:
  assumes "fadt_PMTimerLength s (fadt s) = 4"
  shows "case pmt_delay us s of
       None \<Rightarrow> \<forall>k. pm_elapsed s k < pm_target us
     | Some r \<Rightarrow> \<exists>k. pm_target us \<le> pm_elapsed s k \<and> (\<forall>i < k. pm_elapsed s i < pm_target us) \<and>
         r = Inr (s\<lparr>io := (pm_round (dev s) (pm_port s) ^^ Suc k) (io s)\<rparr>)"
proof -
  let ?t = "s\<lparr>io := pm_round (dev s) (pm_port s) (io s)\<rparr>"
  let ?c = "ucast (dev_inl (dev s) (io s) (pm_port s)) :: u64"
  show ?thesis
    using assms pmt_wait_result [where port = "pm_port s" and count = ?c and target = "pm_target us" and current = 0 and s = ?t]
    by (cases "pmt_wait (pm_port s) ?c (pm_target us) 0 ?t")
      (auto simp: pmt_delay_unfold pm_elapsed_def not_less funpow_swap1)
qed

section \<open>Properties\<close>

text \<open>
  C29. find_acpi_table walks the extended root table if there is one and the root table otherwise,
  returns the first of the listed tables that starts with the four characters of the signature,
  and NULL when none does; a root table shorter than its own header lists no table; only the
  terminal changes.
\<close>

theorem find_acpi_table_first:
  assumes "rsdt_ptr \<noteq> 0 \<or> xsdt_ptr \<noteq> 0" "strlen s signature \<noteq> None"
  defines "ts \<equiv> listed_tables s rsdt_ptr xsdt_ptr"
  shows "\<exists>a cs. find_acpi_table signature rsdt_ptr xsdt_ptr s = Some (Inr (a, s\<lparr>console := cs\<rparr>)) \<and>
    (a = 0 \<and> (\<forall>t \<in> set ts. \<not> has_signature s signature t) \<or>
     (\<exists>i < length ts. a = ts ! i \<and> has_signature s signature a \<and> (\<forall>j < i. \<not> has_signature s signature (ts ! j))))"
proof -
  have "case find (has_signature s signature) ts of
      None \<Rightarrow> \<forall>t \<in> set ts. \<not> has_signature s signature t
    | Some a \<Rightarrow> \<exists>i < length ts. a = ts ! i \<and> has_signature s signature a \<and> (\<forall>j < i. \<not> has_signature s signature (ts ! j))"
  proof (cases "find (has_signature s signature) ts")
    case None
    then show ?thesis using find_None_iff [of "has_signature s signature" ts] by simp
  next
    case (Some a)
    then show ?thesis using find_Some_iff [of "has_signature s signature" ts a] by auto
  qed
  then show ?thesis
    using find_acpi_table_find [OF assms(1,2)] unfolding ts_def
    by (cases "find (has_signature s signature) (listed_tables s rsdt_ptr xsdt_ptr)") fastforce+
qed

text \<open>A root table at 0x100 of one entry, a table at 0x200 with the signature \<open>APIC\<close>, and the string at 0x300.\<close>

definition acpi_memory :: kernel where
  "acpi_memory = quiet_kernel\<lparr>phys := (\<lambda>_. 0)(0x104 := 40, 0x125 := 2, 0x200 := 65, 0x201 := 80, 0x202 := 73, 0x203 := 67,
     0x300 := 65, 0x301 := 80, 0x302 := 73, 0x303 := 67)\<rparr>"

lemma find_acpi_table_first_witness:
  "\<exists>cs. find_acpi_table 0x300 0x100 0 acpi_memory = Some (Inr (0x200, acpi_memory\<lparr>console := cs\<rparr>))"
proof -
  have four: "{unat (0 :: u64)..<4} = {0, 1, 2, 3}" by auto
  have "rd8 acpi_memory (0x300 + of_nat 4) = 0" "\<forall>j \<in> {unat (0 :: u64)..<4}. rd8 acpi_memory (0x300 + of_nat j) \<noteq> 0"
    unfolding four by (simp_all add: acpi_memory_def rd8_def)
  then have "strlen_loop acpi_memory 0x300 0 = Some (of_nat 4)" by (intro strlen_loop_reach) auto
  then have len: "strlen acpi_memory 0x300 \<noteq> None" by (simp add: strlen_def)
  have "rd32 acpi_memory 0x104 = 40" "rd32 acpi_memory 0x124 = 0x200"
    by (simp_all add: rd32_def ld32_def rd8_def acpi_memory_def) code_simp+
  then have ts: "listed_tables acpi_memory 0x100 0 = [0x200]"
    by (simp add: listed_tables_def sdt_length_at rsdt_tableptr_at sizeof_sdt_at)
  have sig: "has_signature acpi_memory 0x300 0x200"
  proof -
    have "\<forall>k \<in> {0, 1, 2, 3 :: nat}. rd8 acpi_memory (0x200 + of_nat k) = rd8 acpi_memory (0x300 + of_nat k)"
      by (simp add: rd8_def acpi_memory_def)
    moreover have "k \<in> {0, 1, 2, 3}" if "k < 4" for k :: nat using that by auto
    ultimately show ?thesis unfolding has_signature_def by blast
  qed
  have ne: "(0x100 :: u64) \<noteq> 0 \<or> (0 :: u64) \<noteq> 0" by simp
  show ?thesis using find_acpi_table_first [OF ne len] ts sig by auto
qed

text \<open>
  C30. pmt_delay returns exactly when the timer is at some test of the loop seen to have advanced
  by the ticks of the delay, and then at the first such test, having only read the timer's port;
  without a 32-bit timer port it halts the machine.
\<close>

theorem pmt_delay_waits:
  "if fadt_PMTimerLength s (fadt s) \<noteq> 4 then \<exists>t. pmt_delay us s = Some (Inl (Halted, t))
   else (case pmt_delay us s of
       None \<Rightarrow> \<forall>k. pm_elapsed s k < pm_target us
     | Some r \<Rightarrow> \<exists>k. pm_target us \<le> pm_elapsed s k \<and> (\<forall>i < k. pm_elapsed s i < pm_target us) \<and>
         r = Inr (s\<lparr>io := (pm_round (dev s) (pm_port s) ^^ Suc k) (io s)\<rparr>))"
proof (cases "fadt_PMTimerLength s (fadt s) = 4")
  case False
  then show ?thesis using log_panic_Inl [of "''ACPI Timer unavailable''" s] by (auto simp: pmt_delay_def cli_hlt_def)
next
  case True
  then show ?thesis using pmt_delay_result [OF True, of us] by simp
qed

lemma pmt_delay_waits_witness:
  "\<exists>t. pmt_delay 0 (quiet_kernel\<lparr>phys := \<lambda>_. 4\<rparr>) = Some (Inr t)"
proof -
  let ?s = "quiet_kernel\<lparr>phys := \<lambda>_. 4\<rparr>"
  have "fadt_PMTimerLength ?s (fadt ?s) = 4" by (simp add: fadt_PMTimerLength_at rd8_def)
  moreover have "\<not> pm_elapsed ?s 0 < pm_target 0" by (simp add: pm_target_def)
  ultimately show ?thesis using pmt_delay_waits [of ?s 0] by (auto split: option.splits)
qed

text \<open>
  C31. A delay of more ticks than the 24 bits the loop compares never ends: on a 32-bit timer, from
  4686969 microseconds (4.69 seconds) on, and as long as the product of the time and the timer's
  rate fits into 64 bits (below about 59 days), pmt_delay runs for ever whatever the timer does.
\<close>

theorem pmt_delay_too_long:
  assumes "fadt_PMTimerLength s (fadt s) = 4" "4686969 \<le> unat us" "unat us * 3579545 < 2 ^ 64"
  shows "pmt_delay us s = None"
proof -
  let ?t = "s\<lparr>io := pm_round (dev s) (pm_port s) (io s)\<rparr>"
  let ?c = "ucast (dev_inl (dev s) (io s) (pm_port s)) :: u64"
  from assms(3) have "unat (us * PMT_TIMER_RATE) = unat us * 3579545" by (simp add: PMT_TIMER_RATE_def unat_word_ariths)
  then have "unat (pm_target us) = unat us * 3579545 div 1000000" by (simp add: pm_target_def unat_div)
  moreover have "16777216 * 1000000 \<le> unat us * 3579545" using assms(2) by linarith
  then have "16777216 \<le> unat us * 3579545 div 1000000" by linarith
  ultimately have "0xffffff < pm_target us" by (simp add: word_less_nat_alt)
  then have "pm_at (dev ?t) (pm_port s) ?c (io ?t) 0 k < pm_target us" for k
    using pm_at_bound [of 0] by (meson le_less_trans word_zero_le)
  then have "pmt_wait (pm_port s) ?c (pm_target us) 0 ?t = None"
    using pmt_wait_Some by (cases "pmt_wait (pm_port s) ?c (pm_target us) 0 ?t") blast+
  then show ?thesis using assms(1) by (simp add: pmt_delay_unfold)
qed

lemma pmt_delay_too_long_witness: "pmt_delay 5000000 (quiet_kernel\<lparr>phys := \<lambda>_. 4\<rparr>) = None"
  by (rule pmt_delay_too_long) (simp_all add: fadt_PMTimerLength_at rd8_def)

end
