(* ===== verification/Apic.thy ===== *)
theory Apic
  imports Acpi Ps2
begin

text \<open>
  The rest of \<open>kern/sys/acpi/apic.c\<close>: reading the processors, IOAPICs and interrupt overrides out
  of the MADT, the IOAPIC's indirect registers, the calibration of the timer and the
  initialisation of the interrupt controllers; and \<open>init_acpi\<close>, which calls it.
\<close>

section \<open>The MADT\<close>

definition sizeof_madt :: u64 where "sizeof_madt = of_nat (sizeof madt_layout)"

definition madt_first_ics :: "u64 \<Rightarrow> u64" where
  "madt_first_ics mt = mt + of_nat (offset_of madt_layout ''first_ics'')"
definition madt_lapicaddr :: "kernel \<Rightarrow> u64 \<Rightarrow> u32" where
  "madt_lapicaddr s mt = rd32 s (mt + of_nat (offset_of madt_layout ''lapicaddr''))"
definition entry_type :: "kernel \<Rightarrow> u64 \<Rightarrow> u8" where
  "entry_type s r = rd8 s (r + of_nat (offset_of madt_record_layout ''entry_type''))"
definition record_length :: "kernel \<Rightarrow> u64 \<Rightarrow> u8" where
  "record_length s r = rd8 s (r + of_nat (offset_of madt_record_layout ''record_length''))"
definition plapic_apicID :: "kernel \<Rightarrow> u64 \<Rightarrow> u8" where
  "plapic_apicID s r = rd8 s (r + of_nat (offset_of madt_plapic_layout ''apicID''))"
definition plapic_flags :: "kernel \<Rightarrow> u64 \<Rightarrow> u32" where
  "plapic_flags s r = rd32 s (r + of_nat (offset_of madt_plapic_layout ''flags''))"
definition ioapic_ioapicaddr :: "kernel \<Rightarrow> u64 \<Rightarrow> u32" where
  "ioapic_ioapicaddr s r = rd32 s (r + of_nat (offset_of madt_ioapic_layout ''ioapicaddr''))"
definition iso_source :: "kernel \<Rightarrow> u64 \<Rightarrow> u8" where
  "iso_source s r = rd8 s (r + of_nat (offset_of madt_iso_layout ''source''))"
definition iso_gsi :: "kernel \<Rightarrow> u64 \<Rightarrow> u32" where
  "iso_gsi s r = rd32 s (r + of_nat (offset_of madt_iso_layout ''gsi''))"

lemma sizeof_madt_at: "sizeof_madt = 46"
  by (simp add: sizeof_madt_def acpi_sizes)

lemma madt_members:
  shows madt_first_ics_at: "madt_first_ics r = r + 44"
    and madt_lapicaddr_at: "madt_lapicaddr s r = rd32 s (r + 36)"
    and entry_type_at: "entry_type s r = rd8 s r"
    and record_length_at: "record_length s r = rd8 s (r + 1)"
    and plapic_apicID_at: "plapic_apicID s r = rd8 s (r + 3)"
    and plapic_flags_at: "plapic_flags s r = rd32 s (r + 4)"
    and ioapic_ioapicaddr_at: "ioapic_ioapicaddr s r = rd32 s (r + 4)"
    and iso_source_at: "iso_source s r = rd8 s (r + 3)"
    and iso_gsi_at: "iso_gsi s r = rd32 s (r + 4)"
  by (simp_all add: madt_first_ics_def madt_lapicaddr_def entry_type_def record_length_def plapic_apicID_def plapic_flags_def ioapic_ioapicaddr_def iso_source_def iso_gsi_def acpi_offsets)

text \<open>The assignments to members of \<open>ics_array[i]\<close>; the array has 64 elements.\<close>

definition set_ics :: "nat \<Rightarrow> (madt_ics_t \<Rightarrow> madt_ics_t) \<Rightarrow> kernel \<Rightarrow> failure + kernel" where
  "set_ics i f s =
     (if i < length (ics_array s) then Inr (s\<lparr>ics_array := (ics_array s)[i := f (ics_array s ! i)]\<rparr>)
      else Inl (Out_of_bounds, s))"

text \<open>The body of the loop: one record.\<close>

definition madt_entry :: "u64 \<Rightarrow> nat \<Rightarrow> kernel \<Rightarrow> failure + (nat \<times> kernel)" where
  "madt_entry cur_ics i s =
     (if entry_type s cur_ics = 0 then
        if plapic_flags s cur_ics = 0 then Inr (i, s)
        else sbind (printf ''apic: Found CPU: {dn}'' [VWord (ucast (plapic_apicID s cur_ics))] s) (\<lambda>s.
             sbind (set_ics i (\<lambda>e. e\<lparr>ics_address := cur_ics, ics_type := entry_type s cur_ics,
                      ics_apic_id := plapic_apicID s cur_ics, ics_present := True\<rparr>) s) (\<lambda>s.
             Inr (i + 1, s)))
      else if entry_type s cur_ics = 1 then
        sbind (set_ics i (\<lambda>e. e\<lparr>ics_address := cur_ics, ics_type := entry_type s cur_ics\<rparr>) s) (\<lambda>s.
        Inr (i + 1, s\<lparr>ioapic_address := ucast (ioapic_ioapicaddr s cur_ics)\<rparr>))
      else if entry_type s cur_ics = 2 then
        sbind (set_ics i (\<lambda>e. e\<lparr>ics_address := cur_ics, ics_type := entry_type s cur_ics\<rparr>) s) (\<lambda>s.
        Inr (i + 1, s))
      else Inr (i, s))"

partial_function (option) madt_loop :: "u64 \<Rightarrow> i32 \<Rightarrow> nat \<Rightarrow> kernel \<Rightarrow> (failure + kernel) option" where
  "madt_loop cur_ics len i s =
     (if 0 < sint len
      then (case madt_entry cur_ics i s of
              Inl e \<Rightarrow> Some (Inl e)
            | Inr r \<Rightarrow>
                madt_loop (cur_ics + ucast (record_length (snd r) cur_ics))
                  (len - ucast (record_length (snd r) cur_ics)) (fst r) (snd r))
      else Some (Inr s))"

definition get_madt_tables :: "u64 \<Rightarrow> kernel \<Rightarrow> (failure + kernel) option" where
  "get_madt_tables mt s =
     (let len = ucast (ucast (sdt_length s mt) - sizeof_madt + 2) :: i32
      in madt_loop (madt_first_ics mt) len 0 s)"

section \<open>The IOAPIC\<close>

definition IOAPICVER_REG :: u8 where "IOAPICVER_REG = 0x1"

definition IOAPICREDTBL_REG :: "i32 \<Rightarrow> i32" where "IOAPICREDTBL_REG n = 0x10 + 2 * n"

definition ioapic_read :: "u64 \<Rightarrow> u8 \<Rightarrow> kernel \<Rightarrow> i32 \<times> kernel" where
  "ioapic_read ioapicaddr reg s =
     mmio_read (ioapicaddr + 16) (emit (Mmio_Write ioapicaddr (ucast (reg AND 0xFF))) s)"

definition ioapic_write :: "u64 \<Rightarrow> u8 \<Rightarrow> u32 \<Rightarrow> kernel \<Rightarrow> kernel" where
  "ioapic_write ioapicaddr reg val s =
     emit (Mmio_Write (ioapicaddr + 16) val) (emit (Mmio_Write ioapicaddr (ucast (reg AND 0xFF))) s)"

text \<open>The pointer is to 64-bit words here, so element 4 is 32 bytes on.\<close>

definition ioapic_redt_write :: "u64 \<Rightarrow> u8 \<Rightarrow> u64 \<Rightarrow> kernel \<Rightarrow> kernel" where
  "ioapic_redt_write ioapicaddr reg val s =
     emit (Mmio_Write64 (ioapicaddr + 32) val) (emit (Mmio_Write64 ioapicaddr (ucast (reg AND 0xFF))) s)"

definition ioapic_configure_entry :: "u64 \<Rightarrow> u8 \<Rightarrow> u64 \<Rightarrow> kernel \<Rightarrow> kernel" where
  "ioapic_configure_entry addr reg val s =
     ioapic_write addr (ucast (IOAPICREDTBL_REG (ucast reg) + 1)) (ucast (drop_bit 32 val))
       (ioapic_write addr (ucast (IOAPICREDTBL_REG (ucast reg))) (ucast val) s)"

text \<open>\<open>for(int i = 0; i < 64; i++)\<close> over \<open>ics_array\<close>.\<close>

function find_gsi_from :: "i32 \<Rightarrow> nat \<Rightarrow> kernel \<Rightarrow> failure + (i32 \<times> kernel)" where
  "find_gsi_from legacy_pin i s =
     (if i < 64
      then if \<not> i < length (ics_array s) then Inl (Out_of_bounds, s)
           else if ics_type (ics_array s ! i) = 2 \<and> ucast (iso_source s (ics_address (ics_array s ! i))) = legacy_pin
           then let iso = ics_address (ics_array s ! i)
                in sbind (printf ''apic: Found legacy pin: {d}, which is connected to IOAPIC pin: {dn}''
                      [VWord (scast legacy_pin), VWord (ucast (iso_gsi s iso))] s) (\<lambda>s.
                   Inr (iso_gsi s iso, s))
           else find_gsi_from legacy_pin (i + 1) s
      else Inr (legacy_pin, s))"
  by pat_completeness auto
termination
  by (relation "measure (\<lambda>(_, i, _). 64 - i)") auto

declare find_gsi_from.simps [simp del]

definition find_gsi :: "i32 \<Rightarrow> kernel \<Rightarrow> failure + (i32 \<times> kernel)" where
  "find_gsi legacy_pin = find_gsi_from legacy_pin 0"

definition ps2_int_init :: "kernel \<Rightarrow> (failure + kernel) option" where
  "ps2_int_init s =
     obind (Some (log_info ''Initalizing PS/2 keyboard'' s)) (\<lambda>s.
     obind (Some (find_gsi 1 s)) (\<lambda>(gsi, s).
     obind (ps2_init s) (\<lambda>s.
     let s = ioapic_configure_entry (ioapic_address s) (ucast gsi) 0 s;
         s = ioapic_configure_entry (ioapic_address s) (ucast gsi) 33 s
     in obind (Some (printf ''ps2: configured IOAPIC redirection entry{n}'' [] s)) (\<lambda>s.
        Some (log_success ''PS/2 keyboard initalized'' s)))))"

section \<open>The timer and the initialisation\<close>

definition calibrate_timer :: "u64 \<Rightarrow> kernel \<Rightarrow> (failure + kernel) option" where
  "calibrate_timer mt s =
     (let s = s\<lparr>lapic_address := ucast (madt_lapicaddr s mt)\<rparr>;
          s = apic_write (lapic_address s) LAPIC_TIMERDIV_REG 0x3 s;
          s = apic_write (lapic_address s) LAPIC_INITCNT_REG 0xFFFFFFFF s
      in obind (pmt_delay 50000 s) (\<lambda>s.
         let s = apic_write (lapic_address s) LAPIC_TIMERDIV_REG 0x10000 s;
             (current, s) = apic_read (lapic_address s) LAPIC_CURCNT_REG s;
             calibration = 0xffffffff - current;
             s = apic_write (lapic_address s) LAPIC_LVTTIMER_REG (172 OR LAPIC_PERIODIC) s;
             s = apic_write (lapic_address s) LAPIC_TIMERDIV_REG 0x3 s
         in Some (Inr (apic_write (lapic_address s) LAPIC_INITCNT_REG calibration s))))"

text \<open>The masking loop reads the number of pins again before every test.\<close>

partial_function (option) mask_pins :: "i32 \<Rightarrow> kernel \<Rightarrow> kernel option" where
  "mask_pins i s =
     (let r = ioapic_read (ioapic_address s) IOAPICVER_REG s
      in if i \<noteq> drop_bit 16 (fst r) AND 0xFF
         then mask_pins (i + 1) (ioapic_configure_entry (ioapic_address (snd r)) (ucast i) (push_bit 16 1) (snd r))
         else Some (snd r))"

definition init_apic :: "u64 \<Rightarrow> kernel \<Rightarrow> (failure + kernel) option" where
  "init_apic mt s =
     obind (get_madt_tables mt (emit Cli s)) (\<lambda>s.
     obind (Some (printf ''apic: MADT tables listed through{n}'' [] s)) (\<lambda>s.
     obind (Some (printf ''apic: writing to SIV register{n}'' [] s)) (\<lambda>s.
     let s = s\<lparr>lapic_addr := madt_lapicaddr s mt\<rparr>;
         (spurious_reg, s) = apic_read (ucast (madt_lapicaddr s mt)) LAPIC_SIVR_REG s
     in obind (Some (printf ''madt lapic adr: 0x{xn}'' [VWord (ucast (lapic_addr s))] s)) (\<lambda>s.
        let s = apic_write (ucast (madt_lapicaddr s mt)) LAPIC_SIVR_REG (spurious_reg OR 0x100) s
        in obind (Some (log_success ''LAPICs initialized'' s)) (\<lambda>s.
           obind (calibrate_timer mt s) (\<lambda>s.
           case mask_pins 0 s of None \<Rightarrow> None | Some s \<Rightarrow>
           obind (ps2_int_init (emit Sti s)) (\<lambda>s.
           Some (log_success ''IOAPIC initalized'' s))))))))"

definition init_apic_ap :: "kernel \<Rightarrow> (failure + kernel) option" where
  "init_apic_ap s =
     (let (spurious_reg, s) = apic_read (ucast (lapic_addr s)) LAPIC_SIVR_REG s;
          s = apic_write (ucast (lapic_addr s)) LAPIC_SIVR_REG (spurious_reg OR 0x100) s
      in calibrate_timer (madt s) s)"

text \<open>
  \<open>init_acpi\<close> of \<open>acpi.c\<close>. \<open>apic_sig\<close> and \<open>facp_sig\<close> are the addresses of the string literals
  with the two signatures.
\<close>

definition init_acpi :: "u64 \<Rightarrow> u64 \<Rightarrow> kernel \<Rightarrow> (failure + kernel) option" where
  "init_acpi apic_sig facp_sig s =
     (case rsdp_response (boot s) of
        None \<Rightarrow> Some (log_panic ''RSDP not recieved, halting.'' s)
      | Some rsdp \<Rightarrow>
          let s = s\<lparr>rsdt := parse_rsdt (hhdmoffset s) rsdp s\<rparr>;
              s = s\<lparr>xsdt := parse_xsdt (hhdmoffset s) rsdp s\<rparr>
          in obind (find_acpi_table apic_sig (rsdt s) (xsdt s) s) (\<lambda>(table, s).
             let s = s\<lparr>madt := table\<rparr>
             in obind (Some (if madt s = 0 then log_panic ''MADT table not found, hanging'' s else Inr s)) (\<lambda>s.
             obind (find_acpi_table facp_sig (rsdt s) (xsdt s) s) (\<lambda>(table, s).
             let s = s\<lparr>fadt := table\<rparr>
             in obind (Some (if fadt s = 0 then log_panic ''FADT table not found, hanging'' s else Inr s)) (\<lambda>s.
             init_apic (madt s) s)))))"

section \<open>The records of a MADT\<close>

text \<open>\<open>rs\<close> are the addresses of the records that fill \<open>len\<close> bytes from \<open>cur\<close> on.\<close>

fun records :: "kernel \<Rightarrow> u64 \<Rightarrow> int \<Rightarrow> u64 list \<Rightarrow> bool" where
  "records s cur len [] \<longleftrightarrow> len \<le> 0"
| "records s cur len (r # rs) \<longleftrightarrow> 0 < len \<and> r = cur \<and>
     records s (cur + ucast (record_length s cur)) (len - uint (record_length s cur)) rs"

definition kept :: "kernel \<Rightarrow> u64 \<Rightarrow> bool" where
  "kept s r \<longleftrightarrow> entry_type s r = 0 \<and> plapic_flags s r \<noteq> 0 \<or> entry_type s r = 1 \<or> entry_type s r = 2"

definition ics_of :: "kernel \<Rightarrow> u64 \<Rightarrow> madt_ics_t \<Rightarrow> madt_ics_t" where
  "ics_of s r e =
     (let e = e\<lparr>ics_address := r, ics_type := entry_type s r\<rparr>
      in if entry_type s r = 0 then e\<lparr>ics_apic_id := plapic_apicID s r, ics_present := True\<rparr> else e)"

fun fill :: "kernel \<Rightarrow> nat \<Rightarrow> u64 list \<Rightarrow> madt_ics_t list \<Rightarrow> madt_ics_t list" where
  "fill s i [] arr = arr"
| "fill s i (r # rs) arr = fill s (Suc i) rs (arr[i := ics_of s r (arr ! i)])"

definition last_ioapic :: "kernel \<Rightarrow> u64 list \<Rightarrow> u64 \<Rightarrow> u64" where
  "last_ioapic s rs x = fold (\<lambda>r x. if entry_type s r = 1 then ucast (ioapic_ioapicaddr s r) else x) rs x"

definition madt_state :: "kernel \<Rightarrow> string list \<Rightarrow> madt_ics_t list \<Rightarrow> u64 \<Rightarrow> kernel" where
  "madt_state s cs arr x = s\<lparr>console := cs, ics_array := arr, ioapic_address := x\<rparr>"

lemma rd_madt_state: "rd8 (madt_state s cs arr x) = rd8 s" "rd32 (madt_state s cs arr x) = rd32 s"
proof -
  show "rd8 (madt_state s cs arr x) = rd8 s" by (simp add: madt_state_def rd8_def fun_eq_iff)
  then show "rd32 (madt_state s cs arr x) = rd32 s" by (intro ext) (simp only: rd32_def)
qed

lemma madt_state_reads [simp]:
  "entry_type (madt_state s cs arr x) = entry_type s" "record_length (madt_state s cs arr x) = record_length s"
  "plapic_flags (madt_state s cs arr x) = plapic_flags s" "plapic_apicID (madt_state s cs arr x) = plapic_apicID s"
  "ioapic_ioapicaddr (madt_state s cs arr x) = ioapic_ioapicaddr s"
  "iso_source (madt_state s cs arr x) = iso_source s" "iso_gsi (madt_state s cs arr x) = iso_gsi s"
  by (simp_all add: rd_madt_state entry_type_at record_length_at plapic_flags_at plapic_apicID_at
      ioapic_ioapicaddr_at iso_source_at iso_gsi_at fun_eq_iff)

lemma madt_state_fields [simp]:
  "ics_array (madt_state s cs arr x) = arr" "console (madt_state s cs arr x) = cs" "ioapic_address (madt_state s cs arr x) = x"
  "madt_state s cs arr x\<lparr>console := cs'\<rparr> = madt_state s cs' arr x"
  "madt_state s cs arr x\<lparr>ics_array := arr'\<rparr> = madt_state s cs arr' x"
  "madt_state s cs arr x\<lparr>ioapic_address := y\<rparr> = madt_state s cs arr y"
  by (simp_all add: madt_state_def)

lemma fits_cpu: "fits ''apic: Found CPU: {dn}'' [VWord w]"
  by (simp add: fits_simps)

lemma madt_entry_dropped: "\<not> kept s r \<Longrightarrow> madt_entry r i (madt_state s cs arr x) = Inr (i, madt_state s cs arr x)"
  by (auto simp: madt_entry_def kept_def)

lemma madt_entry_kept:
  assumes "kept s r"
  shows "if i < length arr
    then \<exists>cs'. madt_entry r i (madt_state s cs arr x) =
      Inr (i + 1, madt_state s cs' (arr[i := ics_of s r (arr ! i)]) (if entry_type s r = 1 then ucast (ioapic_ioapicaddr s r) else x))
    else \<exists>e. madt_entry r i (madt_state s cs arr x) = Inl (Out_of_bounds, e)"
proof -
  consider "entry_type s r = 0" "plapic_flags s r \<noteq> 0" | "entry_type s r = 1" | "entry_type s r = 2"
    using assms by (auto simp: kept_def)
  then show ?thesis
    by cases (auto simp: madt_entry_def set_ics_def ics_of_def printf_fits [OF fits_cpu])
qed

lemma sint_record_step:
  fixes len :: i32 and n :: u8
  assumes "0 < sint len"
  shows "sint (len - ucast n) = sint len - uint n"
proof -
  have "uint n < 256" using uint_lt2p [of n] by simp
  moreover have u: "sint (ucast n :: i32) = uint n"
  proof -
    have "(ucast n :: i32) = of_nat (unat n)" by simp
    moreover have "unat n < 2 ^ 31" using unsigned_less [of n, where 'a = nat] by simp
    ultimately have "sint (ucast n :: i32) = int (unat n)" by (simp only: sint_of_nat_i32)
    then show ?thesis by simp
  qed
  moreover have "sint len < 2147483648" using sint_lt [of len] by simp
  moreover have "0 \<le> uint n" by simp
  ultimately have "- 2147483648 \<le> sint len - uint n" "sint len - uint n < 2147483648"
    using assms by linarith+
  with u show ?thesis by (simp add: sint_word_ariths signed_take_bit_int_eq_self)
qed

lemma madt_loop_records:
  assumes "records s cur (sint len) rs" "length arr = 64" "i \<le> 64"
  shows "if i + length (filter (kept s) rs) \<le> 64
    then \<exists>cs'. madt_loop cur len i (madt_state s cs arr x) =
      Some (Inr (madt_state s cs' (fill s i (filter (kept s) rs) arr) (last_ioapic s rs x)))
    else \<exists>e. madt_loop cur len i (madt_state s cs arr x) = Some (Inl (Out_of_bounds, e))"
  using assms
proof (induction rs arbitrary: cur len arr i cs x)
  case Nil
  then show ?case by (subst madt_loop.simps) (auto simp: last_ioapic_def)
next
  case (Cons r rs)
  then have r: "0 < sint len" "r = cur" "records s (cur + ucast (record_length s cur)) (sint (len - ucast (record_length s cur))) rs"
    by (auto simp: sint_record_step)
  note loop = madt_loop.simps [of cur len i "madt_state s cs arr x"]
  show ?case
  proof (cases "kept s cur")
    case False
    then show ?thesis
      using Cons.IH [OF r(3) Cons.prems(2,3), of cs x] r(1,2)
      by (auto simp: loop madt_entry_dropped kept_def last_ioapic_def split: if_splits)
  next
    case True
    show ?thesis
    proof (cases "i < 64")
      case False
      then show ?thesis using madt_entry_kept [OF True, of i arr cs x] r(1,2) True Cons.prems(2)
        by (auto simp: loop)
    next
      case i: True
      then obtain cs' where "madt_entry cur i (madt_state s cs arr x) =
        Inr (i + 1, madt_state s cs' (arr[i := ics_of s cur (arr ! i)]) (if entry_type s cur = 1 then ucast (ioapic_ioapicaddr s cur) else x))"
        using madt_entry_kept [OF True, of i arr cs x] Cons.prems(2) by auto
      then show ?thesis
        using Cons.IH [OF r(3), of "arr[i := ics_of s cur (arr ! i)]" "i + 1" cs' "if entry_type s cur = 1 then ucast (ioapic_ioapicaddr s cur) else x"]
          Cons.prems(2) i r(1,2) True
        by (simp add: loop last_ioapic_def split: if_splits)
    qed
  qed
qed

lemma short_madt:
  "list_all (\<lambda>n. sint (ucast (ucast (of_nat n :: u32) - sizeof_madt + 2) :: i32) \<le> 0) [0..<44]"
  by code_simp

lemma records_none: "records s cur len rs \<Longrightarrow> len \<le> 0 \<Longrightarrow> rs = []"
  by (cases rs) auto

lemma madt_length:
  fixes len :: u32
  assumes "records s cur (int (unat len) - 44) rs" "unat len < 2 ^ 31"
  shows "records s cur (sint (ucast (ucast len - sizeof_madt + 2) :: i32)) rs"
proof (cases "unat len < 44")
  case True
  then have "unat len \<in> set [0..<44]" by simp
  note bspec [OF short_madt [unfolded list_all_iff] this]
  then have "sint (ucast (ucast len - sizeof_madt + 2) :: i32) \<le> 0" by simp
  moreover have "int (unat len) - 44 \<le> 0" using True by linarith
  then have "rs = []" by (rule records_none [OF assms(1)])
  ultimately show ?thesis by simp
next
  case False
  have "unat len < 2 ^ 32" using assms(2) by simp
  then have "unat (ucast len :: u64) = unat len" by (simp add: unsigned_ucast_eq take_bit_nat_eq_self)
  then have n: "unat (ucast len - sizeof_madt + 2) = unat len - 44"
    using False by (simp add: sizeof_madt_at unat_sub word_le_nat_alt)
  have "(ucast (ucast len - sizeof_madt + 2) :: i32) = of_nat (unat (ucast len - sizeof_madt + 2))" by simp
  also have "sint \<dots> = int (unat len) - 44" unfolding n using assms(2) False by (subst sint_of_nat_i32) auto
  finally show ?thesis using assms(1) by simp
qed

lemma length_fill [simp]: "length (fill s i rs arr) = length arr"
  by (induction rs arbitrary: i arr) simp_all

lemma nth_fill_below: "j < i \<Longrightarrow> fill s i rs arr ! j = arr ! j"
  by (induction rs arbitrary: i arr) simp_all

lemma nth_fill:
  "i + length rs \<le> length arr \<Longrightarrow> j < length rs \<Longrightarrow> fill s i rs arr ! (i + j) = ics_of s (rs ! j) (arr ! (i + j))"
proof (induction rs arbitrary: i arr j)
  case (Cons r rs)
  show ?case
  proof (cases j)
    case 0
    then show ?thesis using Cons.prems by (simp add: nth_fill_below)
  next
    case (Suc k)
    then show ?thesis using Cons.IH [of "Suc i" "arr[i := ics_of s r (arr ! i)]" k] Cons.prems by simp
  qed
qed simp

lemma nth_fill_above: "i + length rs \<le> j \<Longrightarrow> fill s i rs arr ! j = arr ! j"
  by (induction rs arbitrary: i arr) simp_all

definition madt_ok :: "kernel \<Rightarrow> u64 \<Rightarrow> u64 list \<Rightarrow> bool" where
  "madt_ok s mt rs \<longleftrightarrow> length (ics_array s) = 64 \<and> unat (sdt_length s mt) < 2 ^ 31 \<and>
     records s (madt_first_ics mt) (int (unat (sdt_length s mt)) - 44) rs"

lemma madt_state_self: "madt_state s (console s) (ics_array s) (ioapic_address s) = s"
  by (simp add: madt_state_def)

lemma get_madt_tables_records:
  assumes "madt_ok s mt rs"
  shows "if length (filter (kept s) rs) \<le> 64
    then \<exists>cs. get_madt_tables mt s = Some (Inr (madt_state s cs (fill s 0 (filter (kept s) rs) (ics_array s)) (last_ioapic s rs (ioapic_address s))))
    else \<exists>e. get_madt_tables mt s = Some (Inl (Out_of_bounds, e))"
proof -
  have ok: "length (ics_array s) = 64" "unat (sdt_length s mt) < 2 ^ 31"
    "records s (madt_first_ics mt) (int (unat (sdt_length s mt)) - 44) rs"
    using assms unfolding madt_ok_def by blast+
  note loop = madt_loop_records [OF madt_length [OF ok(3,2)] ok(1), where i = 0 and cs = "console s" and x = "ioapic_address s",
      unfolded madt_state_self]
  then show ?thesis by (simp add: get_madt_tables_def)
qed

text \<open>The search for an override, as a search in the array.\<close>

definition override_for :: "i32 \<Rightarrow> kernel \<Rightarrow> madt_ics_t \<Rightarrow> bool" where
  "override_for pin s e \<longleftrightarrow> ics_type e = 2 \<and> ucast (iso_source s (ics_address e)) = pin"

lemma fits_gsi: "fits ''apic: Found legacy pin: {d}, which is connected to IOAPIC pin: {dn}'' [VWord a, VWord b]"
  by (simp add: fits_simps)

lemma iso_gsi_console: "iso_gsi (s\<lparr>console := c\<rparr>) = iso_gsi s"
  by (simp add: iso_gsi_at fun_eq_iff)

lemma find_gsi_from_find:
  "length (ics_array s) = 64 \<Longrightarrow> i \<le> 64 \<Longrightarrow>
    \<exists>cs. find_gsi_from pin i s =
      Inr (case find (override_for pin s) (drop i (ics_array s)) of Some e \<Rightarrow> iso_gsi s (ics_address e) | None \<Rightarrow> pin,
        s\<lparr>console := cs\<rparr>)"
proof (induction pin i s rule: find_gsi_from.induct)
  case (1 pin i s)
  show ?case
  proof (cases "i < 64")
    case True
    then have "drop i (ics_array s) = ics_array s ! i # drop (Suc i) (ics_array s)"
      using 1(2) by (simp add: Cons_nth_drop_Suc)
    moreover have "find_gsi_from pin i s =
        (if override_for pin s (ics_array s ! i)
         then Inr (iso_gsi s (ics_address (ics_array s ! i)), s\<lparr>console := console s @
           printed ''apic: Found legacy pin: {d}, which is connected to IOAPIC pin: {dn}''
             [VWord (scast pin), VWord (ucast (iso_gsi s (ics_address (ics_array s ! i))))]\<rparr>)
         else find_gsi_from pin (i + 1) s)"
      using True 1(2) by (subst find_gsi_from.simps) (simp add: override_for_def printf_fits [OF fits_gsi] Let_def iso_gsi_console)
    moreover have "\<exists>cs. find_gsi_from pin (i + 1) s =
        Inr (case find (override_for pin s) (drop (i + 1) (ics_array s)) of Some e \<Rightarrow> iso_gsi s (ics_address e) | None \<Rightarrow> pin,
          s\<lparr>console := cs\<rparr>)" if "\<not> override_for pin s (ics_array s ! i)"
      using True 1(2) that by (intro 1(1)) (auto simp: override_for_def)
    ultimately show ?thesis by auto
  next
    case False
    then show ?thesis using 1(2,3) by (subst find_gsi_from.simps) (auto intro!: exI [of _ "console s"])
  qed
qed

text \<open>The array after the MADT was read, searched for the pin, is the record list searched.\<close>

lemma fill_map2:
  assumes "length ks \<le> length arr"
  shows "fill s 0 ks arr = map2 (ics_of s) ks arr @ drop (length ks) arr"
proof (rule nth_equalityI)
  fix j
  assume "j < length (fill s 0 ks arr)"
  then show "fill s 0 ks arr ! j = (map2 (ics_of s) ks arr @ drop (length ks) arr) ! j"
    using assms nth_fill [of 0 ks arr j s] nth_fill_above [of 0 ks j s arr]
    by (cases "j < length ks") (auto simp: nth_append)
qed (use assms in simp)

definition is_override :: "kernel \<Rightarrow> i32 \<Rightarrow> u64 \<Rightarrow> bool" where
  "is_override s pin r \<longleftrightarrow> entry_type s r = 2 \<and> ucast (iso_source s r) = pin"

lemma override_ics [simp]:
  "override_for pin s (ics_of s r e) = is_override s pin r" "ics_address (ics_of s r e) = r"
  by (simp_all add: override_for_def is_override_def ics_of_def Let_def)

lemma find_records:
  "length ks \<le> length es \<Longrightarrow> \<forall>e \<in> set rest. \<not> override_for pin s e \<Longrightarrow>
    (case find (override_for pin s) (map2 (ics_of s) ks es @ rest) of Some e \<Rightarrow> iso_gsi s (ics_address e) | None \<Rightarrow> pin) =
    (case find (is_override s pin) ks of Some r \<Rightarrow> iso_gsi s r | None \<Rightarrow> pin)"
proof (induction ks arbitrary: es)
  case Nil
  then have "find (override_for pin s) rest = None" by (simp add: find_None_iff)
  then show ?case by simp
next
  case (Cons k ks)
  then show ?case by (cases es) auto
qed

lemma find_filter: "(\<And>r. P r \<Longrightarrow> K r) \<Longrightarrow> find P (filter K rs) = find P rs"
  by (induction rs) auto

lemma override_madt_state: "override_for pin (madt_state s cs arr x) = override_for pin s"
  by (simp add: override_for_def fun_eq_iff)

lemma gsi_records:
  assumes "length (ics_array s) = 64" "length (filter (kept s) rs) \<le> 64" "\<forall>e \<in> set (ics_array s). ics_type e \<noteq> 2"
    and "t = madt_state s cs (fill s 0 (filter (kept s) rs) (ics_array s)) x"
  shows "(case find (override_for pin t) (ics_array t) of Some e \<Rightarrow> iso_gsi t (ics_address e) | None \<Rightarrow> pin) =
    (case find (is_override s pin) rs of Some r \<Rightarrow> iso_gsi s r | None \<Rightarrow> pin)"
proof -
  let ?ks = "filter (kept s) rs"
  have "\<forall>e \<in> set (drop (length ?ks) (ics_array s)). \<not> override_for pin s e"
    using assms(3) by (auto simp: override_for_def dest: in_set_dropD)
  then have f: "(case find (override_for pin s) (fill s 0 ?ks (ics_array s)) of Some e \<Rightarrow> iso_gsi s (ics_address e) | None \<Rightarrow> pin) =
      (case find (is_override s pin) ?ks of Some r \<Rightarrow> iso_gsi s r | None \<Rightarrow> pin)"
    using assms(1,2) by (simp add: fill_map2 find_records)
  have rs: "find (is_override s pin) ?ks = find (is_override s pin) rs"
    by (rule find_filter) (simp add: is_override_def kept_def)
  have t: "override_for pin t = override_for pin s" "iso_gsi t = iso_gsi s" "ics_array t = fill s 0 ?ks (ics_array s)"
    by (simp_all add: assms(4) override_madt_state)
  show ?thesis unfolding t f rs ..
qed

lemma find_gsi_records:
  assumes "length (ics_array s) = 64" "length (filter (kept s) rs) \<le> 64" "\<forall>e \<in> set (ics_array s). ics_type e \<noteq> 2"
    and "t = madt_state s cs (fill s 0 (filter (kept s) rs) (ics_array s)) x"
  shows "\<exists>cs. find_gsi pin t = Inr (case find (is_override s pin) rs of Some r \<Rightarrow> iso_gsi s r | None \<Rightarrow> pin, t\<lparr>console := cs\<rparr>)"
proof -
  have "length (ics_array t) = 64" using assms(1,4) by simp
  from find_gsi_from_find [OF this, of 0 pin, simplified drop_0] show ?thesis
    unfolding gsi_records [OF assms] find_gsi_def by simp
qed

section \<open>The registers behind the IOAPIC's window\<close>

text \<open>
  The IOAPIC's registers after a history of accesses: a write to the first word selects a
  register, a write to the word 16 bytes on sets the one selected.
\<close>

definition ioapic_step :: "u64 \<Rightarrow> io_event \<Rightarrow> u32 \<times> (u32 \<Rightarrow> u32) \<Rightarrow> u32 \<times> (u32 \<Rightarrow> u32)" where
  "ioapic_step a e = (\<lambda>(sel, regs).
     case e of
       Mmio_Write b v \<Rightarrow> if b = a then (v, regs) else if b = a + 16 then (sel, regs(sel := v)) else (sel, regs)
     | _ \<Rightarrow> (sel, regs))"

definition ioapic_view :: "u64 \<Rightarrow> io_event list \<Rightarrow> u32 \<times> (u32 \<Rightarrow> u32)" where
  "ioapic_view a evs = fold (ioapic_step a) evs (0, \<lambda>_. 0)"

definition ioapic_register :: "u64 \<Rightarrow> kernel \<Rightarrow> u32 \<Rightarrow> u32" where
  "ioapic_register a s = snd (ioapic_view a (io s))"

text \<open>The numbers of the two registers of a pin, as the code computes them in 8 bits.\<close>

lemma redirection_registers:
  assumes "n < 120"
  shows "(ucast (ucast (IOAPICREDTBL_REG (ucast (of_nat n :: u8))) AND 0xFF :: u8) :: u32) = of_nat (0x10 + 2 * n)"
    and "(ucast (ucast (IOAPICREDTBL_REG (ucast (of_nat n :: u8)) + 1) AND 0xFF :: u8) :: u32) = of_nat (0x11 + 2 * n)"
proof -
  have "list_all (\<lambda>n. (ucast (ucast (IOAPICREDTBL_REG (ucast (of_nat n :: u8))) AND 0xFF :: u8) :: u32) = of_nat (0x10 + 2 * n) \<and>
      (ucast (ucast (IOAPICREDTBL_REG (ucast (of_nat n :: u8)) + 1) AND 0xFF :: u8) :: u32) = of_nat (0x11 + 2 * n)) [0..<120]"
    by code_simp
  note bspec [OF this [unfolded list_all_iff], of n]
  then show "(ucast (ucast (IOAPICREDTBL_REG (ucast (of_nat n :: u8))) AND 0xFF :: u8) :: u32) = of_nat (0x10 + 2 * n)"
    "(ucast (ucast (IOAPICREDTBL_REG (ucast (of_nat n :: u8)) + 1) AND 0xFF :: u8) :: u32) = of_nat (0x11 + 2 * n)"
    using assms by simp_all
qed

lemma configure_io:
  "\<exists>evs. ioapic_configure_entry a reg v s = s\<lparr>io := io s @ evs\<rparr>"
  by (simp add: ioapic_configure_entry_def ioapic_write_def emit_def) blast

lemma configure_register:
  assumes "n < 120"
  shows "ioapic_register a (ioapic_configure_entry a (of_nat n) v s) =
    (ioapic_register a s)(of_nat (0x10 + 2 * n) := ucast v, of_nat (0x11 + 2 * n) := ucast (drop_bit 32 v))"
proof -
  have ne: "a + 16 \<noteq> a" by simp
  obtain sel regs where v: "ioapic_view a (io s) = (sel, regs)" by fastforce
  show ?thesis
    unfolding ioapic_configure_entry_def ioapic_write_def redirection_registers [OF assms]
    using v ne by (simp add: ioapic_register_def ioapic_view_def emit_def ioapic_step_def)
qed

text \<open>
  A pin's two registers are one \<open>redirection_entry_t\<close>; the bit fields of the packed structure
  are laid out from the lowest bit on.
\<close>

record redirection_entry_t =
  vector_num :: u8
  delivery_mode :: "3 word"
  destination_mode :: bool
  delivery_status :: bool
  intpol :: bool
  remote_irr :: bool
  trigger_mode :: bool
  intmask :: bool
  redirection_reserved :: "39 word"
  redirection_destination :: u8

definition redirection_entry :: "u64 \<Rightarrow> redirection_entry_t" where
  "redirection_entry w =
     \<lparr>vector_num = ucast w, delivery_mode = ucast (drop_bit 8 w), destination_mode = bit w 11,
      delivery_status = bit w 12, intpol = bit w 13, remote_irr = bit w 14, trigger_mode = bit w 15,
      intmask = bit w 16, redirection_reserved = ucast (drop_bit 17 w),
      redirection_destination = ucast (drop_bit 56 w)\<rparr>"

definition redirection :: "u64 \<Rightarrow> kernel \<Rightarrow> nat \<Rightarrow> redirection_entry_t" where
  "redirection a s n = redirection_entry
     (push_bit 32 (ucast (ioapic_register a s (of_nat (0x11 + 2 * n)))) OR
      ucast (ioapic_register a s (of_nat (0x10 + 2 * n))))"

text \<open>A fixed interrupt on vector \<open>v\<close> to the physical processor 0, edge sensitive and active high.\<close>

definition fixed_entry :: "u8 \<Rightarrow> bool \<Rightarrow> redirection_entry_t" where
  "fixed_entry v masked =
     \<lparr>vector_num = v, delivery_mode = 0, destination_mode = False, delivery_status = False, intpol = False,
      remote_irr = False, trigger_mode = False, intmask = masked, redirection_reserved = 0,
      redirection_destination = 0\<rparr>"

lemma redirection_fixed:
  assumes "ioapic_register a s (of_nat (0x11 + 2 * n)) = 0"
  shows "ioapic_register a s (of_nat (0x10 + 2 * n)) = 33 \<Longrightarrow> redirection a s n = fixed_entry 33 False"
    and "ioapic_register a s (of_nat (0x10 + 2 * n)) = 0x10000 \<Longrightarrow> redirection a s n = fixed_entry 0 True"
  unfolding redirection_def redirection_entry_def fixed_entry_def assms by simp_all

text \<open>What \<open>ioapic_configure_entry\<close> is given is what the pin's entry then holds.\<close>

lemma configure_redirection:
  assumes "n < 120"
  shows "redirection a (ioapic_configure_entry a (of_nat n) w s) n = redirection_entry w"
proof -
  have u: "unat (of_nat j :: u32) = j" if "j < 1000" for j using that by (simp add: unat_of_nat take_bit_nat_eq_self)
  have "(of_nat (0x10 + 2 * n) :: u32) \<noteq> of_nat (0x11 + 2 * n)"
    using u [of "0x10 + 2 * n"] u [of "0x11 + 2 * n"] assms by (auto simp del: of_nat_add of_nat_mult)
  moreover have "push_bit 32 (ucast (ucast (drop_bit 32 w) :: u32)) OR ucast (ucast w :: u32) = w"
    by (rule bit_word_eqI) (auto simp: bit_simps)
  ultimately show ?thesis
    unfolding redirection_def configure_register [OF assms] by simp
qed

section \<open>Masking the pins\<close>

text \<open>The highest pin number the version register reports after a history.\<close>

definition highest_pin :: "device \<Rightarrow> u64 \<Rightarrow> io_event list \<Rightarrow> u32" where
  "highest_pin d a h = drop_bit 16 (dev_mmio d (h @ [Mmio_Write a 1]) (a + 16)) AND 0xFF"

lemma version_read:
  "ioapic_read a IOAPICVER_REG s =
     (dev_mmio (dev s) (io s @ [Mmio_Write a 1]) (a + 16),
      s\<lparr>io := io s @ [Mmio_Write a 1, Mmio_Read (a + 16) (dev_mmio (dev s) (io s @ [Mmio_Write a 1]) (a + 16))]\<rparr>)"
  by (simp add: ioapic_read_def mmio_read_def emit_def Let_def IOAPICVER_REG_def)

lemma version_register: "ioapic_register a (snd (ioapic_read a IOAPICVER_REG s)) = ioapic_register a s"
  by (simp add: version_read ioapic_register_def ioapic_view_def ioapic_step_def split: prod.split)

lemma mask_pins_round:
  assumes "highest_pin (dev s) a (io s) = m" "ioapic_address s = a"
  shows "mask_pins i s =
    (let t = snd (ioapic_read a IOAPICVER_REG s)
     in if i \<noteq> m then mask_pins (i + 1) (ioapic_configure_entry a (ucast i) (push_bit 16 1) t) else Some t)"
  using assms by (subst mask_pins.simps) (simp add: version_read highest_pin_def Let_def)

lemma mask_pins_from:
  assumes "\<forall>evs. highest_pin (dev s) a (io s @ evs) = of_nat n" "n < 120" "ioapic_address s = a"
  shows "i \<le> n \<Longrightarrow> \<exists>evs. mask_pins (of_nat i) s = Some (s\<lparr>io := io s @ evs\<rparr>) \<and>
    (\<forall>r. ioapic_register a (s\<lparr>io := io s @ evs\<rparr>) r =
      (if 0x10 + 2 * i \<le> unat r \<and> unat r < 0x10 + 2 * n then if even (unat r) then 0x10000 else 0 else ioapic_register a s r))"
  using assms
proof (induction "n - i" arbitrary: i s)
  case 0
  then have i: "i = n" by simp
  obtain evs where evs: "snd (ioapic_read a IOAPICVER_REG s) = s\<lparr>io := io s @ evs\<rparr>" by (simp add: version_read)
  have "highest_pin (dev s) a (io s) = of_nat n" using 0(3) [rule_format, of "[]"] by simp
  then have "mask_pins (of_nat i) s = Some (s\<lparr>io := io s @ evs\<rparr>)"
    using mask_pins_round [of s a "of_nat n" "of_nat i"] 0(5) i evs by simp
  moreover have "ioapic_register a (s\<lparr>io := io s @ evs\<rparr>) = ioapic_register a s"
    using version_register [of a s] by (simp add: evs)
  ultimately show ?case using i by auto
next
  case (Suc k)
  then have i: "i < n" "i < 120" by simp_all
  define u where "u = ioapic_configure_entry a (of_nat i) (push_bit 16 1) (snd (ioapic_read a IOAPICVER_REG s))"
  have hp: "highest_pin (dev s) a (io s) = of_nat n" using Suc(4) [rule_format, of "[]"] by simp
  have ne: "(of_nat i :: i32) \<noteq> of_nat n" using i Suc.prems(3) by (simp add: of_nat_eq_iff word_of_nat_eq_iff take_bit_nat_eq_self)
  have uc: "(ucast (of_nat i :: i32) :: u8) = of_nat i" using i by (intro word_unat_eq_iff [THEN iffD2]) (simp add: unsigned_ucast_eq unat_of_nat take_bit_nat_eq_self)
  obtain evs1 where u: "u = s\<lparr>io := io s @ evs1\<rparr>"
    using configure_io [of a "of_nat i" "push_bit 16 1" "snd (ioapic_read a IOAPICVER_REG s)"] by (auto simp: version_read u_def)
  have m: "mask_pins (of_nat i) s = mask_pins (of_nat (i + 1)) u"
    using mask_pins_round [OF hp Suc.prems(4), of "of_nat i"] ne unfolding u_def uc by (simp add: Let_def add.commute)
  have regs: "ioapic_register a u = (ioapic_register a s)(of_nat (0x10 + 2 * i) := 0x10000, of_nat (0x11 + 2 * i) := 0)"
    using configure_register [OF i(2), of a "push_bit 16 1" "snd (ioapic_read a IOAPICVER_REG s)"]
    by (simp add: version_register u_def)
  have "k = n - (i + 1)" "i + 1 \<le> n" "\<forall>evs. highest_pin (dev u) a (io u @ evs) = of_nat n" "ioapic_address u = a"
    using Suc.hyps(2) Suc.prems(2,4) i(1) by (auto simp: u)
  then obtain evs2 where e: "mask_pins (of_nat (i + 1)) u = Some (u\<lparr>io := io u @ evs2\<rparr>)"
    "\<forall>r. ioapic_register a (u\<lparr>io := io u @ evs2\<rparr>) r =
      (if 0x10 + 2 * (i + 1) \<le> unat r \<and> unat r < 0x10 + 2 * n then if even (unat r) then 0x10000 else 0 else ioapic_register a u r)"
    using Suc.hyps(1) [of "i + 1" u] Suc.prems(3) by blast
  have grow: "u\<lparr>io := io u @ evs2\<rparr> = s\<lparr>io := io s @ evs1 @ evs2\<rparr>" by (simp add: u)
  note e = e [unfolded grow]
  have "ioapic_register a (s\<lparr>io := io s @ evs1 @ evs2\<rparr>) r =
      (if 0x10 + 2 * i \<le> unat r \<and> unat r < 0x10 + 2 * n then if even (unat r) then 0x10000 else 0 else ioapic_register a s r)" for r
  proof -
    have small: "r = of_nat k \<longleftrightarrow> unat r = k" if "k < 1000" for k
      using that by (auto simp: unat_of_nat take_bit_nat_eq_self)
    have r: "r = of_nat (0x10 + 2 * i) \<longleftrightarrow> unat r = 0x10 + 2 * i" "r = of_nat (0x11 + 2 * i) \<longleftrightarrow> unat r = 0x11 + 2 * i"
      by (rule small, use i(2) in linarith)+
    consider "unat r = 0x10 + 2 * i" | "unat r = 0x11 + 2 * i" | "unat r < 0x10 + 2 * i" | "0x10 + 2 * (i + 1) \<le> unat r"
      using less_linear [of "unat r" "0x10 + 2 * i"] by (cases "unat r = 0x11 + 2 * i") fastforce+
    then show ?thesis
      unfolding e(2) [rule_format] regs fun_upd_apply r using i(1) by cases auto
  qed
  with m e(1) show ?case by (intro exI [of _ "evs1 @ evs2"]) simp
qed

section \<open>The keyboard's pin\<close>

fun port_event :: "io_event \<Rightarrow> bool" where
  "port_event (OutB p v) = True"
| "port_event (InB p v) = True"
| "port_event e = False"

lemma ports_register:
  "\<forall>e \<in> set evs. port_event e \<Longrightarrow> ioapic_view a (h @ evs) = ioapic_view a h"
proof (induction evs arbitrary: h)
  case (Cons e evs)
  have "ioapic_view a (h @ [e]) = ioapic_view a h"
    using Cons.prems by (cases e) (auto simp: ioapic_view_def ioapic_step_def)
  then show ?case using Cons.IH [of "h @ [e]"] Cons.prems by simp
qed simp

lemma drain_round_ports: "\<exists>evs. drain_round d h = h @ evs \<and> (\<forall>e \<in> set evs. port_event e)"
  by (simp add: drain_round_def Let_def)

lemma drain_ports: "\<exists>evs. (drain_round d ^^ k) h = h @ evs \<and> (\<forall>e \<in> set evs. port_event e)"
proof (induction k)
  case (Suc k)
  then obtain evs where e: "(drain_round d ^^ k) h = h @ evs" "\<forall>e \<in> set evs. port_event e" by blast
  obtain more where "drain_round d (h @ evs) = (h @ evs) @ more" "\<forall>e \<in> set more. port_event e"
    using drain_round_ports by blast
  then show ?case using e by (intro exI [of _ "evs @ more"]) auto
qed simp

definition keyboard_gsi :: "kernel \<Rightarrow> i32" where
  "keyboard_gsi s =
     (case find (override_for 1 s) (ics_array s) of Some e \<Rightarrow> iso_gsi s (ics_address e) | None \<Rightarrow> 1)"

lemma ps2_init_ports:
  assumes "ps2_init s = Some r"
  shows "\<exists>cs evs. r = Inr (s\<lparr>console := cs, io := io s @ evs\<rparr>) \<and> (\<forall>e \<in> set evs. port_event e)"
proof -
  obtain k t d where t: "r = Inr t" "t = s\<lparr>console := console t, io := io t\<rparr>"
    "io t = (drain_round (dev s) ^^ Suc k) (ps2_prologue s) @ [OutB 0x64 0xAA, InB 0x60 d, OutB 0x64 0xAE]"
    using ps2_init_result [of s] assms by auto
  obtain evs where "(drain_round (dev s) ^^ Suc k) (ps2_prologue s) = ps2_prologue s @ evs" "\<forall>e \<in> set evs. port_event e"
    using drain_ports by blast
  then have "io t = io s @ ([OutB 0x64 0xAD, OutB 0x64 0xA7] @ evs @ [OutB 0x64 0xAA, InB 0x60 d, OutB 0x64 0xAE])"
    "\<forall>e \<in> set ([OutB 0x64 0xAD, OutB 0x64 0xA7] @ evs @ [OutB 0x64 0xAA, InB 0x60 d, OutB 0x64 0xAE]). port_event e"
    unfolding t(3) by (auto simp: ps2_prologue_def)
  with t(1,2) show ?thesis by metis
qed

lemma ps2_init_None: "ps2_init s = None \<Longrightarrow> drain_busy (dev s) (ps2_prologue s) k"
  using ps2_init_result [of s] by simp

lemma fits_route: "fits ''ps2: configured IOAPIC redirection entry{n}'' []"
  by (simp add: fits_simps)

lemma configure_keeps [simp]: "ioapic_address (ioapic_configure_entry a reg v s) = ioapic_address s"
  by (simp add: ioapic_configure_entry_def ioapic_write_def emit_def)

lemma override_console: "override_for pin (s\<lparr>console := c\<rparr>) = override_for pin s"
  by (simp add: override_for_def iso_source_at fun_eq_iff)

lemma ps2_int_init_steps:
  assumes "length (ics_array s) = 64"
  shows "\<exists>cs. ps2_int_init s =
    obind (ps2_init (s\<lparr>console := cs\<rparr>)) (\<lambda>v.
    obind (Some (printf ''ps2: configured IOAPIC redirection entry{n}'' []
        (ioapic_configure_entry (ioapic_address v) (ucast (keyboard_gsi s)) 33
          (ioapic_configure_entry (ioapic_address v) (ucast (keyboard_gsi s)) 0 v)))) (\<lambda>v.
    Some (log_success ''PS/2 keyboard initalized'' v)))"
proof -
  obtain c where c: "log_info ''Initalizing PS/2 keyboard'' s = Inr (s\<lparr>console := c\<rparr>)"
    by (simp add: log_info_def printf_fits fits_log)
  have "length (ics_array (s\<lparr>console := c\<rparr>)) = 64" using assms by simp
  from find_gsi_from_find [OF this, of 0 1, unfolded override_console iso_gsi_console]
  obtain cs where "find_gsi 1 (s\<lparr>console := c\<rparr>) = Inr (keyboard_gsi s, s\<lparr>console := cs\<rparr>)"
    by (auto simp: find_gsi_def keyboard_gsi_def)
  then show ?thesis by (auto simp: ps2_int_init_def c Let_def)
qed

lemma ps2_int_init_result:
  assumes ics: "length (ics_array s) = 64" and gsi: "keyboard_gsi s = of_nat n" "n < 120"
  shows "case ps2_int_init s of
      None \<Rightarrow> \<forall>k. drain_busy (dev s) (ps2_prologue s) k
    | Some r \<Rightarrow> \<exists>t. r = Inr t \<and> t = s\<lparr>console := console t, io := io t\<rparr> \<and> ioapic_register (ioapic_address s) t =
        (ioapic_register (ioapic_address s) s)(of_nat (0x10 + 2 * n) := 33, of_nat (0x11 + 2 * n) := 0)"
proof -
  have uc: "(ucast (of_nat n :: i32) :: u8) = of_nat n"
    using gsi(2) by (intro word_unat_eq_iff [THEN iffD2]) (simp add: unsigned_ucast_eq unat_of_nat take_bit_nat_eq_self)
  obtain cs where eq: "ps2_int_init s =
    obind (ps2_init (s\<lparr>console := cs\<rparr>)) (\<lambda>v.
    obind (Some (printf ''ps2: configured IOAPIC redirection entry{n}'' []
        (ioapic_configure_entry (ioapic_address v) (of_nat n) 33
          (ioapic_configure_entry (ioapic_address v) (of_nat n) 0 v)))) (\<lambda>v.
    Some (log_success ''PS/2 keyboard initalized'' v)))"
    using ps2_int_init_steps [OF ics] unfolding gsi(1) uc by blast
  show ?thesis
  proof (cases "ps2_init (s\<lparr>console := cs\<rparr>)")
    case None
    then have "drain_busy (dev s) (ps2_prologue s) k" for k
      using ps2_init_None [OF None, of k] by (simp add: ps2_prologue_def)
    then have "\<forall>k. drain_busy (dev s) (ps2_prologue s) k" by (rule allI)
    moreover have "ps2_int_init s = None" by (simp add: eq None)
    ultimately show ?thesis by simp
  next
    case (Some r)
    obtain cs' evs where v: "r = Inr (s\<lparr>console := cs', io := io s @ evs\<rparr>)" "\<forall>e \<in> set evs. port_event e"
      using ps2_init_ports [OF Some] by auto
    let ?a = "ioapic_address s" and ?v = "s\<lparr>console := cs', io := io s @ evs\<rparr>"
    let ?w = "ioapic_configure_entry ?a (of_nat n) 33 (ioapic_configure_entry ?a (of_nat n) 0 ?v)"
    have "\<exists>c. ps2_int_init s = Some (Inr (?w\<lparr>console := c\<rparr>))"
      by (simp add: eq Some v(1) printf_fits [OF fits_route] log_success_def printf_fits [OF fits_log(3)]) blast
    moreover have "ioapic_register ?a (?w\<lparr>console := c\<rparr>) = ioapic_register ?a ?w" for c
      by (simp add: ioapic_register_def)
    moreover have "ioapic_register ?a ?v = ioapic_register ?a s"
      using ports_register [OF v(2)] by (simp add: ioapic_register_def)
    moreover have "?w\<lparr>console := c\<rparr> = s\<lparr>console := c, io := io ?w\<rparr>" for c
      by (simp add: ioapic_configure_entry_def ioapic_write_def emit_def)
    moreover have "\<exists>t. r = Inr t \<and> t = s\<lparr>console := console t, io := io t\<rparr> \<and> Q t"
      if "r = Inr (?w\<lparr>console := c\<rparr>)" "?w\<lparr>console := c\<rparr> = s\<lparr>console := c, io := io ?w\<rparr>" "Q (?w\<lparr>console := c\<rparr>)" for c r Q
      using that by (intro exI [of _ "?w\<lparr>console := c\<rparr>"]) simp
    ultimately show ?thesis using configure_register [OF gsi(2)] by (fastforce simp: fun_upd_twist)
  qed
qed

section \<open>The timer\<close>

lemma fadt_PMTimerLength_cong: "rd8 t = rd8 s \<Longrightarrow> fadt_PMTimerLength t = fadt_PMTimerLength s"
  by (simp add: fadt_PMTimerLength_at fun_eq_iff)

lemma rd8_registers [simp]: "rd8 (s\<lparr>lapic_address := a, io := e\<rparr>) = rd8 s" "rd8 (s\<lparr>lapic_address := a\<rparr>) = rd8 s" "rd8 (s\<lparr>io := e\<rparr>) = rd8 s"
  by (simp_all add: rd8_def fun_eq_iff)

lemma apic_write_lapic: "lapic_address (apic_write a r v s) = lapic_address s"
  by (simp add: apic_write_def emit_def)

text \<open>The write of register \<open>reg\<close> of the local APIC at \<open>la\<close>, and the two writes that start its timer.\<close>

definition lapic_write :: "u64 \<Rightarrow> u64 \<Rightarrow> u64 \<Rightarrow> u32 \<Rightarrow> io_event" where
  "lapic_write off la reg val = Mmio_Write (la + reg + off) val"

definition timer_started :: "u64 \<Rightarrow> u64 \<Rightarrow> kernel \<Rightarrow> kernel" where
  "timer_started off la s =
     s\<lparr>lapic_address := la, io := io s @ [lapic_write off la 0x3E0 3, lapic_write off la 0x380 0xFFFFFFFF]\<rparr>"

definition calibrated_events :: "u64 \<Rightarrow> u64 \<Rightarrow> u32 \<Rightarrow> io_event list" where
  "calibrated_events off la c =
     [lapic_write off la 0x3E0 0x10000, Mmio_Read (la + 0x390) c, lapic_write off la 0x320 0x200AC,
      lapic_write off la 0x3E0 3, lapic_write off la 0x380 (0xFFFFFFFF - c)]"

lemma calibrate_timer_result:
  assumes "fadt_PMTimerLength s (fadt s) = 4" "la = ucast (madt_lapicaddr s mt)" "off = hhdmoffset s"
  defines "w \<equiv> timer_started off la s"
  shows "case calibrate_timer mt s of
      None \<Rightarrow> \<forall>k. pm_elapsed w k < pm_target 50000
    | Some r \<Rightarrow> \<exists>k h. pm_target 50000 \<le> pm_elapsed w k \<and> (\<forall>i < k. pm_elapsed w i < pm_target 50000) \<and>
        h = (pm_round (dev s) (pm_port s) ^^ Suc k) (io w) \<and>
        r = Inr (s\<lparr>lapic_address := la,
          io := h @ calibrated_events off la (dev_mmio (dev s) (h @ [lapic_write off la 0x3E0 0x10000]) (la + 0x390))\<rparr>)"
proof -
  have w: "apic_write la LAPIC_INITCNT_REG 0xFFFFFFFF (apic_write la LAPIC_TIMERDIV_REG 3 (s\<lparr>lapic_address := la\<rparr>)) = w"
    by (simp add: w_def timer_started_def apic_write_def emit_def LAPIC_INITCNT_REG_def LAPIC_TIMERDIV_REG_def lapic_write_def assms(3))
  have len: "fadt_PMTimerLength w (fadt w) = 4" and dev: "dev w = dev s" "pm_port w = pm_port s"
    using assms(1) by (simp_all add: w_def timer_started_def fadt_PMTimerLength_at pm_port_def fadt_PMTimerBlock_at rd32_def)
  have eq: "calibrate_timer mt s = obind (pmt_delay 50000 w) (\<lambda>s.
       let s = apic_write (lapic_address s) LAPIC_TIMERDIV_REG 0x10000 s;
           (current, s) = apic_read (lapic_address s) LAPIC_CURCNT_REG s;
           s = apic_write (lapic_address s) LAPIC_LVTTIMER_REG (172 OR LAPIC_PERIODIC) s;
           s = apic_write (lapic_address s) LAPIC_TIMERDIV_REG 0x3 s
       in Some (Inr (apic_write (lapic_address s) LAPIC_INITCNT_REG (0xffffffff - current) s)))"
    unfolding calibrate_timer_def by (simp add: Let_def apic_write_lapic w flip: assms(2))
  show ?thesis
  proof (cases "pmt_delay 50000 w")
    case None
    then show ?thesis using pmt_delay_result [OF len, of 50000] by (simp add: eq)
  next
    case (Some r)
    then obtain k where k: "pm_target 50000 \<le> pm_elapsed w k" "\<forall>i < k. pm_elapsed w i < pm_target 50000"
      "r = Inr (w\<lparr>io := (pm_round (dev s) (pm_port s) ^^ Suc k) (io w)\<rparr>)"
      using pmt_delay_result [OF len, of 50000] dev by auto
    define h where "h = (pm_round (dev s) (pm_port s) ^^ Suc k) (io w)"
    have lvt: "(172 :: u32) OR 0x20000 = 0x200AC" by simp
    have "calibrate_timer mt s = Some (Inr (s\<lparr>lapic_address := la,
          io := h @ calibrated_events off la (dev_mmio (dev s) (h @ [lapic_write off la 0x3E0 0x10000]) (la + 0x390))\<rparr>))"
      unfolding eq Some k(3) h_def [symmetric]
      by (simp add: apic_write_def apic_read_def mmio_read_def emit_def Let_def LAPIC_TIMERDIV_REG_def LAPIC_CURCNT_REG_def
          LAPIC_LVTTIMER_REG_def LAPIC_PERIODIC_def LAPIC_INITCNT_REG_def lvt calibrated_events_def lapic_write_def assms(3))
        (simp add: w_def timer_started_def)
    then show ?thesis using k(1,2) h_def by auto
  qed
qed

section \<open>An example\<close>

text \<open>
  A MADT at 0x1000 with a processor, an IOAPIC at 0xfec00000 and the usual override of legacy
  pin 1 by pin 2, and an IOAPIC that reports 23 as its highest pin.
\<close>

definition madt_bytes :: "u8 list" where
  "madt_bytes = [65, 80, 73, 67, 74, 0, 0, 0] @ replicate 36 0 @
     [0, 8, 0, 5, 1, 0, 0, 0,
      1, 12, 0, 0, 0, 0, 0xC0, 0xFE, 0, 0, 0, 0,
      2, 10, 0, 1, 2, 0, 0, 0, 0, 0]"

definition madt_machine :: kernel where
  "madt_machine = quiet_kernel\<lparr>
     phys := (\<lambda>a. if 0x1000 \<le> a \<and> a < 0x104A then madt_bytes ! unat (a - 0x1000) else 0),
     ioapic_address := 0xFEC00000,
     dev := quiet_device\<lparr>dev_mmio := \<lambda>_ _. 0x00170011\<rparr>\<rparr>"

lemma madt_machine_reads:
  "sdt_length madt_machine 0x1000 = 74"
  "record_length madt_machine 0x102C = 8" "record_length madt_machine 0x1034 = 12" "record_length madt_machine 0x1040 = 10"
  "entry_type madt_machine 0x102C = 0" "entry_type madt_machine 0x1034 = 1" "entry_type madt_machine 0x1040 = 2"
  "plapic_flags madt_machine 0x102C = 1" "iso_source madt_machine 0x1040 = 1" "iso_gsi madt_machine 0x1040 = 2"
  "ioapic_ioapicaddr madt_machine 0x1034 = 0xFEC00000"
  by (simp_all add: sdt_length_at record_length_at entry_type_at plapic_flags_at iso_source_at iso_gsi_at
      ioapic_ioapicaddr_at rd32_def ld32_def rd8_def madt_machine_def madt_bytes_def) code_simp+

lemma madt_machine_ics: "ics_array madt_machine = replicate 64 zero_ics"
  by (simp add: madt_machine_def quiet_kernel_def initial_kernel_def)

lemma madt_machine_ok: "madt_ok madt_machine 0x1000 [0x102C, 0x1034, 0x1040]"
  by (simp add: madt_ok_def madt_first_ics_at madt_machine_reads madt_machine_ics)

lemma madt_machine_kept: "filter (kept madt_machine) [0x102C, 0x1034, 0x1040] = [0x102C, 0x1034, 0x1040]"
  by (simp add: kept_def madt_machine_reads)

section \<open>Properties\<close>

text \<open>
  C32. get_madt_tables collects a well-formed MADT: the array's first elements are, in order, the
  enabled processors, the IOAPICs and the interrupt overrides of the table, the other elements
  keep their values, the IOAPIC's address is that of the last IOAPIC record, and memory is not
  written; a table with more than 64 such records makes it write past the array.
\<close>

theorem get_madt_tables_collects:
  assumes "madt_ok s mt rs"
  defines "ks \<equiv> filter (kept s) rs"
  shows "if length ks \<le> 64
    then \<exists>t. get_madt_tables mt s = Some (Inr t) \<and> phys t = phys s \<and> io t = io s \<and>
      ioapic_address t = last_ioapic s rs (ioapic_address s) \<and>
      (\<forall>j < length ks. ics_address (ics_array t ! j) = ks ! j \<and> ics_type (ics_array t ! j) = entry_type s (ks ! j) \<and>
        (entry_type s (ks ! j) = 0 \<longrightarrow> ics_apic_id (ics_array t ! j) = plapic_apicID s (ks ! j) \<and> ics_present (ics_array t ! j))) \<and>
      (\<forall>j \<ge> length ks. ics_array t ! j = ics_array s ! j)
    else \<exists>e. get_madt_tables mt s = Some (Inl (Out_of_bounds, e))"
proof (cases "length ks \<le> 64")
  case True
  obtain cs where t: "get_madt_tables mt s = Some (Inr (madt_state s cs (fill s 0 ks (ics_array s)) (last_ioapic s rs (ioapic_address s))))"
    using get_madt_tables_records [OF assms(1)] True by (auto simp: ks_def)
  have "length (ics_array s) = 64" using assms(1) by (simp add: madt_ok_def)
  then have "\<forall>j < length ks. fill s 0 ks (ics_array s) ! j = ics_of s (ks ! j) (ics_array s ! j)"
    "\<forall>j \<ge> length ks. fill s 0 ks (ics_array s) ! j = ics_array s ! j"
    using nth_fill [of 0 ks "ics_array s"] nth_fill_above [of 0 ks] True by simp_all
  then show ?thesis using True t
    by (intro if_P [THEN iffD2] exI [of _ "madt_state s cs (fill s 0 ks (ics_array s)) (last_ioapic s rs (ioapic_address s))"])
      (auto simp: madt_state_def ics_of_def Let_def)
next
  case False
  then show ?thesis using get_madt_tables_records [OF assms(1)] by (simp add: ks_def)
qed

lemma get_madt_tables_collects_witness:
  "\<exists>t. get_madt_tables 0x1000 madt_machine = Some (Inr t) \<and> ics_type (ics_array t ! 2) = 2 \<and> ioapic_address t = 0xFEC00000"
proof -
  have "last_ioapic madt_machine [0x102C, 0x1034, 0x1040] x = 0xFEC00000" for x
    by (simp add: last_ioapic_def madt_machine_reads)
  then show ?thesis
    using get_madt_tables_collects [OF madt_machine_ok, unfolded madt_machine_kept]
    by (fastforce simp: madt_machine_reads nth_Cons')
qed

text \<open>
  C33. After a well-formed MADT with at most 64 records of interest was read, find_gsi returns for
  every legacy pin the global interrupt of the first override the MADT has for it, and the pin's
  own number when there is none.
\<close>

theorem madt_then_gsi:
  assumes "madt_ok s mt rs" "length (filter (kept s) rs) \<le> 64" "\<forall>e \<in> set (ics_array s). ics_type e \<noteq> 2"
  shows "\<exists>t cs. get_madt_tables mt s = Some (Inr t) \<and>
    find_gsi pin t = Inr (case find (is_override s pin) rs of Some r \<Rightarrow> iso_gsi s r | None \<Rightarrow> pin, t\<lparr>console := cs\<rparr>)"
proof -
  have "length (ics_array s) = 64" using assms(1) by (simp add: madt_ok_def)
  note gsi = find_gsi_records [OF this assms(2,3) refl]
  obtain cs where "get_madt_tables mt s = Some (Inr (madt_state s cs (fill s 0 (filter (kept s) rs) (ics_array s)) (last_ioapic s rs (ioapic_address s))))"
    using get_madt_tables_records [OF assms(1)] assms(2) by auto
  with gsi show ?thesis by blast
qed

lemma madt_then_gsi_witness:
  "\<exists>t cs. get_madt_tables 0x1000 madt_machine = Some (Inr t) \<and> find_gsi 1 t = Inr (2, t\<lparr>console := cs\<rparr>)"
proof -
  have "length (filter (kept madt_machine) [0x102C, 0x1034, 0x1040]) \<le> 64" unfolding madt_machine_kept by simp
  moreover have "\<forall>e \<in> set (ics_array madt_machine). ics_type e \<noteq> 2" by (simp add: madt_machine_ics zero_ics_def)
  moreover have "find (is_override madt_machine 1) [0x102C, 0x1034, 0x1040] = Some 0x1040"
    by (simp add: is_override_def madt_machine_reads)
  ultimately show ?thesis using madt_then_gsi [OF madt_machine_ok, of 1] by (simp add: madt_machine_reads)
qed

text \<open>
  The masking loop of init_apic ends and masks every pin below the number the IOAPIC reports
  as its highest one, and that pin itself is left as it was, like every other register.
\<close>

theorem mask_pins_masks:
  assumes "\<forall>evs. highest_pin (dev s) (ioapic_address s) (io s @ evs) = of_nat n" "n < 120"
  shows "\<exists>t. mask_pins 0 s = Some t \<and> t = s\<lparr>io := io t\<rparr> \<and>
    (\<forall>r. ioapic_register (ioapic_address s) t r =
      (if 0x10 \<le> unat r \<and> unat r < 0x10 + 2 * n then if even (unat r) then 0x10000 else 0
       else ioapic_register (ioapic_address s) s r))"
  using mask_pins_from [OF assms refl, of 0] by auto

lemma mask_pins_masks_witness:
  "\<exists>t. mask_pins 0 madt_machine = Some t \<and> ioapic_register 0xFEC00000 t 0x3C = 0x10000 \<and> ioapic_register 0xFEC00000 t 0x3E = 0"
proof -
  have "\<forall>evs. highest_pin (dev madt_machine) (ioapic_address madt_machine) (io madt_machine @ evs) = of_nat 23"
    by (simp add: highest_pin_def madt_machine_def)
  note m = mask_pins_masks [OF this]
  have a: "ioapic_address madt_machine = 0xFEC00000" "ioapic_register 0xFEC00000 madt_machine = (\<lambda>_. 0)"
    by (simp_all add: madt_machine_def ioapic_register_def ioapic_view_def)
  obtain t where t: "mask_pins 0 madt_machine = Some t"
    "\<forall>r. ioapic_register 0xFEC00000 t r = (if 0x10 \<le> unat r \<and> unat r < 0x10 + 2 * 23 then if even (unat r) then 0x10000 else 0 else 0)"
    using m unfolding a by auto
  then have "ioapic_register 0xFEC00000 t 0x3C = 0x10000" "ioapic_register 0xFEC00000 t 0x3E = 0" by simp_all
  with t(1) show ?thesis by blast
qed


text \<open>A machine whose memory is all fours, with a power-management timer that moves with every access.\<close>

definition pm_machine :: kernel where
  "pm_machine = quiet_kernel\<lparr>phys := \<lambda>_. 4, dev := quiet_device\<lparr>dev_inl := \<lambda>h _. if even (length h) then 0 else 0x100000\<rparr>\<rparr>"

lemma pm_machine_ends:
  assumes "dev s = dev pm_machine"
  shows "\<not> pm_elapsed s 1 < pm_target 50000"
  by (simp add: pm_elapsed_def assms pm_machine_def pm_round_def pm_target_def PMT_TIMER_RATE_def)


end
