(* ===== verification/Apic_Init.thy ===== *)
theory Apic_Init
  imports Apic
begin

text \<open>
  The initialisation of the interrupt controllers as a whole (\<open>init_apic\<close> of
  \<open>kern/sys/acpi/apic.c\<close>, \<open>init_acpi\<close> of \<open>acpi.c\<close>): what it leaves alone, and which interrupts
  arrive after it.
\<close>

section \<open>What the interrupt controllers' initialisation leaves alone\<close>

definition acpi_frame :: "kernel \<Rightarrow> kernel \<Rightarrow> bool" where
  "acpi_frame s t \<longleftrightarrow>
     t = s\<lparr>console := console t, io := io t, rsdt := rsdt t, xsdt := xsdt t, fadt := fadt t, madt := madt t,
       lapic_address := lapic_address t, lapic_addr := lapic_addr t, ioapic_address := ioapic_address t, ics_array := ics_array t\<rparr>"

lemma acpi_frame_trans: "acpi_frame s t \<Longrightarrow> acpi_frame t u \<Longrightarrow> acpi_frame s u"
proof -
  assume st: "acpi_frame s t" and tu: "acpi_frame t u"
  show ?thesis
    unfolding acpi_frame_def
    by (rule trans [OF tu [unfolded acpi_frame_def]]) (subst st [unfolded acpi_frame_def], simp)
qed

interpretation acpi: frame acpi_frame
  by unfold_locales (simp add: acpi_frame_def, rule acpi_frame_trans)

lemma acpi_frame_updates [simp]:
  "acpi_frame s (s\<lparr>console := c\<rparr>)" "acpi_frame s (emit e s)" "acpi_frame s (s\<lparr>io := h\<rparr>)" "acpi_frame s (s\<lparr>console := c, io := h\<rparr>)"
  "acpi_frame s (s\<lparr>rsdt := a\<rparr>)" "acpi_frame s (s\<lparr>xsdt := a\<rparr>)" "acpi_frame s (s\<lparr>madt := a\<rparr>)" "acpi_frame s (s\<lparr>fadt := a\<rparr>)"
  "acpi_frame s (s\<lparr>ics_array := is\<rparr>)" "acpi_frame s (s\<lparr>ioapic_address := a\<rparr>)" "acpi_frame s (s\<lparr>lapic_addr := w\<rparr>)"
  "acpi_frame s (s\<lparr>lapic_address := a\<rparr>)" "acpi_frame s (s\<lparr>lapic_address := a, io := h\<rparr>)" "acpi_frame s s"
  by (simp_all add: acpi_frame_def emit_def)

lemma printf_acpi: "printf f args s = Inr t \<Longrightarrow> acpi_frame s t"
  by (drule printf_Inr) (erule ssubst, simp)

lemma log_acpi: "log_info msg s = Inr t \<Longrightarrow> acpi_frame s t" "log_success msg s = Inr t \<Longrightarrow> acpi_frame s t"
  by (simp_all add: log_info_def log_success_def printf_acpi)

lemma find_acpi_table_acpi: "find_acpi_table sig r x s = Some (Inr (a, t)) \<Longrightarrow> acpi_frame s t"
  unfolding find_acpi_table_def
  by (auto simp: obind_eq_Inr sbind_eq_Inr dest!: printf_acpi split: option.splits if_splits intro: acpi_frame_trans)

lemma set_ics_acpi: "set_ics i f s = Inr t \<Longrightarrow> acpi_frame s t"
  by (auto simp: set_ics_def split: if_splits)

lemma madt_entry_acpi: "madt_entry c i s = Inr (j, t) \<Longrightarrow> acpi_frame s t"
  unfolding madt_entry_def
  by (auto simp: sbind_eq_Inr dest!: printf_acpi set_ics_acpi split: if_splits
      intro: acpi_frame_trans acpi_frame_trans [OF _ acpi_frame_updates(10)])

lemma madt_loop_acpi:
  assumes "madt_loop c len i s = Some r"
  shows "\<forall>t. r = Inr t \<longrightarrow> acpi_frame s t"
proof (rule madt_loop.raw_induct [OF _ assms, where P = "\<lambda>c len i s r. \<forall>t. r = Inr t \<longrightarrow> acpi_frame s t"])
  fix f c and len :: i32 and i :: nat and s :: kernel and r
  assume IH: "\<And>c len i s r. f c len i s = Some r \<Longrightarrow> \<forall>t. r = Inr t \<longrightarrow> acpi_frame s t"
    and body: "(if 0 < sint len
      then (case madt_entry c i s of
              Inl e \<Rightarrow> Some (Inl e)
            | Inr r \<Rightarrow> f (c + ucast (record_length (snd r) c)) (len - ucast (record_length (snd r) c)) (fst r) (snd r))
      else Some (Inr s)) = Some r"
  show "\<forall>t. r = Inr t \<longrightarrow> acpi_frame s t"
  proof (intro allI impI)
    fix t
    assume r: "r = Inr t"
    show "acpi_frame s t"
    proof (cases "0 < sint len")
      case True
      then obtain j u where u: "madt_entry c i s = Inr (j, u)"
        "f (c + ucast (record_length u c)) (len - ucast (record_length u c)) j u = Some (Inr t)"
        using body r by (auto split: sum.splits)
      then show ?thesis using IH madt_entry_acpi acpi_frame_trans by blast
    next
      case False
      then show ?thesis using body r by simp
    qed
  qed
qed

lemma get_madt_tables_acpi: "get_madt_tables mt s = Some (Inr t) \<Longrightarrow> acpi_frame s t"
  using madt_loop_acpi by (auto simp: get_madt_tables_def Let_def)

lemma ioapic_acpi [simp]:
  "acpi_frame s (ioapic_configure_entry a r v s)" "acpi_frame s (snd (ioapic_read a g s))"
  by (simp_all add: ioapic_configure_entry_def ioapic_write_def ioapic_read_def mmio_read_def Let_def emit_def)

lemma apic_access_acpi [simp]: "acpi_frame s (apic_write a r v s)" "acpi_frame s (snd (apic_read a r s))"
  by (simp_all add: apic_write_def apic_read_def mmio_read_def Let_def)

lemma mask_pins_acpi:
  assumes "mask_pins i s = Some t"
  shows "acpi_frame s t"
proof (rule mask_pins.raw_induct [OF _ assms, where P = "\<lambda>i s t. acpi_frame s t"])
  fix f i and s t :: kernel
  assume IH: "\<And>i s t. f i s = Some t \<Longrightarrow> acpi_frame s t"
    and body: "(let r = ioapic_read (ioapic_address s) IOAPICVER_REG s
      in if i \<noteq> drop_bit 16 (fst r) AND 0xFF
         then f (i + 1) (ioapic_configure_entry (ioapic_address (snd r)) (ucast i) (push_bit 16 1) (snd r))
         else Some (snd r)) = Some t"
  let ?r = "ioapic_read (ioapic_address s) IOAPICVER_REG s"
  show "acpi_frame s t"
  proof (cases "i = drop_bit 16 (fst ?r) AND 0xFF")
    case True
    then show ?thesis using body by (auto simp: Let_def)
  next
    case False
    then have "f (i + 1) (ioapic_configure_entry (ioapic_address (snd ?r)) (ucast i) (push_bit 16 1) (snd ?r)) = Some t"
      using body by (simp add: Let_def)
    then show ?thesis using IH acpi_frame_trans ioapic_acpi by blast
  qed
qed

lemma find_gsi_acpi: "find_gsi_from pin i s = Inr (g, t) \<Longrightarrow> acpi_frame s t"
proof (induction pin i s rule: find_gsi_from.induct)
  case (1 pin i s)
  let ?hit = "ics_type (ics_array s ! i) = 2 \<and> ucast (iso_source s (ics_address (ics_array s ! i))) = pin"
  note step = "1.prems" [unfolded find_gsi_from.simps [of pin i s]]
  have "i < 64 \<Longrightarrow> i < length (ics_array s)" using step by (cases "i < length (ics_array s)") simp_all
  then consider "\<not> i < 64" | "i < 64" "i < length (ics_array s)" "?hit" | "i < 64" "i < length (ics_array s)" "\<not> ?hit" by blast
  then show ?case
  proof cases
    case 1
    then show ?thesis using step by simp
  next
    case 2
    then show ?thesis using step by (auto simp: Let_def sbind_eq_Inr dest!: printf_acpi)
  next
    case 3
    then have "find_gsi_from pin (i + 1) s = Inr (g, t)" using step by (simp only: if_True if_False not_True_eq_False)
    then show ?thesis using "1.IH" 3 by blast
  qed
qed

lemma ps2_init_acpi: "ps2_init s = Some (Inr t) \<Longrightarrow> acpi_frame s t"
  using ps2_init_ports [of s "Inr t"] by auto

lemma ps2_int_init_acpi:
  assumes "ps2_int_init s = Some (Inr t)"
  shows "acpi_frame s t"
proof -
  obtain a g b c d where a: "log_info ''Initalizing PS/2 keyboard'' s = Inr a" and b: "find_gsi 1 a = Inr (g, b)"
    and c: "ps2_init b = Some (Inr c)" and p: "printf ''ps2: configured IOAPIC redirection entry{n}'' [] (ioapic_configure_entry (ioapic_address c) (ucast g) 33
        (ioapic_configure_entry (ioapic_address c) (ucast g) 0 c)) = Inr d"
    and t: "log_success ''PS/2 keyboard initalized'' d = Inr t"
    using assms
    by (simp only: ps2_int_init_def obind_eq_Inr option.inject split_paired_Ex prod.case Let_def configure_keeps)
      (elim exE conjE, rule that)
  note log_acpi(1) [OF a] find_gsi_acpi [OF b [unfolded find_gsi_def]] ps2_init_acpi [OF c] log_acpi(2) [OF t]
  moreover have "acpi_frame c d" using printf_acpi [OF p] ioapic_acpi acpi_frame_trans by metis
  ultimately show ?thesis using acpi_frame_trans by metis
qed

lemma pmt_delay_acpi:
  assumes "pmt_delay us s = Some (Inr t)"
  shows "acpi_frame s t"
proof (cases "fadt_PMTimerLength s (fadt s) = 4")
  case True
  then show ?thesis using pmt_delay_result [OF True, of us] assms by auto
next
  case False
  then show ?thesis using assms by (auto simp: pmt_delay_def)
qed

lemma calibrate_timer_acpi:
  assumes "calibrate_timer mt s = Some (Inr t)"
  shows "acpi_frame s t"
proof -
  let ?la = "ucast (madt_lapicaddr s mt)"
  let ?w = "apic_write ?la LAPIC_INITCNT_REG 0xFFFFFFFF (apic_write ?la LAPIC_TIMERDIV_REG 0x3 (s\<lparr>lapic_address := ?la\<rparr>))"
  obtain u where u: "pmt_delay 50000 ?w = Some (Inr u)"
    and t: "t = (let s = apic_write (lapic_address u) LAPIC_TIMERDIV_REG 0x10000 u;
             (current, s) = apic_read (lapic_address s) LAPIC_CURCNT_REG s;
             s = apic_write (lapic_address s) LAPIC_LVTTIMER_REG (172 OR LAPIC_PERIODIC) s;
             s = apic_write (lapic_address s) LAPIC_TIMERDIV_REG 0x3 s
         in apic_write (lapic_address s) LAPIC_INITCNT_REG (0xffffffff - current) s)"
    using assms by (auto simp: calibrate_timer_def obind_eq_Inr Let_def apic_write_lapic case_prod_beta)
  have "acpi_frame s ?w" using acpi_frame_updates(12) apic_access_acpi(1) acpi_frame_trans by meson
  moreover have "acpi_frame ?w u" by (rule pmt_delay_acpi [OF u])
  moreover have "acpi_frame u t"
    unfolding t Let_def case_prod_beta using apic_access_acpi acpi_frame_trans by meson
  ultimately show ?thesis using acpi_frame_trans by meson
qed

lemma init_apic_acpi:
  assumes "init_apic mt s = Some (Inr t)"
  shows "acpi_frame s t"
proof -
  let ?base = "\<lambda>c. ucast (madt_lapicaddr c mt)"
  let ?r = "\<lambda>c. apic_read (?base (c\<lparr>lapic_addr := madt_lapicaddr c mt\<rparr>)) LAPIC_SIVR_REG (c\<lparr>lapic_addr := madt_lapicaddr c mt\<rparr>)"
  obtain a b c e g h k l where a: "get_madt_tables mt (emit Cli s) = Some (Inr a)"
    and b: "printf ''apic: MADT tables listed through{n}'' [] a = Inr b"
    and c: "printf ''apic: writing to SIV register{n}'' [] b = Inr c"
    and e: "printf ''madt lapic adr: 0x{xn}'' [VWord (ucast (lapic_addr (snd (?r c))))] (snd (?r c)) = Inr e"
    and g: "log_success ''LAPICs initialized'' (apic_write (?base e) LAPIC_SIVR_REG (fst (?r c) OR 0x100) e) = Inr g"
    and h: "calibrate_timer mt g = Some (Inr h)" and k: "mask_pins 0 h = Some k"
    and l: "ps2_int_init (emit Sti k) = Some (Inr l)" and t: "log_success ''IOAPIC initalized'' l = Inr t"
    using assms
    by (simp only: init_apic_def obind_eq_Inr option.inject Let_def case_prod_beta)
      (elim exE conjE, simp only: obind_eq_Inr option.inject option.distinct split: option.splits, elim exE conjE, rule that)
  have "acpi_frame s a" using get_madt_tables_acpi [OF a] acpi_frame_updates(2) acpi_frame_trans by meson
  moreover note printf_acpi [OF b] printf_acpi [OF c]
  moreover have "acpi_frame c (snd (?r c))" using acpi_frame_updates(11) apic_access_acpi(2) acpi_frame_trans by meson
  moreover note printf_acpi [OF e]
  moreover have "acpi_frame e g" using log_acpi(2) [OF g] apic_access_acpi(1) acpi_frame_trans by meson
  moreover note calibrate_timer_acpi [OF h] mask_pins_acpi [OF k]
  moreover have "acpi_frame k l" using ps2_int_init_acpi [OF l] acpi_frame_updates(2) acpi_frame_trans by meson
  moreover note log_acpi(2) [OF t]
  ultimately show ?thesis using acpi_frame_trans by meson
qed

lemma init_acpi_acpi:
  assumes "init_acpi apic facp s = Some (Inr t)"
  shows "acpi_frame s t"
proof -
  obtain rsdp where rsdp: "rsdp_response (boot s) = Some rsdp"
    using assms by (cases "rsdp_response (boot s)") (auto simp: init_acpi_def)
  define r where "r = s\<lparr>rsdt := parse_rsdt (hhdmoffset s) rsdp s\<rparr>"
  define x where "x = r\<lparr>xsdt := parse_xsdt (hhdmoffset r) rsdp r\<rparr>"
  have sx: "acpi_frame s x" unfolding x_def r_def using acpi_frame_updates(5,6) acpi_frame_trans by meson
  obtain a b where a: "find_acpi_table apic (rsdt x) (xsdt x) x = Some (Inr (a, b))"
    and rest: "obind (Some (if madt (b\<lparr>madt := a\<rparr>) = 0 then log_panic ''MADT table not found, hanging'' (b\<lparr>madt := a\<rparr>)
        else Inr (b\<lparr>madt := a\<rparr>))) (\<lambda>s.
             obind (find_acpi_table facp (rsdt s) (xsdt s) s) (\<lambda>(table, s).
             let s = s\<lparr>fadt := table\<rparr>
             in obind (Some (if fadt s = 0 then log_panic ''FADT table not found, hanging'' s else Inr s)) (\<lambda>s.
             init_apic (madt s) s))) = Some (Inr t)"
    using assms unfolding init_acpi_def rsdp option.case Let_def r_def [symmetric] x_def [symmetric]
    by (subst (asm) obind_eq_Inr) auto
  define m where "m = b\<lparr>madt := a\<rparr>"
  have bm: "acpi_frame b m" unfolding m_def by simp
  have "obind (find_acpi_table facp (rsdt m) (xsdt m) m) (\<lambda>(table, s).
             let s = s\<lparr>fadt := table\<rparr>
             in obind (Some (if fadt s = 0 then log_panic ''FADT table not found, hanging'' s else Inr s)) (\<lambda>s.
             init_apic (madt s) s)) = Some (Inr t)"
    using rest unfolding m_def [symmetric] by (subst (asm) obind_eq_Inr) (auto split: if_splits)
  then obtain c d where c: "find_acpi_table facp (rsdt m) (xsdt m) m = Some (Inr (c, d))"
    and last: "obind (Some (if fadt (d\<lparr>fadt := c\<rparr>) = 0 then log_panic ''FADT table not found, hanging'' (d\<lparr>fadt := c\<rparr>)
        else Inr (d\<lparr>fadt := c\<rparr>))) (\<lambda>s. init_apic (madt s) s) = Some (Inr t)"
    by (subst (asm) obind_eq_Inr) (auto simp: Let_def)
  have "init_apic (madt (d\<lparr>fadt := c\<rparr>)) (d\<lparr>fadt := c\<rparr>) = Some (Inr t)"
    using last by (subst (asm) obind_eq_Inr) (auto split: if_splits)
  then have "acpi_frame (d\<lparr>fadt := c\<rparr>) t" by (rule init_apic_acpi)
  then show ?thesis
    using sx find_acpi_table_acpi [OF a] bm find_acpi_table_acpi [OF c] acpi_frame_updates(8) acpi_frame_trans by meson
qed

section \<open>The steps of the initialisation\<close>

lemma fits_init:
  "fits ''apic: MADT tables listed through{n}'' []" "fits ''apic: writing to SIV register{n}'' []"
  "fits ''madt lapic adr: 0x{xn}'' [VWord a]"
  by (simp_all add: fits_simps)

text \<open>All that is read from the tables is read through \<open>rd8\<close>.\<close>

lemma table_reads:
  assumes "rd8 t = rd8 s"
  shows "rd32 t = rd32 s" "rd64 t = rd64 s" "sdt_length t = sdt_length s" "madt_lapicaddr t = madt_lapicaddr s"
    "entry_type t = entry_type s" "record_length t = record_length s" "plapic_flags t = plapic_flags s"
    "iso_source t = iso_source s" "iso_gsi t = iso_gsi s" "ioapic_ioapicaddr t = ioapic_ioapicaddr s"
    "kept t = kept s" "is_override t = is_override s" "override_for pin t = override_for pin s" "last_ioapic t = last_ioapic s"
    "fadt_PMTimerLength t = fadt_PMTimerLength s" "fadt_PMTimerBlock t = fadt_PMTimerBlock s"
proof -
  show r: "rd32 t = rd32 s" "rd64 t = rd64 s" by (simp_all only: rd32_def rd64_def assms fun_eq_iff simp_thms)
  show e: "sdt_length t = sdt_length s" "madt_lapicaddr t = madt_lapicaddr s" "entry_type t = entry_type s"
    "record_length t = record_length s" "plapic_flags t = plapic_flags s" "iso_source t = iso_source s" "iso_gsi t = iso_gsi s"
    "ioapic_ioapicaddr t = ioapic_ioapicaddr s" "fadt_PMTimerLength t = fadt_PMTimerLength s" "fadt_PMTimerBlock t = fadt_PMTimerBlock s"
    by (simp_all add: fun_eq_iff sdt_length_at madt_lapicaddr_at entry_type_at record_length_at plapic_flags_at iso_source_at
        iso_gsi_at ioapic_ioapicaddr_at fadt_PMTimerLength_at fadt_PMTimerBlock_at r assms)
  show "kept t = kept s" "is_override t = is_override s" "override_for pin t = override_for pin s"
    by (simp_all add: fun_eq_iff kept_def is_override_def override_for_def e)
  show "last_ioapic t = last_ioapic s" unfolding last_ioapic_def [abs_def] e ..
qed

lemma init_apic_steps:
  assumes "get_madt_tables mt (emit Cli s) = Some (Inr a)"
  shows "\<exists>c h. init_apic mt s =
    obind (calibrate_timer mt (a\<lparr>lapic_addr := madt_lapicaddr a mt, io := h, console := c\<rparr>)) (\<lambda>s.
      case mask_pins 0 s of None \<Rightarrow> None | Some s \<Rightarrow>
      obind (ps2_int_init (emit Sti s)) (\<lambda>s. Some (log_success ''IOAPIC initalized'' s)))"
proof -
  have m: "madt_lapicaddr (a\<lparr>lapic_addr := l, io := h, console := c\<rparr>) = madt_lapicaddr a"
    "madt_lapicaddr (a\<lparr>console := c, lapic_addr := l\<rparr>) = madt_lapicaddr a" "madt_lapicaddr (a\<lparr>console := c\<rparr>) = madt_lapicaddr a" for c l h
    by (rule table_reads(4), simp add: rd8_def fun_eq_iff)+
  let ?rest = "\<lambda>s. case mask_pins 0 s of None \<Rightarrow> None | Some s \<Rightarrow>
      obind (ps2_int_init (emit Sti s)) (\<lambda>s. Some (log_success ''IOAPIC initalized'' s))"
  let ?L = "madt_lapicaddr a mt"
  let ?sv = "dev_mmio (dev a) (io a) (ucast ?L + 0xF0)"
  let ?K = "\<lambda>s. let s = s\<lparr>lapic_addr := madt_lapicaddr s mt\<rparr>;
         (spurious_reg, s) = apic_read (ucast (madt_lapicaddr s mt)) LAPIC_SIVR_REG s
     in obind (Some (printf ''madt lapic adr: 0x{xn}'' [VWord (ucast (lapic_addr s))] s)) (\<lambda>s.
        let s = apic_write (ucast (madt_lapicaddr s mt)) LAPIC_SIVR_REG (spurious_reg OR 0x100) s
        in obind (Some (log_success ''LAPICs initialized'' s)) (\<lambda>s.
           obind (calibrate_timer mt s) ?rest))"
  obtain c where c: "\<And>f :: kernel \<Rightarrow> (failure + kernel) option.
      obind (Some (printf ''apic: MADT tables listed through{n}'' [] a)) (\<lambda>s.
      obind (Some (printf ''apic: writing to SIV register{n}'' [] s)) f) = f (a\<lparr>console := c\<rparr>)"
    by (simp add: printf_fits fits_init)
  have "init_apic mt s = ?K (a\<lparr>console := c\<rparr>)"
    unfolding init_apic_def assms obind_simps(3) c ..
  also have "\<dots> = obind (calibrate_timer mt (a\<lparr>lapic_addr := ?L,
      io := io a @ [Mmio_Read (ucast ?L + 0xF0) ?sv, lapic_write (hhdmoffset a) (ucast ?L) 0xF0 (?sv OR 0x100)],
      console := c @ printed ''madt lapic adr: 0x{xn}'' [VWord (ucast ?L)] @
        printed ''{k}kern_success: {ksn}'' [VStr ANSI_COLOR_GREEN, VStr ANSI_COLOR_RESET, VStr ''LAPICs initialized'']\<rparr>)) ?rest"
    by (simp add: Let_def m apic_read_def mmio_read_def printf_fits [OF fits_init(3)] log_success_def printf_fits [OF fits_log(3)]
        apic_write_def emit_def LAPIC_SIVR_REG_def lapic_write_def)
  finally show ?thesis by blast
qed

lemma configured_registers:
  assumes "ioapic_register a t = (ioapic_register a s)(of_nat (0x10 + 2 * g) := 33, of_nat (0x11 + 2 * g) := 0)"
    and "\<forall>r. 0x10 \<le> unat r \<and> unat r < 0x10 + 2 * n \<longrightarrow> ioapic_register a s r = (if even (unat r) then 0x10000 else 0)"
    and "g < 120" "k < n" "n < 120"
  shows "ioapic_register a t (of_nat (0x10 + 2 * k)) = (if k = g then 33 else 0x10000)"
    and "ioapic_register a t (of_nat (0x11 + 2 * k)) = 0"
proof -
  have u: "unat (of_nat j :: u32) = j" if "j < 1000" for j using that by (simp add: unat_of_nat take_bit_nat_eq_self)
  have inj: "(of_nat i :: u32) = of_nat j \<longleftrightarrow> i = j" if "i < 1000" "j < 1000" for i j using u that by metis
  have even: "ioapic_register a s (of_nat (0x10 + 2 * k)) = 0x10000" "ioapic_register a s (of_nat (0x11 + 2 * k)) = 0"
    using assms(2) [rule_format, of "of_nat (0x10 + 2 * k)"] assms(2) [rule_format, of "of_nat (0x11 + 2 * k)"]
      assms(4,5) u [of "0x10 + 2 * k"] u [of "0x11 + 2 * k"] by simp_all
  show "ioapic_register a t (of_nat (0x10 + 2 * k)) = (if k = g then 33 else 0x10000)"
    using inj [of "0x10 + 2 * k" "0x10 + 2 * g"] inj [of "0x10 + 2 * k" "0x11 + 2 * g"] assms(3-5)
    unfolding assms(1) fun_upd_def even(1) by (auto simp del: of_nat_add of_nat_mult)
  show "ioapic_register a t (of_nat (0x11 + 2 * k)) = 0"
    using inj [of "0x11 + 2 * k" "0x10 + 2 * g"] inj [of "0x11 + 2 * k" "0x11 + 2 * g"] assms(3-5)
    unfolding assms(1) fun_upd_def even(2) by (auto simp del: of_nat_add of_nat_mult)
qed

text \<open>The waits that may not end: for the power-management timer and for the keyboard controller.\<close>

definition stuck :: "device \<Rightarrow> bool" where
  "stuck d \<longleftrightarrow> (\<exists>w. dev w = d \<and>
     ((\<forall>k. pm_elapsed w k < pm_target 50000) \<or> (\<forall>k. drain_busy d (ps2_prologue w) k)))"

lemma records_cong: "record_length t = record_length s \<Longrightarrow> records t cur len rs = records s cur len rs"
  by (induction rs arbitrary: cur len) simp_all

lemma keyboard_gsi_cong:
  "ics_array t = ics_array s \<Longrightarrow> rd8 t = rd8 s \<Longrightarrow> keyboard_gsi t = keyboard_gsi s"
  unfolding keyboard_gsi_def using table_reads(9,13) [of t s] by (simp only:)

lemma register_Sti: "ioapic_register a (emit Sti s) = ioapic_register a s"
  by (simp add: ioapic_register_def ioapic_view_def emit_def ioapic_step_def split: prod.split)

lemma init_apic_result:
  assumes ok: "madt_ok s mt rs" "length (filter (kept s) rs) \<le> 64" "\<forall>e \<in> set (ics_array s). ics_type e \<noteq> 2"
    and len: "fadt_PMTimerLength s (fadt s) = 4"
    and a: "a = last_ioapic s rs (ioapic_address s)"
    and high: "\<forall>h. highest_pin (dev s) a h = of_nat n" "n < 120"
    and gsi: "(case find (is_override s 1) rs of Some r \<Rightarrow> iso_gsi s r | None \<Rightarrow> 1) = of_nat g" "g < 120"
  shows "case init_apic mt s of
      None \<Rightarrow> stuck (dev s)
    | Some r \<Rightarrow> \<exists>t. r = Inr t \<and> ioapic_address t = a \<and> lapic_address t = ucast (madt_lapicaddr s mt) \<and>
        lapic_addr t = madt_lapicaddr s mt \<and>
        (\<forall>k < n. ioapic_register a t (of_nat (0x10 + 2 * k)) = (if k = g then 33 else 0x10000) \<and>
          ioapic_register a t (of_nat (0x11 + 2 * k)) = 0)"
proof -
  let ?e = "emit Cli s"
  have r: "rd8 ?e = rd8 s" by (simp add: emit_def)
  note e = table_reads [OF r]
  have cli: "dev ?e = dev s" "ics_array ?e = ics_array s" "ioapic_address ?e = ioapic_address s" "fadt ?e = fadt s"
    by (simp_all add: emit_def)
  have ok': "madt_ok ?e mt rs" using ok(1) records_cong [OF e(6)] by (simp add: madt_ok_def e cli)
  obtain cs where b: "get_madt_tables mt ?e = Some (Inr (madt_state ?e cs (fill ?e 0 (filter (kept s) rs) (ics_array s)) a))"
    using get_madt_tables_records [OF ok'] ok(2) unfolding a e cli by auto
  define u where "u = madt_state ?e cs (fill ?e 0 (filter (kept s) rs) (ics_array s)) a"
  have len64: "length (ics_array s) = 64" using ok(1) by (simp add: madt_ok_def)
  have u: "dev u = dev s" "rd8 u = rd8 s" "fadt u = fadt s" "ioapic_address u = a" "length (ics_array u) = 64"
    using len64 r by (simp_all add: u_def rd_madt_state) (simp_all add: madt_state_def emit_def)
  have "keyboard_gsi u = of_nat g"
    using gsi_records [of ?e rs u cs a 1] len64 ok(2,3) gsi(1) unfolding e cli u_def keyboard_gsi_def by simp
  define la where "la = madt_lapicaddr s mt"
  have la: "madt_lapicaddr u mt = la" by (simp add: la_def madt_lapicaddr_at rd32_def u(2))
  obtain c h where init: "init_apic mt s =
    obind (calibrate_timer mt (u\<lparr>lapic_addr := la, io := h, console := c\<rparr>)) (\<lambda>s.
      case mask_pins 0 s of None \<Rightarrow> None | Some s \<Rightarrow>
      obind (ps2_int_init (emit Sti s)) (\<lambda>s. Some (log_success ''IOAPIC initalized'' s)))"
    using init_apic_steps [OF b] unfolding u_def [symmetric] la by blast
  let ?w = "u\<lparr>lapic_addr := la, io := h, console := c\<rparr>"
  have w: "rd8 ?w = rd8 s" "fadt ?w = fadt s" "dev ?w = dev s" using u by (simp_all add: rd8_def fun_eq_iff)
  have wl: "fadt_PMTimerLength ?w (fadt ?w) = 4" "madt_lapicaddr ?w mt = la"
    using len table_reads(4,15) [OF w(1)] w(2) by (simp_all only: la_def)
  show ?thesis
  proof (cases "calibrate_timer mt ?w")
    case None
    then have "stuck (dev s)"
      using calibrate_timer_result [OF wl(1) refl refl, of mt] unfolding stuck_def
      by (intro exI [of _ "timer_started (hhdmoffset ?w) (ucast (madt_lapicaddr ?w mt)) ?w"])
        (simp add: u(1) timer_started_def)
    then show ?thesis by (simp add: init None)
  next
    case (Some r)
    then obtain h2 where "r = Inr (?w\<lparr>lapic_address := ucast la, io := h2\<rparr>)"
      using calibrate_timer_result [OF wl(1) refl refl, of mt] unfolding wl(2) by auto
    define v where "v = ?w\<lparr>lapic_address := ucast la, io := h2\<rparr>"
    have v: "dev v = dev s" "rd8 v = rd8 s" "ioapic_address v = a" "ics_array v = ics_array u"
      "lapic_address v = ucast la" "lapic_addr v = la"
      using u w(1) by (simp_all add: v_def rd8_def fun_eq_iff)
    obtain evs where m: "mask_pins 0 v = Some (v\<lparr>io := io v @ evs\<rparr>)"
      "\<forall>r. ioapic_register a (v\<lparr>io := io v @ evs\<rparr>) r =
        (if 0x10 \<le> unat r \<and> unat r < 0x10 + 2 * n then if even (unat r) then 0x10000 else 0 else ioapic_register a v r)"
      using mask_pins_from [where s = v and a = a and n = n and i = 0] high v(1,3) by auto
    define p where "p = emit Sti (v\<lparr>io := io v @ evs\<rparr>)"
    have p: "dev p = dev s" "rd8 p = rd8 s" "ioapic_address p = a" "ics_array p = ics_array u"
      "lapic_address p = ucast la" "lapic_addr p = la"
      using v by (simp_all add: p_def emit_def rd8_def fun_eq_iff)
    have pg: "keyboard_gsi p = of_nat g"
      using keyboard_gsi_cong [of p u] p(2,4) u(2) \<open>keyboard_gsi u = of_nat g\<close> by simp
    have p64: "length (ics_array p) = 64" using p(4) u(5) by simp
    have init: "init_apic mt s = obind (ps2_int_init p) (\<lambda>s. Some (log_success ''IOAPIC initalized'' s))"
      by (simp add: init Some \<open>r = _\<close> m(1) p_def flip: v_def)
    show ?thesis
    proof (cases "ps2_int_init p")
      case None
      then have "\<forall>k. drain_busy (dev s) (ps2_prologue p) k"
        using ps2_int_init_result [OF p64 pg gsi(2)] p(1) by simp
      then have "stuck (dev s)" using p(1) unfolding stuck_def by blast
      then show ?thesis by (simp add: init None)
    next
      case (Some r)
      then obtain t where t: "r = Inr t" "t = p\<lparr>console := console t, io := io t\<rparr>"
        "ioapic_register a t = (ioapic_register a p)(of_nat (0x10 + 2 * g) := 33, of_nat (0x11 + 2 * g) := 0)"
        using ps2_int_init_result [OF p64 pg gsi(2)] unfolding p(3) by auto
      obtain c' where c': "log_success ''IOAPIC initalized'' t = Inr (t\<lparr>console := c'\<rparr>)"
        by (simp add: log_success_def printf_fits fits_log)
      have "ioapic_register a (t\<lparr>console := c'\<rparr>) = ioapic_register a t" by (simp add: ioapic_register_def)
      moreover have "ioapic_address t = a" "lapic_address t = ucast la" "lapic_addr t = la"
        by (subst t(2), simp add: p)+
      moreover have "\<forall>r. 0x10 \<le> unat r \<and> unat r < 0x10 + 2 * n \<longrightarrow> ioapic_register a p r = (if even (unat r) then 0x10000 else 0)"
        using m(2) by (simp add: p_def register_Sti)
      ultimately show ?thesis
        using configured_registers [OF t(3) _ gsi(2) _ high(2)] by (simp add: init Some t(1) c' la_def)
    qed
  qed
qed

section \<open>From the root pointer\<close>

lemma acpi_frame_rd8: "acpi_frame s t \<Longrightarrow> rd8 t = rd8 s"
  by (subst acpi_frame_def [THEN iffD1], assumption) (simp add: rd8_def fun_eq_iff)

lemma parse_reads:
  assumes "rd8 t = rd8 s"
  shows "parse_rsdt off p t = parse_rsdt off p s" "parse_xsdt off p t = parse_xsdt off p s"
    "listed_tables t r x = listed_tables s r x" "has_signature t sig = has_signature s sig"
  by (simp_all add: parse_rsdt_def parse_xsdt_def rsdp_rsdtaddress_at rsdp_xsdtaddress_at table_reads [OF assms]
      listed_tables_def rsdt_tableptr_at [abs_def] xsdt_tableptr_at [abs_def] has_signature_def fun_eq_iff assms)

text \<open>The tables the firmware lists, found by their signatures.\<close>

definition tables_found :: "u64 \<Rightarrow> u64 \<Rightarrow> u64 \<Rightarrow> u64 \<Rightarrow> kernel \<Rightarrow> bool" where
  "tables_found apic facp mt ft s \<longleftrightarrow>
     (\<exists>rsdp. rsdp_response (boot s) = Some rsdp \<and>
       (let r = parse_rsdt (hhdmoffset s) rsdp s; x = parse_xsdt (hhdmoffset s) rsdp s in
        (r \<noteq> 0 \<or> x \<noteq> 0) \<and>
        find (has_signature s apic) (listed_tables s r x) = Some mt \<and>
        find (has_signature s facp) (listed_tables s r x) = Some ft)) \<and>
     strlen s apic \<noteq> None \<and> strlen s facp \<noteq> None \<and> mt \<noteq> 0 \<and> ft \<noteq> 0"

lemma strlen_reads:
  assumes "rd8 t = rd8 s" "strlen s a \<noteq> None"
  shows "strlen t a \<noteq> None"
  using assms strlen_loop_cong [OF assms(1)] by (auto simp: strlen_def)

lemma init_acpi_steps:
  assumes "tables_found apic facp mt ft s"
  shows "\<exists>r x c. init_acpi apic facp s = init_apic mt (s\<lparr>rsdt := r, xsdt := x, madt := mt, console := c, fadt := ft\<rparr>)"
proof -
  obtain rsdp where rsdp: "rsdp_response (boot s) = Some rsdp" using assms by (auto simp: tables_found_def)
  define r where "r = parse_rsdt (hhdmoffset s) rsdp s"
  define x where "x = parse_xsdt (hhdmoffset s) rsdp s"
  have F: "r \<noteq> 0 \<or> x \<noteq> 0" "find (has_signature s apic) (listed_tables s r x) = Some mt"
    "find (has_signature s facp) (listed_tables s r x) = Some ft" "strlen s apic \<noteq> None" "strlen s facp \<noteq> None" "mt \<noteq> 0" "ft \<noteq> 0"
    using assms rsdp by (auto simp: tables_found_def Let_def r_def x_def)
  have rd: "rd8 (s\<lparr>rsdt := a\<rparr>) = rd8 s" "rd8 (s\<lparr>rsdt := a, xsdt := b\<rparr>) = rd8 s"
    "rd8 (s\<lparr>rsdt := a, xsdt := b, console := c, madt := m\<rparr>) = rd8 s" for a b c m
    by (simp_all add: rd8_def fun_eq_iff)
  let ?s = "s\<lparr>rsdt := r, xsdt := x\<rparr>"
  obtain c where c: "find_acpi_table apic r x ?s = Some (Inr (mt, ?s\<lparr>console := c\<rparr>))"
    using find_acpi_table_find [OF F(1) strlen_reads [OF rd(2) F(4)]] F(2)
    unfolding parse_reads [OF rd(2)] by fastforce
  let ?m = "s\<lparr>rsdt := r, xsdt := x, console := c, madt := mt\<rparr>"
  obtain d where d: "find_acpi_table facp r x ?m = Some (Inr (ft, ?m\<lparr>console := d\<rparr>))"
    using find_acpi_table_find [OF F(1) strlen_reads [OF rd(3) F(5)]] F(3)
    unfolding parse_reads [OF rd(3)] by fastforce
  have "init_acpi apic facp s = init_apic mt (s\<lparr>rsdt := r, xsdt := x, madt := mt, console := d, fadt := ft\<rparr>)"
    using c d F(6,7) by (simp add: init_acpi_def rsdp Let_def parse_reads [OF rd(1)] flip: r_def x_def)
  then show ?thesis by blast
qed

lemma init_acpi_result:
  assumes found: "tables_found apic facp mt ft s"
    and ok: "madt_ok s mt rs" "length (filter (kept s) rs) \<le> 64" "\<forall>e \<in> set (ics_array s). ics_type e \<noteq> 2"
    and len: "fadt_PMTimerLength s ft = 4"
    and a: "a = last_ioapic s rs (ioapic_address s)"
    and high: "\<forall>h. highest_pin (dev s) a h = of_nat n" "n < 120"
    and gsi: "(case find (is_override s 1) rs of Some r \<Rightarrow> iso_gsi s r | None \<Rightarrow> 1) = of_nat g" "g < 120"
  shows "case init_acpi apic facp s of
      None \<Rightarrow> stuck (dev s)
    | Some r \<Rightarrow> \<exists>t. r = Inr t \<and> ioapic_address t = a \<and> lapic_address t = ucast (madt_lapicaddr s mt) \<and>
        lapic_addr t = madt_lapicaddr s mt \<and>
        (\<forall>k < n. ioapic_register a t (of_nat (0x10 + 2 * k)) = (if k = g then 33 else 0x10000) \<and>
          ioapic_register a t (of_nat (0x11 + 2 * k)) = 0)"
proof -
  obtain r x c where i: "init_acpi apic facp s = init_apic mt (s\<lparr>rsdt := r, xsdt := x, madt := mt, console := c, fadt := ft\<rparr>)"
    using init_acpi_steps [OF found] by blast
  let ?s = "s\<lparr>rsdt := r, xsdt := x, madt := mt, console := c, fadt := ft\<rparr>"
  have rd: "rd8 ?s = rd8 s" by (simp add: rd8_def fun_eq_iff)
  note T = table_reads [OF rd]
  have ok': "madt_ok ?s mt rs" using ok(1) records_cong [OF T(6)] by (simp add: madt_ok_def T)
  have gsi': "(case find (is_override ?s 1) rs of Some r \<Rightarrow> iso_gsi ?s r | None \<Rightarrow> 1) = of_nat g"
    unfolding T by (rule gsi(1))
  have sel: "ics_array ?s = ics_array s" "fadt ?s = ft" "dev ?s = dev s" "ioapic_address ?s = ioapic_address s" by simp_all
  note R = init_apic_result [OF ok', unfolded T sel, OF ok(2,3) len a high, OF gsi'[unfolded T] gsi(2)]
  show ?thesis unfolding i by (rule R)
qed

section \<open>An example\<close>

text \<open>
  Firmware tables in the page at 0x8000: the root pointer, a root table with two entries, a MADT
  with a processor, an IOAPIC and an override of pin 1 by pin 2, a FADT, and the two strings the
  kernel compares with.
\<close>

definition firmware :: "u64 \<Rightarrow> u8" where
  "firmware = (\<lambda>_. 0)(
     0x8010 := 48, 0x8011 := 128, 0x8030 := 82, 0x8031 := 83, 0x8032 := 68, 0x8033 := 84, 0x8034 := 44,
     0x8054 := 96, 0x8055 := 128, 0x8058 := 176, 0x8059 := 128, 0x8060 := 65, 0x8061 := 80, 0x8062 := 73,
     0x8063 := 67, 0x8064 := 74, 0x8086 := 224, 0x8087 := 254, 0x808D := 8, 0x808F := 5, 0x8090 := 1,
     0x8094 := 1, 0x8095 := 12, 0x809A := 192, 0x809B := 254, 0x80A0 := 2, 0x80A1 := 10, 0x80A3 := 1,
     0x80A4 := 2, 0x80B0 := 70, 0x80B1 := 65, 0x80B2 := 67, 0x80B3 := 80, 0x80FC := 8, 0x80FD := 6,
     0x810B := 4, 0x8110 := 65, 0x8111 := 80, 0x8112 := 73, 0x8113 := 67, 0x8118 := 70, 0x8119 := 65,
     0x811A := 67, 0x811B := 80)"

definition firmware_in :: "kernel \<Rightarrow> bool" where
  "firmware_in s \<longleftrightarrow> (\<forall>a. 0x8000 \<le> a \<and> a < 0x9000 \<longrightarrow> rd8 s a = firmware a)"

lemma firmware_near:
  fixes a :: u64
  assumes "0x8000 \<le> a" "a \<le> 0x8F00" "n < 8"
  shows "0x8000 \<le> a + of_nat n \<and> a + of_nat n < 0x9000"
proof -
  have u: "0x8000 \<le> unat a" "unat a \<le> 0x8F00" using assms(1,2) by (simp_all add: word_le_nat_alt)
  have "unat (a + of_nat n) = unat a + n" using u assms(3) by (intro unat_add_of_nat) simp
  then show ?thesis using u assms(3) by (simp add: word_le_nat_alt word_less_nat_alt)
qed

lemma firmware_read:
  assumes "firmware_in s" "0x8000 \<le> a" "a \<le> 0x8F00"
  shows "rd8 s a = firmware a" "rd32 s a = ld32 firmware a" "rd64 s a = ld64 firmware a"
proof -
  have at: "rd8 s (a + of_nat n) = firmware (a + of_nat n)" if "n < 8" for n
    using firmware_near [OF assms(2,3) that] assms(1) by (simp add: firmware_in_def)
  show "rd8 s a = firmware a" using at [of 0] by simp
  show "rd32 s a = ld32 firmware a"
    using at [of 0] at [of 1] at [of 2] at [of 3] by (simp add: rd32_def ld32_def)
  show "rd64 s a = ld64 firmware a"
    unfolding rd64_def using at by (intro ld64_cong) simp
qed

lemma firmware_words:
  "ld32 firmware 0x8010 = 0x8030" "ld64 firmware 0x8018 = 0" "ld32 firmware 0x8034 = 44" "ld32 firmware 0x8054 = 0x8060"
  "ld32 firmware 0x8058 = 0x80B0" "ld32 firmware 0x8064 = 74" "ld32 firmware 0x8084 = 0xFEE00000" "ld32 firmware 0x8090 = 1"
  "ld32 firmware 0x8098 = 0xFEC00000" "ld32 firmware 0x80A4 = 2"
  by code_simp+

lemma firmware_bytes:
  "firmware 0x808C = 0" "firmware 0x808D = 8" "firmware 0x8094 = 1" "firmware 0x8095 = 12" "firmware 0x80A0 = 2" "firmware 0x80A1 = 10"
  "firmware 0x80A3 = 1" "firmware 0x810B = 4"
  by code_simp+

lemma firmware_strings:
  "map firmware [0x8110, 0x8111, 0x8112, 0x8113, 0x8114] = [65, 80, 73, 67, 0]"
  "map firmware [0x8118, 0x8119, 0x811A, 0x811B, 0x811C] = [70, 65, 67, 80, 0]"
  "map firmware [0x8060, 0x8061, 0x8062, 0x8063] = [65, 80, 73, 67]"
  "map firmware [0x80B0, 0x80B1, 0x80B2, 0x80B3] = [70, 65, 67, 80]"
  by code_simp+

lemma firmware_signatures:
  assumes "firmware_in s"
  shows "has_signature s 0x8110 0x8060" "\<not> has_signature s 0x8118 0x8060" "has_signature s 0x8118 0x80B0"
    "strlen s 0x8110 \<noteq> None" "strlen s 0x8118 \<noteq> None"
proof -
  have four: "(\<forall>k < 4. P k) \<longleftrightarrow> P 0 \<and> P 1 \<and> P 2 \<and> P 3" for P :: "nat \<Rightarrow> bool"
  proof -
    have "k < 4 \<longleftrightarrow> k \<in> {0, 1, 2, 3}" for k :: nat by auto
    then show ?thesis by auto
  qed
  show "has_signature s 0x8110 0x8060" "\<not> has_signature s 0x8118 0x8060" "has_signature s 0x8118 0x80B0"
    using firmware_strings by (simp_all add: has_signature_def four firmware_read(1) [OF assms])
  have range: "{0..<4 :: nat} = {0, 1, 2, 3}" by auto
  have "strlen_loop s 0x8110 0 = Some (of_nat 4)" "strlen_loop s 0x8118 0 = Some (of_nat 4)"
    using firmware_strings unfolding atomize_conj
    by (intro conjI; intro strlen_loop_reach; simp add: range firmware_read(1) [OF assms])+
  then show "strlen s 0x8110 \<noteq> None" "strlen s 0x8118 \<noteq> None" by (simp_all add: strlen_def)
qed

lemma firmware_found:
  assumes "firmware_in s" "rsdp_response (boot s) = Some 0x8000" "hhdmoffset s = 0"
  shows "tables_found 0x8110 0x8118 0x8060 0x80B0 s"
proof -
  note F = firmware_read [OF assms(1)] firmware_words
  have "parse_rsdt 0 0x8000 s = 0x8030" "parse_xsdt 0 0x8000 s = 0"
    by (simp_all add: parse_rsdt_def parse_xsdt_def rsdp_rsdtaddress_at rsdp_xsdtaddress_at F)
  moreover have "listed_tables s 0x8030 0 = [0x8060, 0x80B0]"
    by (simp add: listed_tables_def sdt_length_at rsdt_tableptr_at sizeof_sdt_at F upt_conv_Cons)
  ultimately show ?thesis
    using firmware_signatures [OF assms(1)] by (simp add: tables_found_def assms(2,3) Let_def)
qed

lemma firmware_madt:
  assumes "firmware_in s" "ics_array s = replicate 64 zero_ics"
  shows "madt_ok s 0x8060 [0x808C, 0x8094, 0x80A0]" "filter (kept s) [0x808C, 0x8094, 0x80A0] = [0x808C, 0x8094, 0x80A0]"
    "\<forall>e \<in> set (ics_array s). ics_type e \<noteq> 2" "last_ioapic s [0x808C, 0x8094, 0x80A0] x = 0xFEC00000"
    "(case find (is_override s 1) [0x808C, 0x8094, 0x80A0] of Some r \<Rightarrow> iso_gsi s r | None \<Rightarrow> 1) = 2"
    "fadt_PMTimerLength s 0x80B0 = 4"
proof -
  note F = firmware_read [OF assms(1)] firmware_words firmware_bytes
  have r: "entry_type s 0x808C = 0" "entry_type s 0x8094 = 1" "entry_type s 0x80A0 = 2" "record_length s 0x808C = 8"
    "record_length s 0x8094 = 12" "record_length s 0x80A0 = 10" "plapic_flags s 0x808C = 1" "iso_source s 0x80A0 = 1"
    "iso_gsi s 0x80A0 = 2" "ioapic_ioapicaddr s 0x8094 = 0xFEC00000" "sdt_length s 0x8060 = 74"
    by (simp_all add: entry_type_at record_length_at plapic_flags_at iso_source_at iso_gsi_at ioapic_ioapicaddr_at sdt_length_at F)
  show "madt_ok s 0x8060 [0x808C, 0x8094, 0x80A0]" by (simp add: madt_ok_def madt_first_ics_at r assms(2))
  show "filter (kept s) [0x808C, 0x8094, 0x80A0] = [0x808C, 0x8094, 0x80A0]" by (simp add: kept_def r)
  show "\<forall>e \<in> set (ics_array s). ics_type e \<noteq> 2" by (simp add: assms(2) zero_ics_def)
  show "last_ioapic s [0x808C, 0x8094, 0x80A0] x = 0xFEC00000" by (simp add: last_ioapic_def r)
  show "(case find (is_override s 1) [0x808C, 0x8094, 0x80A0] of Some r \<Rightarrow> iso_gsi s r | None \<Rightarrow> 1) = 2"
    by (simp add: is_override_def r)
  show "fadt_PMTimerLength s 0x80B0 = 4" by (simp add: fadt_PMTimerLength_at F)
qed

text \<open>A device whose IOAPIC has 24 pins, whose timer moves and whose keyboard controller is idle.\<close>

definition board :: device where
  "board = quiet_device\<lparr>dev_mmio := \<lambda>_ _. 0x00170011, dev_inl := \<lambda>h _. if even (length h) then 0 else 0x100000\<rparr>"

lemma board_not_stuck: "\<not> stuck board"
proof -
  have "\<not> pm_elapsed w 1 < pm_target 50000" if "dev w = board" for w
    by (simp add: pm_elapsed_def that board_def pm_round_def pm_target_def PMT_TIMER_RATE_def)
  moreover have "\<not> drain_busy board h 0" for h by (simp add: drain_busy_def board_def quiet_device_def)
  ultimately show ?thesis unfolding stuck_def by blast
qed

definition acpi_machine :: kernel where
  "acpi_machine = quiet_kernel\<lparr>phys := firmware, dev := board, boot := no_boot\<lparr>rsdp_response := Some 0x8000\<rparr>\<rparr>"

section \<open>Properties\<close>

text \<open>
  C34. init_acpi on ordinary firmware: the root table lists a MADT and a FADT, the MADT's records
  fill its length and at most 64 of them are processors, IOAPICs or overrides, the array for them
  holds no override yet, the power-management timer has 32 bits, and the IOAPIC's highest pin and
  the keyboard's are below 120. It programs the IOAPIC so that of the pins below the highest one
  exactly the keyboard's delivers an interrupt, on vector 33, edge sensitive and active high, to
  the first processor, and every other is masked; the keyboard's pin is the one the MADT's first
  override of pin 1 gives, or pin 1. On such firmware it never panics, and fails to return only if
  the power-management timer or the keyboard controller never gets ready.
\<close>

theorem init_acpi_routes:
  assumes "tables_found apic facp mt ft s"
    and "madt_ok s mt rs" "length (filter (kept s) rs) \<le> 64" "\<forall>e \<in> set (ics_array s). ics_type e \<noteq> 2"
    and "fadt_PMTimerLength s ft = 4"
    and "a = last_ioapic s rs (ioapic_address s)"
    and "\<forall>h. highest_pin (dev s) a h = of_nat n" "n < 120"
    and "(case find (is_override s 1) rs of Some r \<Rightarrow> iso_gsi s r | None \<Rightarrow> 1) = of_nat g" "g < 120"
  shows "case init_acpi apic facp s of
      None \<Rightarrow> stuck (dev s)
    | Some r \<Rightarrow> \<exists>t. r = Inr t \<and> ioapic_address t = a \<and> lapic_address t = ucast (madt_lapicaddr s mt) \<and>
        lapic_addr t = madt_lapicaddr s mt \<and>
        (\<forall>k < n. redirection a t k = (if k = g then fixed_entry 33 False else fixed_entry 0 True))"
proof -
  note R = init_acpi_result [OF assms]
  show ?thesis
  proof (cases "init_acpi apic facp s")
    case None
    with R show ?thesis by simp
  next
    case (Some r)
    with R obtain t where t: "r = Inr t" "ioapic_address t = a" "lapic_address t = ucast (madt_lapicaddr s mt)"
        "lapic_addr t = madt_lapicaddr s mt"
      and regs: "\<forall>k < n. ioapic_register a t (of_nat (0x10 + 2 * k)) = (if k = g then 33 else 0x10000) \<and>
          ioapic_register a t (of_nat (0x11 + 2 * k)) = 0"
      by (simp only: option.case) blast
    from regs have "\<forall>k < n. redirection a t k = (if k = g then fixed_entry 33 False else fixed_entry 0 True)"
      using redirection_fixed by presburger
    with Some t show ?thesis by simp
  qed
qed

lemma init_acpi_routes_witness:
  "\<exists>t. init_acpi 0x8110 0x8118 acpi_machine = Some (Inr t) \<and> redirection 0xFEC00000 t 2 = fixed_entry 33 False \<and>
     redirection 0xFEC00000 t 1 = fixed_entry 0 True"
proof -
  have f: "firmware_in acpi_machine" by (simp add: firmware_in_def rd8_def acpi_machine_def)
  have m: "rsdp_response (boot acpi_machine) = Some 0x8000" "hhdmoffset acpi_machine = 0" "ics_array acpi_machine = replicate 64 zero_ics"
    "dev acpi_machine = board"
    by (simp_all add: acpi_machine_def quiet_kernel_def initial_kernel_def)
  note M = firmware_madt [OF f m(3)]
  have len: "length (filter (kept acpi_machine) [0x808C, 0x8094, 0x80A0]) \<le> 64" unfolding M(2) by simp
  have pin: "\<forall>h. highest_pin (dev acpi_machine) 0xFEC00000 h = of_nat 23" by (simp add: m(4) highest_pin_def board_def)
  have gsi: "(case find (is_override acpi_machine 1) [0x808C, 0x8094, 0x80A0] of Some r \<Rightarrow> iso_gsi acpi_machine r | None \<Rightarrow> 1) = of_nat 2"
    using M(5) by simp
  have small: "(23 :: nat) < 120" "(2 :: nat) < 120" by simp_all
  note R = init_acpi_routes [OF firmware_found [OF f m(1,2)] M(1) len M(3,6) M(4) [symmetric] pin small(1) gsi small(2)]
  have "\<exists>t. init_acpi 0x8110 0x8118 acpi_machine = Some (Inr t) \<and>
     (\<forall>k < 23. redirection 0xFEC00000 t k = (if k = 2 then fixed_entry 33 False else fixed_entry 0 True))"
    using R board_not_stuck unfolding m(4)
    by (cases "init_acpi 0x8110 0x8118 acpi_machine") (simp, simp only: option.case, blast)
  then obtain t where t: "init_acpi 0x8110 0x8118 acpi_machine = Some (Inr t)"
    "\<forall>k < 23. redirection 0xFEC00000 t k = (if k = 2 then fixed_entry 33 False else fixed_entry 0 True)" by blast
  then show ?thesis
    using t(2) [rule_format, of 2] t(2) [rule_format, of 1] by simp
qed

end
