(* ===== verification/Smp.thy ===== *)
theory Smp
  imports Apic Gdt Idt Vmm_Init
begin

text \<open>
  \<open>kern/sys/smp/smp.c\<close>: the boot processor hands every processor the address of the trampoline,
  and the trampoline brings an application processor up. The processors share the one kernel
  state; a call of the trampoline is a sequence of steps on it.
\<close>

section \<open>The functions\<close>

text \<open>\<open>gdt_addr\<close> and \<open>tss_addr\<close> are the addresses of the globals of \<open>gdt.c\<close>; the endless \<open>hlt\<close> is \<open>Halted\<close>.\<close>

definition ap_trampoline :: "u64 \<Rightarrow> u64 \<Rightarrow> limine_smp_info \<Rightarrow> kernel \<Rightarrow> (failure + kernel) option" where
  "ap_trampoline gdt_addr tss_addr smp_info s =
     (if smp_lapic_id smp_info = 0 then Some (Inr s)
      else obind (Some (gdt_init gdt_addr tss_addr (emit Cli s))) (\<lambda>s.
        let s = idt_load s;
            s = vmm_set_ctx (pml4addr s) s;
            s = reload_cr3 s
        in obind (init_apic_ap s) (\<lambda>s.
           let s = emit Sti s
           in obind (Some (printf ''smp: cpu {d} started {n}'' [VWord (ucast (processor_id smp_info))] s)) (\<lambda>s.
              Some (Inl (Halted, emit Hlt s))))))"

text \<open>
  One round of the loop over the processors. \<open>irqs i\<close> are the timer interrupts during the
  \<open>i\<close>-th sleep; \<open>trampoline\<close> is the address of \<open>ap_trampoline\<close>.
\<close>

definition start_cpu :: "(nat \<Rightarrow> nat \<Rightarrow> nat) \<Rightarrow> u64 \<Rightarrow> nat \<Rightarrow> kernel \<Rightarrow> (failure + kernel) option" where
  "start_cpu irqs trampoline i s =
     obind (map_option Inr (apic_sleep (irqs i) 2 s)) (\<lambda>s.
     obind (Some (printf ''smp: starting cpu {dn}'' [VWord (of_nat i)] s)) (\<lambda>s.
     case smp_response s of
       None \<Rightarrow> Some (Inl (Null_deref, s))
     | Some cpus \<Rightarrow>
         if i < length cpus
         then Some (Inr (emit (Goto i trampoline) (s\<lparr>smp_response := Some (cpus[i := (cpus ! i)\<lparr>goto_address := trampoline\<rparr>])\<rparr>)))
         else Some (Inl (Out_of_bounds, s))))"

definition smp_init :: "(nat \<Rightarrow> nat \<Rightarrow> nat) \<Rightarrow> u64 \<Rightarrow> kernel \<Rightarrow> (failure + kernel) option" where
  "smp_init irqs trampoline s =
     (case smp_response s of
        None \<Rightarrow> Some (log_panic ''SMP request unfulfilled'' s)
      | Some cpus \<Rightarrow>
          if length cpus = 1
          then obind (Some (printf ''smp: single core processor, skipping smp initalization{n}'' [] s)) (\<lambda>s.
               Some (Inr (s\<lparr>state_single_processor := True\<rparr>)))
          else obind (Some (printf ''smp: cpu count: {dn}'' [VWord (of_nat (length cpus))] s)) (\<lambda>s.
               obind (foldO (start_cpu irqs trampoline) [0..<length cpus] s) (\<lambda>s.
               Some (printf ''smp: CPUs started{n}'' [] s))))"

section \<open>Starting the processors\<close>

lemma fits_smp:
  "fits ''smp: starting cpu {dn}'' [VWord a]" "fits ''smp: cpu count: {dn}'' [VWord a]"
  "fits ''smp: CPUs started{n}'' []" "fits ''smp: single core processor, skipping smp initalization{n}'' []"
  "fits ''smp: cpu {d} started {n}'' [VWord a]"
  by (simp_all add: fits_simps)

text \<open>
  The interrupts of one sleep: they keep coming, at most \<open>m\<close> between two tests of the loop. The
  sleep of two ticks then takes at least 2 and at most \<open>m + 1\<close> of them.
\<close>

definition ticking :: "nat \<Rightarrow> (nat \<Rightarrow> nat) \<Rightarrow> bool" where
  "ticking m irqs \<longleftrightarrow> (\<forall>i. \<exists>j \<ge> i. 0 < irqs j) \<and> (\<forall>i. irqs i \<le> m)"

lemma sleep_two:
  assumes "ticking m irqs" "m < 2 ^ 31" "unat (apic_timer_ticks s) < 2 ^ 31"
  shows "\<exists>d. apic_sleep irqs 2 s = Some ((apic_timer ^^ d) s) \<and> 2 \<le> d \<and> d \<le> m + 1"
proof -
  have "\<forall>i. irqs i < 2 ^ 32"
  proof
    fix i
    have "irqs i \<le> m" using assms(1) by (simp add: ticking_def)
    with assms(2) show "irqs i < 2 ^ 32" by simp
  qed
  moreover have two: "nat (sint (2 :: i32)) = 2" "0 \<le> sint (2 :: i32)" by simp_all
  ultimately obtain n where n: "apic_sleep irqs 2 s = Some ((apic_timer ^^ arrived irqs n) s)"
    "2 \<le> arrived irqs n" "\<forall>i < n. arrived irqs i < 2"
    using apic_sleep_result [OF assms(3) two(2), of irqs] assms(1) unfolding ticking_def two(1) by blast
  have "arrived irqs n \<le> m + 1"
  proof (cases n)
    case (Suc k)
    then have "arrived irqs k < 2" "irqs k \<le> m" using n(3) assms(1) by (auto simp: ticking_def)
    then show ?thesis by (simp add: Suc)
  qed simp
  with n show ?thesis by blast
qed

text \<open>The state after \<open>d\<close> interrupts, the accesses \<open>h\<close>, and the start of the first \<open>n\<close> processors.\<close>

definition started :: "u64 \<Rightarrow> nat \<Rightarrow> limine_smp_info list \<Rightarrow> limine_smp_info list" where
  "started trampoline n cpus =
     map (\<lambda>c. c\<lparr>goto_address := trampoline\<rparr>) (take n cpus) @ drop n cpus"

lemma started_Suc:
  "n < length cpus \<Longrightarrow>
   (started a n cpus)[n := (started a n cpus ! n)\<lparr>goto_address := a\<rparr>] = started a (Suc n) cpus"
  by (simp add: started_def take_Suc_conv_app_nth nth_append list_update_append flip: Cons_nth_drop_Suc)

lemma length_started [simp]: "length (started a n cpus) = length cpus"
  by (simp add: started_def)

definition smp_state :: "kernel \<Rightarrow> string list \<Rightarrow> nat \<Rightarrow> io_event list \<Rightarrow> limine_smp_info list \<Rightarrow> kernel" where
  "smp_state s cs d h cpus =
     s\<lparr>console := cs, apic_timer_ticks := apic_timer_ticks s + of_nat d, io := io s @ h, smp_response := Some cpus\<rparr>"

lemma smp_state_timers:
  "(apic_timer ^^ e) (smp_state s cs d h cpus) = smp_state s cs (d + e) (h @ replicate e (eoi_event s)) cpus"
  by (simp add: apic_timers smp_state_def eoi_event_def algebra_simps)

lemma smp_state_console [simp]: "(smp_state s cs d h cpus)\<lparr>console := c\<rparr> = smp_state s c d h cpus"
  by (simp add: smp_state_def)

lemma smp_state_goto:
  "emit e (smp_state s cs d h cpus\<lparr>smp_response := Some cpus'\<rparr>) = smp_state s cs d (h @ [e]) cpus'"
  by (simp add: smp_state_def emit_def)

lemma start_cpu_ok:
  assumes "ticking m (irqs i)" "m < 2 ^ 31" "unat (apic_timer_ticks s) + d < 2 ^ 31" "i < length cpus"
  shows "\<exists>e cs'. start_cpu irqs a i (smp_state s cs d h (started a i cpus)) =
      Some (Inr (smp_state s cs' (d + e) (h @ replicate e (eoi_event s) @ [Goto i a]) (started a (Suc i) cpus))) \<and> 2 \<le> e \<and> e \<le> m + 1"
proof -
  let ?s = "smp_state s cs d h (started a i cpus)"
  have "unat (apic_timer_ticks s + of_nat d) = unat (apic_timer_ticks s) + d"
    using assms(3) by (intro unat_add_of_nat) simp
  then have "unat (apic_timer_ticks ?s) < 2 ^ 31" using assms(3) by (simp add: smp_state_def)
  from sleep_two [OF assms(1,2) this] obtain e where
    e: "apic_sleep (irqs i) 2 ?s = Some (smp_state s cs (d + e) (h @ replicate e (eoi_event s)) (started a i cpus))" "2 \<le> e" "e \<le> m + 1"
    unfolding smp_state_timers by blast
  let ?c = "cs @ printed ''smp: starting cpu {dn}'' [VWord (of_nat i)]"
  have v: "console (smp_state s c k g cpus') = c" "smp_response (smp_state s c k g cpus') = Some cpus'" for c k g cpus'
    by (simp_all add: smp_state_def)
  have "start_cpu irqs a i ?s =
      Some (Inr (smp_state s ?c (d + e) (h @ replicate e (eoi_event s) @ [Goto i a]) (started a (Suc i) cpus)))"
    using assms(4) by (simp add: start_cpu_def e(1) printf_fits fits_smp smp_state_goto started_Suc v)
  then show ?thesis using e by blast
qed

text \<open>The accesses of the loop: the interrupts of each sleep, then the start of that processor.\<close>

definition start_events :: "io_event \<Rightarrow> u64 \<Rightarrow> nat list \<Rightarrow> io_event list" where
  "start_events eoi a ds = concat (map (\<lambda>i. replicate (ds ! i) eoi @ [Goto i a]) [0..<length ds])"

lemma start_events_snoc:
  "start_events eoi a (ds @ [d]) = start_events eoi a ds @ replicate d eoi @ [Goto (length ds) a]"
proof -
  let ?f = "\<lambda>ds i. replicate (ds ! i) eoi @ [Goto i a]"
  have "start_events eoi a (ds @ [d]) = concat (map (?f (ds @ [d])) [0..<length ds]) @ ?f (ds @ [d]) (length ds)"
    by (simp add: start_events_def)
  also have "map (?f (ds @ [d])) [0..<length ds] = map (?f ds) [0..<length ds]"
    by (intro map_cong refl) (simp add: nth_append)
  finally show ?thesis by (simp add: start_events_def)
qed

lemma start_cpus:
  assumes "\<forall>i < n. ticking m (irqs i)" "m < 2 ^ 31" "unat (apic_timer_ticks s) + (m + 1) * n < 2 ^ 31" "n \<le> length cpus"
  shows "\<exists>ds cs'. foldO (start_cpu irqs a) [0..<n] (smp_state s cs 0 [] (started a 0 cpus)) =
      Some (Inr (smp_state s cs' (sum_list ds) (start_events (eoi_event s) a ds) (started a n cpus))) \<and>
    length ds = n \<and> (\<forall>d \<in> set ds. 2 \<le> d \<and> d \<le> m + 1)"
  using assms
proof (induction n)
  case 0
  then show ?case by (intro exI [of _ "[]"] exI [of _ cs]) (simp add: start_events_def)
next
  case (Suc n)
  then have "unat (apic_timer_ticks s) + (m + 1) * n < 2 ^ 31" by simp
  with Suc obtain ds cs' where d: "foldO (start_cpu irqs a) [0..<n] (smp_state s cs 0 [] (started a 0 cpus)) =
      Some (Inr (smp_state s cs' (sum_list ds) (start_events (eoi_event s) a ds) (started a n cpus)))"
      "length ds = n" "\<forall>d \<in> set ds. 2 \<le> d \<and> d \<le> m + 1" by auto
  have "sum_list ds \<le> (m + 1) * n"
    using sum_list_mono [of ds "\<lambda>d. d" "\<lambda>_. m + 1"] d(2,3) by (simp add: sum_list_triv algebra_simps)
  then have "unat (apic_timer_ticks s) + sum_list ds < 2 ^ 31" using Suc.prems(3) by simp
  moreover have "ticking m (irqs n)" "n < length cpus" using Suc.prems by simp_all
  ultimately obtain e cs'' where e: "start_cpu irqs a n (smp_state s cs' (sum_list ds) (start_events (eoi_event s) a ds) (started a n cpus)) =
      Some (Inr (smp_state s cs'' (sum_list ds + e) (start_events (eoi_event s) a ds @ replicate e (eoi_event s) @ [Goto n a]) (started a (Suc n) cpus)))"
      "2 \<le> e" "e \<le> m + 1"
    using start_cpu_ok Suc.prems(2) by blast
  have "foldO (start_cpu irqs a) [0..<Suc n] (smp_state s cs 0 [] (started a 0 cpus)) =
      Some (Inr (smp_state s cs'' (sum_list (ds @ [e])) (start_events (eoi_event s) a (ds @ [e])) (started a (Suc n) cpus)))"
    by (simp add: foldO_append d(1,2) e(1) start_events_snoc)
  then show ?case using d(2,3) e(2,3) by (intro exI [of _ "ds @ [e]"] exI [of _ cs'']) auto
qed

definition cpu_count :: "kernel \<Rightarrow> nat" where
  "cpu_count s = (case smp_response s of None \<Rightarrow> 0 | Some cpus \<Rightarrow> length cpus)"

lemma smp_init_result:
  assumes "\<forall>i < cpu_count s. ticking m (irqs i)" "m < 2 ^ 31"
    and "unat (apic_timer_ticks s) + (m + 1) * cpu_count s < 2 ^ 31"
  shows "case smp_response s of
      None \<Rightarrow> \<exists>t. smp_init irqs trampoline s = Some (Inl (Halted, t))
    | Some cpus \<Rightarrow>
        if length cpus = 1 then \<exists>cs. smp_init irqs trampoline s = Some (Inr (s\<lparr>console := cs, state_single_processor := True\<rparr>))
        else \<exists>ds cs. length ds = length cpus \<and> (\<forall>d \<in> set ds. 2 \<le> d \<and> d \<le> m + 1) \<and>
          smp_init irqs trampoline s = Some (Inr (s\<lparr>console := cs, apic_timer_ticks := apic_timer_ticks s + of_nat (sum_list ds),
            io := io s @ start_events (eoi_event s) trampoline ds,
            smp_response := Some (map (\<lambda>c. c\<lparr>goto_address := trampoline\<rparr>) cpus)\<rparr>))"
proof (cases "smp_response s")
  case None
  then show ?thesis using log_panic_Inl [of "''SMP request unfulfilled''" s] by (auto simp: smp_init_def cli_hlt_def)
next
  case (Some cpus)
  show ?thesis
  proof (cases "length cpus = 1")
    case True
    then show ?thesis by (auto simp: smp_init_def Some printf_fits fits_smp)
  next
    case False
    have n: "cpu_count s = length cpus" by (simp add: cpu_count_def Some)
    let ?f = "''smp: cpu count: {dn}''" and ?w = "[VWord (of_nat (length cpus))]"
    have s0: "s\<lparr>console := c\<rparr> = smp_state s c 0 [] (started trampoline 0 cpus)" for c
      using Some by (simp add: smp_state_def started_def)
    obtain ds cs where d: "foldO (start_cpu irqs trampoline) [0..<length cpus] (s\<lparr>console := console s @ printed ?f ?w\<rparr>) =
        Some (Inr (smp_state s cs (sum_list ds) (start_events (eoi_event s) trampoline ds) (started trampoline (length cpus) cpus)))"
        "length ds = length cpus" "\<forall>d \<in> set ds. 2 \<le> d \<and> d \<le> m + 1"
      using start_cpus [of "length cpus" m irqs s cpus] assms unfolding n s0 by blast
    have "\<exists>cs. smp_init irqs trampoline s =
        Some (Inr (smp_state s cs (sum_list ds) (start_events (eoi_event s) trampoline ds) (started trampoline (length cpus) cpus)))"
      using False by (simp add: smp_init_def Some printf_fits fits_smp d(1)) blast
    then show ?thesis
      using False d(2,3) unfolding Some smp_state_def started_def
      by (simp only: option.case if_False take_all drop_all order_refl append_Nil2) blast
  qed
qed

section \<open>Bringing a processor up\<close>

lemma pm_rounds: "\<exists>evs. (pm_round d port ^^ k) h = h @ evs \<and> (\<forall>e \<in> set evs. \<exists>v. e = InL port v)"
proof (induction k)
  case (Suc k)
  then obtain evs where e: "(pm_round d port ^^ k) h = h @ evs" "\<forall>e \<in> set evs. \<exists>v. e = InL port v" by blast
  then show ?case
    by (intro exI [of _ "evs @ [InL port (dev_inl d (h @ evs) port)]"]) (auto simp: pm_round_def [of d port "h @ evs"])
qed simp

text \<open>The tables an application processor loads, and the enabling of its local APIC.\<close>

definition ap_loads :: "u64 \<Rightarrow> kernel \<Rightarrow> io_event list" where
  "ap_loads gdt_addr s =
     (let c = pml4addr s - hhdmoffset s
      in [Cli, Lgdt 55 gdt_addr, Load_Segments 0x10 0x08, Ltr 0x28, Lidt (idtr_limit (idtpr s)) (idtr_base (idtpr s)), Sti, LoadCr3 c, LoadCr3 c])"

definition ap_enables :: "u32 \<Rightarrow> kernel \<Rightarrow> io_event list" where
  "ap_enables sv s =
     (let la = ucast (lapic_addr s) in [Mmio_Read (la + 0xF0) sv, lapic_write (hhdmoffset s) la 0xF0 (sv OR 0x100)])"

lemma init_apic_ap_eq:
  "\<exists>sv. init_apic_ap u = calibrate_timer (madt u) (u\<lparr>io := io u @ ap_enables sv u\<rparr>)"
  by (auto simp: init_apic_ap_def apic_read_def mmio_read_def apic_write_def emit_def LAPIC_SIVR_REG_def
      ap_enables_def lapic_write_def Let_def)

text \<open>The table \<open>gdt_init\<close> builds: the segments, the task state, and the last entry as it was.\<close>

definition segment_table :: "u64 \<Rightarrow> gdtdesc list \<Rightarrow> gdtdesc list \<Rightarrow> bool" where
  "segment_table tss_addr old g \<longleftrightarrow>
     map descriptor_word (take 5 g) = [0, 0x00AF9A000000FFFF, 0x00AF92000000FFFF, 0x00AFFA000000FFFF, 0x00AFF2000000FFFF] \<and>
     drop 5 g = [gdt_entry tss_addr sizeof_tssdesc 0x89 0, old ! 6]"

lemma ap_trampoline_unfold:
  assumes "length (gdt s) = 7" "smp_lapic_id info \<noteq> 0"
  shows "\<exists>g sv. segment_table tss_addr (gdt s) g \<and> ap_trampoline gdt_addr tss_addr info s =
    obind (calibrate_timer (madt s) (s\<lparr>phys := phys (snd (memset tss_addr 0 sizeof_tssdesc s)), gdt := g,
        gdtr := \<lparr>gdtr_limit_low = 55, gdtr_base = gdt_addr\<rparr>,
        cr3 := pml4addr s - hhdmoffset s, io := io s @ ap_loads gdt_addr s @ ap_enables sv s\<rparr>)) (\<lambda>s.
      obind (Some (printf ''smp: cpu {d} started {n}'' [VWord (ucast (processor_id info))] (emit Sti s))) (\<lambda>s.
      Some (Inl (Halted, emit Hlt s))))"
proof -
  let ?m = "phys (snd (memset tss_addr 0 sizeof_tssdesc s))"
  have m: "phys (snd (memset tss_addr 0 sizeof_tssdesc (emit Cli s))) = ?m"
    by (simp add: memset_def memset_loop_phys emit_def cong: if_cong)
  have "length (gdt (emit Cli s)) = 7" using assms(1) by (simp add: emit_def)
  from gdt_init_ok [OF this, of gdt_addr tss_addr] obtain t where
    t: "gdt_init gdt_addr tss_addr (emit Cli s) = Inr t" "io t = io s @ [Cli, Lgdt 55 gdt_addr, Load_Segments 0x10 0x08, Ltr 0x28]"
      "t = (emit Cli s)\<lparr>phys := ?m, gdt := gdt t, gdtr := gdtr t, io := io t\<rparr>"
      "gdtr t = \<lparr>gdtr_limit_low = 55, gdtr_base = gdt_addr\<rparr>" "segment_table tss_addr (gdt s) (gdt t)"
    unfolding m by (auto simp: emit_def segment_table_def segment_words)
  let ?u = "s\<lparr>phys := ?m, gdt := gdt t, gdtr := gdtr t, cr3 := pml4addr s - hhdmoffset s, io := io s @ ap_loads gdt_addr s\<rparr>"
  have s: "t = s\<lparr>phys := ?m, gdt := gdt t, gdtr := gdtr t, io := io s @ [Cli, Lgdt 55 gdt_addr, Load_Segments 0x10 0x08, Ltr 0x28]\<rparr>"
    by (subst t(3)) (simp add: emit_def t(2))
  have "reload_cr3 (vmm_set_ctx (pml4addr (idt_load t)) (idt_load t)) = ?u"
    by (subst s, subst s) (simp add: reload_cr3_def vmm_set_ctx_def idt_load_def emit_def Let_def ap_loads_def)
  moreover obtain sv where "init_apic_ap ?u = calibrate_timer (madt ?u) (?u\<lparr>io := io ?u @ ap_enables sv ?u\<rparr>)"
    using init_apic_ap_eq by blast
  moreover have "?u\<lparr>io := io ?u @ ap_enables sv ?u\<rparr> =
      s\<lparr>phys := ?m, gdt := gdt t, gdtr := gdtr t, cr3 := pml4addr s - hhdmoffset s, io := io s @ ap_loads gdt_addr s @ ap_enables sv s\<rparr>" for sv
    by (simp add: ap_enables_def)
  ultimately show ?thesis
    using assms(2) t(5) unfolding t(4) by (auto simp: ap_trampoline_def t(1) Let_def)
qed

section \<open>Properties\<close>

text \<open>
  C35. smp_init ends when timer interrupts keep arriving during its sleeps, fewer than 2^31 between
  two tests of a sleep, and the tick counter, with all of them counted, stays below 2^31. With
  several processors it then gives every one of them, in the order of the boot loader's list, the
  address of the trampoline, each after a sleep of its own in which at least two timer interrupts
  have been acknowledged; with one processor it only records that; without an answer from the boot
  loader it halts the machine.
\<close>

theorem smp_init_starts_all:
  assumes "\<forall>i < cpu_count s. ticking m (irqs i)" "m < 2 ^ 31"
    and "unat (apic_timer_ticks s) + (m + 1) * cpu_count s < 2 ^ 31"
  shows "case smp_response s of
      None \<Rightarrow> \<exists>t. smp_init irqs trampoline s = Some (Inl (Halted, t))
    | Some cpus \<Rightarrow>
        if length cpus = 1 then \<exists>cs. smp_init irqs trampoline s = Some (Inr (s\<lparr>console := cs, state_single_processor := True\<rparr>))
        else \<exists>ds cs. length ds = length cpus \<and> (\<forall>d \<in> set ds. 2 \<le> d \<and> d \<le> m + 1) \<and>
          smp_init irqs trampoline s = Some (Inr (s\<lparr>console := cs, apic_timer_ticks := apic_timer_ticks s + of_nat (sum_list ds),
            io := io s @ start_events (eoi_event s) trampoline ds,
            smp_response := Some (map (\<lambda>c. c\<lparr>goto_address := trampoline\<rparr>) cpus)\<rparr>))"
  by (rule smp_init_result [OF assms])

definition two_cpus :: kernel where
  "two_cpus = quiet_kernel\<lparr>smp_response := Some
     [\<lparr>processor_id = 0, smp_lapic_id = 0, goto_address = 0\<rparr>, \<lparr>processor_id = 1, smp_lapic_id = 1, goto_address = 0\<rparr>]\<rparr>"

lemma smp_init_starts_all_witness:
  "\<exists>t cpus. smp_init (\<lambda>_ _. 1) 0xffffffff80001000 two_cpus = Some (Inr t) \<and> smp_response t = Some cpus \<and>
     goto_address (cpus ! 1) = 0xffffffff80001000"
proof -
  have n: "cpu_count two_cpus = 2" "apic_timer_ticks two_cpus = 0"
    by (simp_all add: cpu_count_def two_cpus_def quiet_kernel_def initial_kernel_def)
  have "\<forall>i < cpu_count two_cpus. ticking 1 ((\<lambda>_ _. 1) i)" by (auto simp: ticking_def)
  from smp_init_starts_all [OF this, of "0xffffffff80001000"] n show ?thesis
    by (auto simp: two_cpus_def)
qed

lemma calibrate_timer_events:
  assumes "fadt_PMTimerLength u (fadt u) = 4" and la: "la = ucast (madt_lapicaddr u madt_addr)"
    and "off = hhdmoffset u"
  shows "case calibrate_timer madt_addr u of
      None \<Rightarrow> \<forall>k. pm_elapsed (timer_started off la u) k < pm_target 50000
    | Some r \<Rightarrow> \<exists>evs c. r = Inr (u\<lparr>lapic_address := la,
          io := io u @ [lapic_write off la 0x3E0 3, lapic_write off la 0x380 0xFFFFFFFF] @ evs @ calibrated_events off la c\<rparr>) \<and>
        (\<forall>e \<in> set evs. \<exists>x. e = InL (pm_port u) x)"
proof (cases "calibrate_timer madt_addr u")
  case None
  then show ?thesis using calibrate_timer_result [OF assms] by simp
next
  case (Some r)
  then obtain k c where "r = Inr (u\<lparr>lapic_address := la,
      io := (pm_round (dev u) (pm_port u) ^^ Suc k) (io (timer_started off la u)) @ calibrated_events off la c\<rparr>)"
    using calibrate_timer_result [OF assms] by auto
  moreover obtain evs where "(pm_round (dev u) (pm_port u) ^^ Suc k) (io (timer_started off la u)) = io (timer_started off la u) @ evs"
    "\<forall>e \<in> set evs. \<exists>v. e = InL (pm_port u) v"
    using pm_rounds by blast
  moreover have "io (timer_started off la u) = io u @ [lapic_write off la 0x3E0 3, lapic_write off la 0x380 0xFFFFFFFF]"
    by (simp add: timer_started_def)
  ultimately show ?thesis using Some by auto
qed

text \<open>
  C36. The trampoline returns at once, having done nothing, on the boot processor. On any other
  processor it loads the kernel's descriptor tables and page tables, in this order, enables the
  processor's local APIC, starts its timer in periodic mode, announces itself, and stays halted with
  interrupts on. Of the state that the processors share it rewrites the task state, which is
  cleared, the descriptor table, its register image and the address of the local APIC, and nothing
  else. Interrupts are on from the load of the interrupt table, before the page tables are loaded.
  The one loop that may not end is the wait for the power-management timer, which has 32 bits.
\<close>

theorem ap_trampoline_brings_up:
  fixes s :: kernel and tss_addr :: u64
  assumes "length (gdt s) = 7"
  defines "a \<equiv> s\<lparr>phys := phys (snd (memset tss_addr 0 sizeof_tssdesc s))\<rparr>" and "off \<equiv> hhdmoffset s"
  assumes "fadt_PMTimerLength a (fadt s) = 4"
  defines "la \<equiv> ucast (madt_lapicaddr a (madt s))"
  shows "if smp_lapic_id info = 0 then ap_trampoline gdt_addr tss_addr info s = Some (Inr s)
    else \<exists>sv. let h = io s @ ap_loads gdt_addr s @ ap_enables sv s in
      (case ap_trampoline gdt_addr tss_addr info s of
        None \<Rightarrow> \<forall>k. pm_elapsed (timer_started off la (a\<lparr>io := h\<rparr>)) k < pm_target 50000
      | Some r \<Rightarrow> \<exists>g evs c. segment_table tss_addr (gdt s) g \<and> (\<forall>e \<in> set evs. \<exists>x. e = InL (pm_port a) x) \<and>
          r = Inl (Halted, a\<lparr>gdt := g, gdtr := \<lparr>gdtr_limit_low = 55, gdtr_base = gdt_addr\<rparr>,
            cr3 := pml4addr s - hhdmoffset s, lapic_address := la,
            console := console s @ printed ''smp: cpu {d} started {n}'' [VWord (ucast (processor_id info))],
            io := h @ [lapic_write off la 0x3E0 3, lapic_write off la 0x380 0xFFFFFFFF] @ evs @
              calibrated_events off la c @ [Sti, Hlt]\<rparr>))"
proof (cases "smp_lapic_id info = 0")
  case True
  then show ?thesis by (simp add: ap_trampoline_def)
next
  case False
  then obtain g sv where g: "segment_table tss_addr (gdt s) g" and eq: "ap_trampoline gdt_addr tss_addr info s =
    obind (calibrate_timer (madt s) (a\<lparr>gdt := g, gdtr := \<lparr>gdtr_limit_low = 55, gdtr_base = gdt_addr\<rparr>,
        cr3 := pml4addr s - hhdmoffset s, io := io s @ ap_loads gdt_addr s @ ap_enables sv s\<rparr>)) (\<lambda>s.
      obind (Some (printf ''smp: cpu {d} started {n}'' [VWord (ucast (processor_id info))] (emit Sti s))) (\<lambda>s.
      Some (Inl (Halted, emit Hlt s))))"
    using ap_trampoline_unfold [OF assms(1)] unfolding a_def by auto blast
  define u where "u = a\<lparr>gdt := g, gdtr := \<lparr>gdtr_limit_low = 55, gdtr_base = gdt_addr\<rparr>, cr3 := pml4addr s - hhdmoffset s,
    io := io s @ ap_loads gdt_addr s @ ap_enables sv s\<rparr>"
  have rd: "rd8 u = rd8 a" "rd8 (a\<lparr>io := h\<rparr>) = rd8 a" "rd8 (timer_started off la x) = rd8 x" for x h
    by (simp_all add: u_def a_def timer_started_def rd8_def fun_eq_iff)
  have u: "fadt_PMTimerLength u (fadt u) = 4" "la = ucast (madt_lapicaddr u (madt s))" "off = hhdmoffset u"
    "dev u = dev s" "pm_port u = pm_port a"
    using assms(4) by (simp_all add: rd off_def la_def fadt_PMTimerLength_at madt_lapicaddr_at rd32_def
        pm_port_def fadt_PMTimerBlock_at) (simp_all add: u_def a_def)
  have el: "pm_elapsed (timer_started off la u) k = pm_elapsed (timer_started off la (a\<lparr>io := io u\<rparr>)) k" for k
    by (simp add: pm_elapsed_def rd pm_port_def fadt_PMTimerBlock_at rd32_def) (simp add: timer_started_def u_def a_def)
  show ?thesis
  proof (cases "calibrate_timer (madt s) u")
    case None
    then show ?thesis
      using False calibrate_timer_events [OF u(1-3)] unfolding eq u_def [symmetric] el by (auto simp: u_def Let_def)
  next
    case (Some r)
    then obtain evs c where r: "r = Inr (u\<lparr>lapic_address := la,
          io := io u @ [lapic_write off la 0x3E0 3, lapic_write off la 0x380 0xFFFFFFFF] @ evs @ calibrated_events off la c\<rparr>)"
        "\<forall>e \<in> set evs. \<exists>x. e = InL (pm_port a) x"
      using calibrate_timer_events [OF u(1-3)] unfolding u(5) by auto
    have "console u = console s" by (simp add: u_def a_def)
    with False g Some r show ?thesis
      unfolding eq u_def [symmetric] Some r(1) Let_def
      by (intro if_not_P [THEN iffD2] exI [of _ sv]) (auto simp: printf_fits [OF fits_smp(5)] emit_def u_def intro!: exI [of _ g] exI [of _ evs] exI [of _ c])
  qed
qed

lemma ap_trampoline_brings_up_witness:
  "\<exists>v. ap_trampoline 0x2000 0x1000 \<lparr>processor_id = 1, smp_lapic_id = 1, goto_address = 0\<rparr> pm_machine = Some (Inl (Halted, v)) \<and>
     io v ! 1 = Lgdt 55 0x2000 \<and> last (io v) = Hlt"
proof -
  let ?a = "pm_machine\<lparr>phys := phys (snd (memset 0x1000 0 sizeof_tssdesc pm_machine))\<rparr>"
  have g: "length (gdt pm_machine) = 7" "fadt pm_machine = 0"
    by (simp_all add: pm_machine_def quiet_kernel_def initial_kernel_def)
  have "(0x1000 :: u64) + of_nat k \<noteq> 91" if "k < 104" for k
  proof
    assume eq: "(0x1000 :: u64) + of_nat k = 91"
    have "unat ((0x1000 :: u64) + of_nat k) = 4096 + k" using unat_add_of_nat [of "0x1000" k] that by simp
    then show False unfolding eq by simp
  qed
  then have "\<not> (\<exists>k < 104. (0x1000 :: u64) + of_nat k = 91)" by blast
  then have f: "fadt_PMTimerLength ?a (fadt pm_machine) = 4"
    unfolding g(2) fadt_PMTimerLength_at rd8_def memset_def sizeof_tssdesc_at
    by (simp add: memset_loop_phys pm_machine_def)
  have "\<not> pm_elapsed (timer_started off la (?a\<lparr>io := h\<rparr>)) 1 < pm_target 50000" for off la h
    by (rule pm_machine_ends) (simp add: timer_started_def)
  then have never: "\<not> (\<forall>k. pm_elapsed (timer_started off la (?a\<lparr>io := h\<rparr>)) k < pm_target 50000)" for off la h by blast
  have "io pm_machine = []" by (simp add: pm_machine_def)
  then show ?thesis
    using ap_trampoline_brings_up [OF g(1) f, of "\<lparr>processor_id = 1, smp_lapic_id = 1, goto_address = 0\<rparr>" "0x2000"]
    by (auto simp: Let_def ap_loads_def never split: option.splits)
qed

end
