(* ===== verification/Ticks.thy ===== *)
theory Ticks
  imports Lapic
begin

text \<open>
  \<open>apic_timer\<close> of \<open>kern/sys/acpi/apic.c\<close> on several processors. Every processor's local APIC
  delivers the timer interrupt, and all of them count in the one global \<open>apic_timer_ticks\<close>, which
  is neither locked nor atomic: the statement \<open>apic_timer_ticks++\<close> is a load and a store, between
  which the other processors run.
\<close>

section \<open>The handler in steps\<close>

text \<open>Where a processor is: outside the handler, between load and store, before the end of interrupt.\<close>

datatype tick_pc = Outside | Loaded u64 | Stored

type_synonym tick_state = "kernel \<times> tick_pc list"

inductive tick_step :: "tick_state \<Rightarrow> nat \<Rightarrow> tick_state \<Rightarrow> bool" where
  load: "i < length ps \<Longrightarrow> ps ! i = Outside \<Longrightarrow>
    tick_step (s, ps) i (s, ps[i := Loaded (apic_timer_ticks s)])"
| store: "i < length ps \<Longrightarrow> ps ! i = Loaded v \<Longrightarrow>
    tick_step (s, ps) i (s\<lparr>apic_timer_ticks := v + 1\<rparr>, ps[i := Stored])"
| ack: "i < length ps \<Longrightarrow> ps ! i = Stored \<Longrightarrow>
    tick_step (s, ps) i (apic_eoi s, ps[i := Outside])"

inductive tick_run :: "tick_state \<Rightarrow> nat list \<Rightarrow> tick_state \<Rightarrow> bool" where
  tick_nil: "tick_run x [] x"
| tick_snoc: "tick_run x is y \<Longrightarrow> tick_step y i z \<Longrightarrow> tick_run x (is @ [i]) z"

inductive_cases tick_stepE: "tick_step (s, ps) i z"

lemma tick_run_append: "tick_run y js z \<Longrightarrow> tick_run x is y \<Longrightarrow> tick_run x (is @ js) z"
proof (induction rule: tick_run.induct)
  case (tick_snoc y js z j w)
  then show ?case using tick_run.tick_snoc [of x "is @ js" z j w] by simp
qed simp

lemma tick_one: "tick_step x i y \<Longrightarrow> tick_run x [i] y"
  using tick_snoc [OF tick_nil] by fastforce

text \<open>Undisturbed, the three steps are the handler.\<close>

lemma tick_alone:
  assumes "i < length ps" "ps ! i = Outside"
  shows "tick_run (s, ps) [i, i, i] (apic_timer s, ps)"
proof -
  let ?v = "apic_timer_ticks s"
  have same: "ps[i := Outside] = ps" using assms by (metis list_update_id)
  have "tick_run (s, ps) [i] (s, ps[i := Loaded ?v])" using load [OF assms] by (rule tick_one)
  moreover have "tick_run (s, ps[i := Loaded ?v]) [i] (s\<lparr>apic_timer_ticks := ?v + 1\<rparr>, ps[i := Stored])"
    using store [of i "ps[i := Loaded ?v]" ?v s] assms(1) by (intro tick_one) simp
  moreover have "tick_run (s\<lparr>apic_timer_ticks := ?v + 1\<rparr>, ps[i := Stored]) [i] (apic_timer s, ps)"
    using ack [of i "ps[i := Stored]" "s\<lparr>apic_timer_ticks := ?v + 1\<rparr>"] assms
    by (intro tick_one) (simp add: apic_timer_def same)
  ultimately have "tick_run (s, ps) ([i] @ [i] @ [i]) (apic_timer s, ps)" by (blast intro: tick_run_append)
  then show ?thesis by simp
qed

lemma ticks_alone:
  "i < length ps \<Longrightarrow> ps ! i = Outside \<Longrightarrow>
    \<exists>is. length is = 3 * n \<and> set is \<subseteq> {i} \<and> tick_run (s, ps) is ((apic_timer ^^ n) s, ps)"
proof (induction n)
  case 0
  then show ?case by (intro exI [of _ "[]"]) (simp add: tick_nil)
next
  case (Suc n)
  then obtain "is" where "length is = 3 * n" "set is \<subseteq> {i}" "tick_run (s, ps) is ((apic_timer ^^ n) s, ps)" by blast
  moreover have "tick_run ((apic_timer ^^ n) s, ps) [i, i, i] ((apic_timer ^^ Suc n) s, ps)"
    using tick_alone [OF Suc.prems] by simp
  ultimately show ?case using tick_run_append by (intro exI [of _ "is @ [i, i, i]"]) auto
qed

section \<open>What an interleaving can do\<close>

text \<open>The steps a processor is into the handler, and the stores not yet acknowledged.\<close>

fun progress :: "tick_pc \<Rightarrow> nat" where
  "progress Outside = 0"
| "progress (Loaded v) = 1"
| "progress Stored = 2"

definition stores :: "tick_pc \<Rightarrow> nat" where
  "stores p = (if p = Stored then 1 else 0)"

lemma sum_list_update_nat:
  "i < length xs \<Longrightarrow> sum_list (map (f :: 'a \<Rightarrow> nat) (xs[i := y])) + f (xs ! i) = sum_list (map f xs) + f y"
proof (induction xs arbitrary: i)
  case (Cons x xs)
  then show ?case by (cases i) (auto simp: algebra_simps)
qed simp

text \<open>
  After \<open>n\<close> acknowledged interrupts the counter has grown by one at least, if there was a store, and
  by the number of stores at most; what a processor has loaded lies in the same range.
\<close>

definition counted :: "kernel \<Rightarrow> nat \<Rightarrow> u64 \<Rightarrow> bool" where
  "counted s m v \<longleftrightarrow> (\<exists>j \<le> m. v = apic_timer_ticks s + of_nat j)"

definition tick_reached :: "kernel \<Rightarrow> nat \<Rightarrow> nat \<Rightarrow> kernel \<Rightarrow> bool" where
  "tick_reached s n m t \<longleftrightarrow> (\<exists>k. k \<le> m \<and> (0 < m \<longrightarrow> 0 < k) \<and>
     t = s\<lparr>apic_timer_ticks := apic_timer_ticks s + of_nat k, io := io s @ replicate n (eoi_event s)\<rparr>)"

definition tick_inv :: "kernel \<Rightarrow> nat \<Rightarrow> kernel \<Rightarrow> tick_pc list \<Rightarrow> bool" where
  "tick_inv s n t ps \<longleftrightarrow>
     tick_reached s n (n + sum_list (map stores ps)) t \<and>
     (\<forall>v. Loaded v \<in> set ps \<longrightarrow> counted s (n + sum_list (map stores ps)) v)"

lemma tick_reached_0: "tick_reached s 0 0 s"
  by (simp add: tick_reached_def)

lemma tick_reached_counted:
  assumes "tick_reached s n m t"
  shows "counted s m (apic_timer_ticks t)"
proof -
  obtain k where k: "k \<le> m" "t = s\<lparr>apic_timer_ticks := apic_timer_ticks s + of_nat k, io := io s @ replicate n (eoi_event s)\<rparr>"
    using assms unfolding tick_reached_def by blast
  have "apic_timer_ticks t = apic_timer_ticks s + of_nat k" by (subst k(2)) simp
  then show ?thesis using k(1) by (auto simp: counted_def)
qed

lemma tick_reached_store:
  assumes "tick_reached s n m t" "counted s m v"
  shows "tick_reached s n (Suc m) (t\<lparr>apic_timer_ticks := v + 1\<rparr>)"
proof -
  obtain k where k: "t = s\<lparr>apic_timer_ticks := apic_timer_ticks s + of_nat k, io := io s @ replicate n (eoi_event s)\<rparr>"
    using assms(1) unfolding tick_reached_def by blast
  obtain j where j: "j \<le> m" "v = apic_timer_ticks s + of_nat j" using assms(2) by (auto simp: counted_def)
  have "t\<lparr>apic_timer_ticks := v + 1\<rparr> =
      s\<lparr>apic_timer_ticks := apic_timer_ticks s + of_nat (Suc j), io := io s @ replicate n (eoi_event s)\<rparr>"
    by (subst k) (simp add: j(2))
  then show ?thesis unfolding tick_reached_def using j(1) by (intro exI [of _ "Suc j"]) simp
qed

lemma tick_reached_ack:
  assumes "tick_reached s n m t"
  shows "tick_reached s (Suc n) m (apic_eoi t)"
proof -
  obtain k where k: "k \<le> m" "0 < m \<longrightarrow> 0 < k"
    "t = s\<lparr>apic_timer_ticks := apic_timer_ticks s + of_nat k, io := io s @ replicate n (eoi_event s)\<rparr>"
    using assms unfolding tick_reached_def by blast
  have "apic_eoi t = s\<lparr>apic_timer_ticks := apic_timer_ticks s + of_nat k, io := io s @ replicate (Suc n) (eoi_event s)\<rparr>"
    unfolding k(3) apic_eoi_emit emit_def by (simp add: eoi_event_def replicate_append_same)
  with k(1,2) show ?thesis unfolding tick_reached_def by blast
qed

lemma Loaded_update: "Loaded v \<in> set (ps[i := x]) \<Longrightarrow> Loaded v = x \<or> Loaded v \<in> set ps"
  using set_update_subset_insert [of ps i x] by blast

lemma counted_Suc: "counted s m v \<Longrightarrow> counted s (Suc m) v"
  unfolding counted_def using le_SucI by blast

lemma tick_inv_load:
  assumes "tick_inv s n t ps" "i < length ps" "ps ! i = Outside"
  shows "tick_inv s n t (ps[i := Loaded (apic_timer_ticks t)])"
proof -
  have "sum_list (map stores (ps[i := Loaded (apic_timer_ticks t)])) = sum_list (map stores ps)"
    using sum_list_update_nat [of i ps stores "Loaded (apic_timer_ticks t)"] assms(2,3) by (simp add: stores_def)
  then show ?thesis
    using assms(1) tick_reached_counted Loaded_update unfolding tick_inv_def by fastforce
qed

lemma tick_inv_store:
  assumes "tick_inv s n t ps" "i < length ps" "ps ! i = Loaded v"
  shows "tick_inv s n (t\<lparr>apic_timer_ticks := v + 1\<rparr>) (ps[i := Stored])"
proof -
  have m: "n + sum_list (map stores (ps[i := Stored])) = Suc (n + sum_list (map stores ps))"
    using sum_list_update_nat [of i ps stores Stored] assms(2,3) by (simp add: stores_def)
  have "counted s (n + sum_list (map stores ps)) v"
    using assms(1) nth_mem [OF assms(2)] assms(3) unfolding tick_inv_def by simp
  then show ?thesis
    using assms(1) tick_reached_store counted_Suc Loaded_update [of _ ps i Stored] unfolding tick_inv_def m by blast
qed

lemma tick_inv_ack:
  assumes "tick_inv s n t ps" "i < length ps" "ps ! i = Stored"
  shows "tick_inv s (Suc n) (apic_eoi t) (ps[i := Outside])"
proof -
  have m: "Suc n + sum_list (map stores (ps[i := Outside])) = n + sum_list (map stores ps)"
    using sum_list_update_nat [of i ps stores Outside] assms(2,3) by (simp add: stores_def)
  show ?thesis
    using assms(1) tick_reached_ack Loaded_update [of _ ps i Outside] unfolding tick_inv_def m by blast
qed

lemma tick_run_inv:
  "tick_run x is y \<Longrightarrow> x = (s, replicate N Outside) \<Longrightarrow>
    \<exists>n. length is = 3 * n + sum_list (map progress (snd y)) \<and> tick_inv s n (fst y) (snd y)"
proof (induction rule: tick_run.induct)
  case (tick_nil x)
  have "sum_list (map progress (replicate N Outside)) = 0" "sum_list (map stores (replicate N Outside)) = 0"
    by (simp_all add: sum_list_replicate stores_def)
  moreover have "tick_inv s 0 s (replicate N Outside)"
    unfolding tick_inv_def calculation(2) using tick_reached_0 by simp
  ultimately show ?case using tick_nil by (intro exI [of _ 0]) (simp del: map_replicate)
next
  case (tick_snoc x "is" y i z)
  then obtain n where n: "length is = 3 * n + sum_list (map progress (snd y))" "tick_inv s n (fst y) (snd y)" by blast
  obtain t ps where y: "y = (t, ps)" by fastforce
  note upd = sum_list_update_nat [of i ps progress]
  have "tick_step (t, ps) i z" using tick_snoc.hyps(2) y by simp
  then consider (load) "z = (t, ps[i := Loaded (apic_timer_ticks t)])" "i < length ps" "ps ! i = Outside"
    | (store) v where "z = (t\<lparr>apic_timer_ticks := v + 1\<rparr>, ps[i := Stored])" "i < length ps" "ps ! i = Loaded v"
    | (ack) "z = (apic_eoi t, ps[i := Outside])" "i < length ps" "ps ! i = Stored"
    by (auto elim: tick_stepE)
  then show ?case
  proof cases
    case load
    then show ?thesis using tick_inv_load [of s n t ps i] n upd [of "Loaded (apic_timer_ticks t)"]
      by (intro exI [of _ n]) (simp add: y)
  next
    case store
    then show ?thesis using tick_inv_store [of s n t ps i v] n upd [of Stored] by (intro exI [of _ n]) (simp add: y)
  next
    case ack
    then show ?thesis using tick_inv_ack [of s n t ps i] n upd [of Outside] by (intro exI [of _ "Suc n"]) (simp add: y)
  qed
qed

text \<open>Every number of lost ticks can happen on two processors.\<close>

lemma ticks_lost:
  assumes "0 < k" "k \<le> n" "1 < N"
  shows "\<exists>is. length is = 3 * n \<and> tick_run (s, replicate N Outside) is
    (s\<lparr>apic_timer_ticks := apic_timer_ticks s + of_nat k, io := io s @ replicate n (eoi_event s)\<rparr>, replicate N Outside)"
proof -
  let ?r = "replicate N Outside"
  let ?a = "(apic_timer ^^ (k - 1)) s"
  let ?v = "apic_timer_ticks ?a"
  let ?b = "(apic_timer ^^ (n - k)) ?a"
  let ?c = "?b\<lparr>apic_timer_ticks := ?v + 1\<rparr>"
  have r: "0 < length ?r" "?r ! 0 = Outside" "1 < length (?r[0 := Loaded ?v])" "?r[0 := Loaded ?v] ! 1 = Outside" "?r[0 := Outside] = ?r"
    using assms(3) by (simp_all add: list_update_same_conv)
  obtain xs where xs: "length xs = 3 * (k - 1)" "tick_run (s, ?r) xs (?a, ?r)"
    using ticks_alone [OF r(1,2)] by blast
  have one: "tick_run (?a, ?r) [0] (?a, ?r[0 := Loaded ?v])" using load [OF r(1,2)] by (rule tick_one)
  obtain ys where ys: "length ys = 3 * (n - k)" "tick_run (?a, ?r[0 := Loaded ?v]) ys (?b, ?r[0 := Loaded ?v])"
    using ticks_alone [OF r(3,4)] by blast
  have two: "tick_run (?b, ?r[0 := Loaded ?v]) [0] (?c, ?r[0 := Stored])"
    using store [of 0 "?r[0 := Loaded ?v]" ?v ?b] r(1) by (intro tick_one) simp
  have three: "tick_run (?c, ?r[0 := Stored]) [0] (apic_eoi ?c, ?r)"
    using ack [of 0 "?r[0 := Stored]" ?c] r(1,5) by (intro tick_one) simp
  have "tick_run (s, ?r) (xs @ [0] @ ys @ [0] @ [0]) (apic_eoi ?c, ?r)"
    using xs(2) one ys(2) two three by (blast intro: tick_run_append)
  moreover have "apic_eoi ?c = s\<lparr>apic_timer_ticks := apic_timer_ticks s + of_nat k, io := io s @ replicate n (eoi_event s)\<rparr>"
  proof -
    have "replicate n e = replicate (k - 1 + (n - k + 1)) e" for e :: io_event using assms by simp
    then have "replicate n e = replicate (k - 1) e @ replicate (n - k) e @ [e]" for e :: io_event
      by (simp only: replicate_add) simp
    moreover have "of_nat (k - 1) + 1 = (of_nat k :: u64)" using assms(1) by (simp add: of_nat_diff)
    ultimately show ?thesis by (simp add: apic_timers apic_eoi_emit emit_def eoi_event_def add.assoc)
  qed
  moreover have "length (xs @ [0] @ ys @ [0] @ [0]) = 3 * n" using xs(1) ys(1) assms by simp
  ultimately show ?thesis by metis
qed

text \<open>
  A store can also take the counter back, by all the ticks since its load. A sleep that started in
  between then ends at once: the difference is negative, and the comparison is unsigned.
\<close>

lemma stale_store:
  assumes "i < length ps" "ps ! i = Loaded v" "apic_timer_ticks s = v + of_nat d"
  shows "\<exists>t. tick_step (s, ps) i (t, ps[i := Stored]) \<and> apic_timer_ticks t = apic_timer_ticks s + 1 - of_nat d"
  using store [OF assms(1,2), of s] assms(3) by (intro exI [of _ "s\<lparr>apic_timer_ticks := v + 1\<rparr>"]) simp

lemma sleep_cut_short:
  assumes "unat (apic_timer_ticks s) < 2 ^ 31" "apic_timer_ticks t = apic_timer_ticks s + 1 - of_nat d"
    and "1 < d" "d < 2 ^ 31" "0 \<le> sint ms"
  shows "apic_sleep_loop irqs (ucast (apic_timer_ticks s)) ms i t = Some t"
proof -
  have "sint ms < 2 ^ 31" using sint_lt [of ms] by simp
  then have ms: "unat (scast ms :: u64) < 2 ^ 31" using scast_nonneg [OF assms(5)] by simp
  have "apic_timer_ticks t - scast (ucast (apic_timer_ticks s) :: i32) = - of_nat (d - 1)"
    using assms(3) unfolding tick_copy [OF assms(1)] assms(2) by (simp add: of_nat_diff)
  moreover have "unat (- of_nat (d - 1) :: u64) = 2 ^ 64 - (d - 1)"
  proof -
    have "unat (of_nat (d - 1) :: u64) = d - 1" using assms(4) by (intro unat_of_nat_u64) simp
    moreover from this have "(of_nat (d - 1) :: u64) \<noteq> 0" using assms(3) by auto
    ultimately show ?thesis using unat_sub_if' [of "0 :: u64" "of_nat (d - 1)"] by (auto simp: word_unat_eq_iff)
  qed
  ultimately have "\<not> apic_timer_ticks t - scast (ucast (apic_timer_ticks s) :: i32) < scast ms"
    using ms assms(4) by (simp add: word_less_nat_alt)
  then show ?thesis by (subst apic_sleep_loop.simps) simp
qed

section \<open>Properties\<close>

text \<open>
  C23. The tick counter on several processors. When \<open>n\<close> timer interrupts have been served, in any
  interleaving of the loads and stores of their handlers, each of them has been acknowledged, and
  the counter has grown by some \<open>k\<close> from 1 to \<open>n\<close>; every such \<open>k\<close> happens, so all ticks but one can
  be lost.
\<close>

theorem timer_ticks_race:
  assumes "1 < N" "0 < n"
  shows "(\<exists>is. length is = 3 * n \<and> tick_run (s, replicate N Outside) is (t, replicate N Outside)) \<longleftrightarrow>
    (\<exists>k \<in> {1..n}. t = s\<lparr>apic_timer_ticks := apic_timer_ticks s + of_nat k, io := io s @ replicate n (eoi_event s)\<rparr>)"
proof
  assume "\<exists>is. length is = 3 * n \<and> tick_run (s, replicate N Outside) is (t, replicate N Outside)"
  then obtain "is" where "length is = 3 * n" "tick_run (s, replicate N Outside) is (t, replicate N Outside)" by blast
  with tick_run_inv [OF _ refl, of s N "is" "(t, replicate N Outside)"] have "tick_inv s n t (replicate N Outside)"
    by (simp add: sum_list_replicate)
  then have "tick_reached s n n t" by (simp add: tick_inv_def sum_list_replicate stores_def)
  then show "\<exists>k \<in> {1..n}. t = s\<lparr>apic_timer_ticks := apic_timer_ticks s + of_nat k, io := io s @ replicate n (eoi_event s)\<rparr>"
    using assms(2) unfolding tick_reached_def by (metis Suc_leI One_nat_def atLeastAtMost_iff)
next
  assume "\<exists>k \<in> {1..n}. t = s\<lparr>apic_timer_ticks := apic_timer_ticks s + of_nat k, io := io s @ replicate n (eoi_event s)\<rparr>"
  then show "\<exists>is. length is = 3 * n \<and> tick_run (s, replicate N Outside) is (t, replicate N Outside)"
    using ticks_lost [OF _ _ assms(1)] by fastforce
qed

lemma timer_ticks_race_witness:
  "\<exists>is t. length is = 15 \<and> tick_run (quiet_kernel, replicate 2 Outside) is (t, replicate 2 Outside) \<and>
     apic_timer_ticks t = 1 \<and> length (io t) = 5"
proof -
  let ?t = "quiet_kernel\<lparr>apic_timer_ticks := apic_timer_ticks quiet_kernel + of_nat 1, io := io quiet_kernel @ replicate 5 (eoi_event quiet_kernel)\<rparr>"
  have n: "1 < (2 :: nat)" "0 < (5 :: nat)" by simp_all
  have "\<exists>k \<in> {1..5}. ?t = quiet_kernel\<lparr>apic_timer_ticks := apic_timer_ticks quiet_kernel + of_nat k, io := io quiet_kernel @ replicate 5 (eoi_event quiet_kernel)\<rparr>"
    by (rule bexI [of _ 1]) simp_all
  then obtain "is" where "length is = 3 * 5" "tick_run (quiet_kernel, replicate 2 Outside) is (?t, replicate 2 Outside)"
    using timer_ticks_race [OF n] by blast
  moreover have "apic_timer_ticks ?t = 1" "length (io ?t) = 5" by (simp_all add: quiet_kernel_def initial_kernel_def)
  ultimately show ?thesis by (intro exI [of _ "is"] exI [of _ ?t]) simp
qed

end
