(* ===== verification/Boot.thy ===== *)
theory Boot
  imports Pmm_Properties Vmm_Properties Smp Apic_Init
begin

text \<open>
  \<open>kern/kern.c\<close>: the order in which the parts of the kernel are started, and what the parts
  guarantee each other at the boot.
\<close>

section \<open>The functions\<close>

text \<open>
  The addresses of the kernel image that the code takes: globals, stubs and string literals. The
  terminal library is linked in too: \<open>flanterm_fb_simple_init\<close> gives the context it makes on a
  framebuffer, from the address, the width, the height and the pitch.
\<close>

record image =
  gdt_at :: u64
  tss_at :: u64
  idt_at :: u64
  isr_at :: "nat \<Rightarrow> u64"
  apic_signature_at :: u64
  facp_signature_at :: u64
  trampoline_at :: u64
  flanterm_fb_simple_init :: "u64 \<Rightarrow> u64 \<Rightarrow> u64 \<Rightarrow> u64 \<Rightarrow> u64"

definition NEOBIRD64_VERSION_MAJOR :: string where "NEOBIRD64_VERSION_MAJOR = ''0.2''"

text \<open>
  The test for a missing framebuffer has an empty body, so the response is dereferenced either
  way. What is written to the terminal on the context is the \<open>console\<close>.
\<close>

definition fb_init :: "(u64 \<Rightarrow> u64 \<Rightarrow> u64 \<Rightarrow> u64 \<Rightarrow> u64) \<Rightarrow> kernel \<Rightarrow> failure + (u64 \<times> kernel)" where
  "fb_init simple_init s =
     (case framebuffer_response (boot s) of
        None \<Rightarrow> Inl (Null_deref, s)
      | Some [] \<Rightarrow> Inl (Out_of_bounds, s)
      | Some (fb # _) \<Rightarrow> Inr (simple_init (fb_address fb) (fb_width fb) (fb_height fb) (fb_pitch fb), s))"

definition hcf :: "kernel \<Rightarrow> failure" where
  "hcf s = (Halted, emit Hlt s)"

text \<open>\<open>_start\<close> up to \<open>init_acpi\<close>, and after it.\<close>

definition kern_early :: "image \<Rightarrow> kernel \<Rightarrow> (failure + kernel) option" where
  "kern_early img s =
     obind (Some (fb_init (flanterm_fb_simple_init img) s)) (\<lambda>(ctx, s).
     let s = s\<lparr>ft_ctx := ctx\<rparr> in
     obind (Some (printf ''{k}Welcome to Neobird64 v{skn}''
        [VStr ANSI_COLOR_CYAN, VStr NEOBIRD64_VERSION_MAJOR, VStr ANSI_COLOR_RESET] s)) (\<lambda>s.
     obind (Some (log_info ''Loading GDT...'' s)) (\<lambda>s.
     obind (Some (gdt_init (gdt_at img) (tss_at img) s)) (\<lambda>s.
     obind (Some (log_success ''GDT loaded!'' s)) (\<lambda>s.
     obind (Some (log_info ''Loading IDT...'' s)) (\<lambda>s.
     let s = idt_init (idt_at img) (isr_at img) s in
     obind (Some (log_success ''IDT loaded!'' s)) (\<lambda>s.
     obind (Some (log_info ''Loading PMM...'' s)) (\<lambda>s.
     obind (pmm_init s) (\<lambda>s.
     obind (Some (log_success ''PMM loaded!'' s)) (\<lambda>s.
     Some (log_info ''Initalizing ACPI and APIC...'' s)))))))))))"

definition kern_late :: "image \<Rightarrow> (nat \<Rightarrow> nat \<Rightarrow> nat) \<Rightarrow> kernel \<Rightarrow> (failure + kernel) option" where
  "kern_late img irqs s =
     obind (Some (log_info ''Loading VMM...'' s)) (\<lambda>s.
     obind (vmm_init s) (\<lambda>s.
     obind (Some (log_success ''VMM loaded!'' s)) (\<lambda>s.
     obind (Some (log_info ''Starting CPUs...'' s)) (\<lambda>s.
     obind (smp_init irqs (trampoline_at img) s) (\<lambda>s.
     obind (Some (printf ''Done!{n}'' [] s)) (\<lambda>s.
     obind (Some (printf ''Hi!{n}'' [] s)) (\<lambda>s.
     Some (Inl (hcf s)))))))))"

definition kern_start :: "image \<Rightarrow> (nat \<Rightarrow> nat \<Rightarrow> nat) \<Rightarrow> kernel \<Rightarrow> (failure + kernel) option" where
  "kern_start img irqs s =
     obind (kern_early img s) (\<lambda>s.
     obind (init_acpi (apic_signature_at img) (facp_signature_at img) s) (kern_late img irqs))"

section \<open>Up to the physical memory manager\<close>

definition early_frame :: "kernel \<Rightarrow> kernel \<Rightarrow> bool" where
  "early_frame s t \<longleftrightarrow>
     t = s\<lparr>phys := phys t, console := console t, io := io t, ft_ctx := ft_ctx t, gdt := gdt t, gdtr := gdtr t, idt := idt t, idtpr := idtpr t\<rparr>"

lemma idt_init_frame: "\<exists>i p h. idt_init idt_addr isr s = s\<lparr>idt := i, idtpr := p, io := h\<rparr>"
proof -
  have "\<exists>i. fold (\<lambda>v. idt_set_gate (of_nat v) (isr v) 0x8E) vs s = s\<lparr>idt := i\<rparr>" for vs and s :: kernel
  proof (induction vs arbitrary: s)
    case Nil
    show ?case by (intro exI [of _ "idt s"]) simp
  next
    case (Cons v vs)
    obtain i where "fold (\<lambda>v. idt_set_gate (of_nat v) (isr v) 0x8E) vs (idt_set_gate (of_nat v) (isr v) 0x8E s) =
        idt_set_gate (of_nat v) (isr v) 0x8E s\<lparr>idt := i\<rparr>"
      using Cons by blast
    then show ?case by (intro exI [of _ i]) (simp, simp add: set_gate_eq)
  qed
  then obtain i where i: "fold (\<lambda>v. idt_set_gate (of_nat v) (isr v) 0x8E) [0..<32]
      (s\<lparr>idtpr := \<lparr>idtr_limit = sizeof_idtentry * 256 - 1, idtr_base = idt_addr\<rparr>\<rparr>) =
      s\<lparr>idtpr := \<lparr>idtr_limit = sizeof_idtentry * 256 - 1, idtr_base = idt_addr\<rparr>, idt := i\<rparr>" by blast
  define t where "t = idt_init idt_addr isr s"
  have "t = s\<lparr>idt := idt t, idtpr := idtpr t, io := io t\<rparr>"
    by (simp only: t_def idt_init_def Let_def i set_gate_eq idt_load_def emit_def) simp
  then show ?thesis unfolding t_def by blast
qed

lemma fits_boot:
  "fits ''{k}Welcome to Neobird64 v{skn}'' [VStr a, VStr b, VStr c]" "fits ''Done!{n}'' []" "fits ''Hi!{n}'' []"
  by (simp_all add: fits_simps)

definition terminal_on :: "image \<Rightarrow> limine_framebuffer \<Rightarrow> u64" where
  "terminal_on img fb = flanterm_fb_simple_init img (fb_address fb) (fb_width fb) (fb_height fb) (fb_pitch fb)"

lemma kern_early_pmm:
  assumes "framebuffer_response (boot s) = Some (fb # fbs)" "length (gdt s) = 7" "idt s = replicate 256 zero_idtentry"
  shows "\<exists>p. early_frame s p \<and> ft_ctx p = terminal_on img fb \<and> idt_ready (isr_at img) p \<and> phys p = phys (snd (memset (tss_at img) 0 sizeof_tssdesc s)) \<and>
    kern_early img s = obind (pmm_init p) (\<lambda>s. obind (Some (log_success ''PMM loaded!'' s)) (\<lambda>s.
      Some (log_info ''Initalizing ACPI and APIC...'' s)))"
proof -
  define r where "r = s\<lparr>ft_ctx := terminal_on img fb\<rparr>"
  have fb: "fb_init (flanterm_fb_simple_init img) s = Inr (terminal_on img fb, s)" using assms(1) by (simp add: fb_init_def terminal_on_def)
  obtain c where c: "\<And>f :: kernel \<Rightarrow> (failure + kernel) option. obind (Some (printf ''{k}Welcome to Neobird64 v{skn}''
        [VStr ANSI_COLOR_CYAN, VStr NEOBIRD64_VERSION_MAJOR, VStr ANSI_COLOR_RESET] r)) (\<lambda>s. obind (Some (log_info ''Loading GDT...'' s)) f) =
      f (r\<lparr>console := c\<rparr>)"
    by (simp add: printf_fits fits_boot log_info_def fits_log)
  have m: "phys (snd (memset (tss_at img) 0 sizeof_tssdesc (r\<lparr>console := c\<rparr>))) = phys (snd (memset (tss_at img) 0 sizeof_tssdesc s))"
    by (simp add: memset_def memset_loop_phys r_def cong: if_cong)
  have "length (gdt (r\<lparr>console := c\<rparr>)) = 7" using assms(2) by (simp add: r_def)
  from gdt_init_ok [OF this, of "gdt_at img" "tss_at img"] obtain g where
    g: "gdt_init (gdt_at img) (tss_at img) (r\<lparr>console := c\<rparr>) = Inr g" "phys g = phys (snd (memset (tss_at img) 0 sizeof_tssdesc s))"
      "g = r\<lparr>console := c, phys := phys g, gdt := gdt g, gdtr := gdtr g, io := io g\<rparr>"
    unfolding m by auto
  have ctx: "ft_ctx g = terminal_on img fb" by (subst g(3)) (simp add: r_def)
  obtain c' where c': "\<And>f :: kernel \<Rightarrow> (failure + kernel) option. obind (Some (log_success ''GDT loaded!'' g)) (\<lambda>s. obind (Some (log_info ''Loading IDT...'' s)) f) =
      f (g\<lparr>console := c'\<rparr>)"
    by (simp add: printf_fits log_success_def log_info_def fits_log)
  obtain i p h where "idt_init (idt_at img) (isr_at img) (g\<lparr>console := c'\<rparr>) = g\<lparr>console := c', idt := i, idtpr := p, io := h\<rparr>"
    using idt_init_frame by blast
  then have i: "idt_init (idt_at img) (isr_at img) (g\<lparr>console := c'\<rparr>) = g\<lparr>idt := i, idtpr := p, io := h, console := c'\<rparr>" by simp
  obtain c'' where c'': "\<And>f :: kernel \<Rightarrow> (failure + kernel) option. obind (Some (log_success ''IDT loaded!'' (g\<lparr>idt := i, idtpr := p, io := h, console := c'\<rparr>)))
      (\<lambda>s. obind (Some (log_info ''Loading PMM...'' s)) f) = f (g\<lparr>idt := i, idtpr := p, io := h, console := c''\<rparr>)"
    by (simp add: printf_fits log_success_def log_info_def fits_log)
  let ?p = "g\<lparr>idt := i, idtpr := p, io := h, console := c''\<rparr>"
  have "early_frame s ?p" unfolding early_frame_def by (subst g(3)) (simp add: r_def ctx)
  moreover have "kern_early img s = obind (pmm_init ?p) (\<lambda>s. obind (Some (log_success ''PMM loaded!'' s)) (\<lambda>s.
      Some (log_info ''Initalizing ACPI and APIC...'' s)))"
    unfolding kern_early_def fb obind_simps(3) split Let_def r_def [symmetric] c g(1) c' i c'' ..
  moreover have "idt_ready (isr_at img) ?p"
  proof -
    have "idt (g\<lparr>console := c'\<rparr>) = replicate 256 zero_idtentry" by (subst g(3)) (simp add: r_def assms(3))
    from idt_init_ready [OF this, of "isr_at img" "idt_at img"] show ?thesis
      unfolding i by (subst (asm) idt_ready_cong [of _ ?p]) simp_all
  qed
  moreover have "ft_ctx ?p = terminal_on img fb" by (simp add: ctx)
  ultimately show ?thesis using g(2) by (intro exI [of _ ?p]) simp
qed

section \<open>What the allocator hands to the page tables\<close>

text \<open>
  What the boot loader and the image give the kernel. Memory is seen at its own addresses where
  the bitmap will be, because \<open>hhdmoffset\<close> is still zero when \<open>pmm_init\<close> runs, and through the
  direct map; block 0 is not usable memory.
\<close>

definition bitmap_blocks :: "limine_memmap_entry list \<Rightarrow> kernel \<Rightarrow> nat" where
  "bitmap_blocks es s = 8 * (mem_blocks es s div 8)"

definition loader_map :: "nat \<Rightarrow> u64 \<Rightarrow> limine_memmap_entry list \<Rightarrow> kernel \<Rightarrow> bool" where
  "loader_map N off es s \<longleftrightarrow>
     memmap_response (boot s) = Some es \<and> memmap_fits N es s \<and> 0 \<notin> usable_blocks es \<and> hhdmoffset s = 0 \<and>
     unat off + 4096 * bitmap_blocks es s \<le> 2 ^ 64 \<and>
     (\<forall>p. unat p < 4096 * bitmap_blocks es s \<longrightarrow> vm s (p + off) = p) \<and>
     unat (fst (first_usable es s)) + bitmap_blocks es s div 8 < 2 ^ 64 \<and>
     (\<forall>k < bitmap_blocks es s div 8. vm s (fst (first_usable es s) + of_nat k) = fst (first_usable es s) + of_nat k)"

definition loader_ready :: "u64 \<Rightarrow> limine_kernel_address_response \<Rightarrow> limine_memmap_entry list \<Rightarrow> kernel \<Rightarrow> bool" where
  "loader_ready off ka es s \<longleftrightarrow>
     (\<exists>fb fbs. framebuffer_response (boot s) = Some (fb # fbs)) \<and> length (gdt s) = 7 \<and> idt s = replicate 256 zero_idtentry \<and>
     hhdm_response (boot s) = Some off \<and> off \<noteq> 0 \<and> kernel_address_response (boot s) = Some ka \<and>
     image_fits (s\<lparr>memmap := es\<rparr>)"

lemma pmm_init_pool:
  assumes L: "loader_map N off es s" and t: "pmm_init s = Some (Inr t)"
  shows "boot_pool off t" "nblocks t = bitmap_blocks es s" "memmap t = es" "pmm_frame s t"
    "free_blocks t = {b \<in> usable_blocks es. b < bitmap_blocks es s \<and>
       b \<notin> set (map (\<lambda>i. unat (fst (first_usable es s)) div 4096 + i) [0..<bitmap_blocks es s div 8])}"
proof -
  have mm: "memmap_response (boot s) = Some es" and fit: "memmap_fits N es s" using L by (simp_all add: loader_map_def)
  obtain t' where t': "pmm_init s = Some (Inr t')" "nblocks t' = 8 * (mem_blocks es s div 8)"
    "pmm_bitmap t' = fst (first_usable es s) + hhdmoffset s" "memmap t' = es" "pmm_frame s t'"
    using pmm_init_blocks [OF mm fit] by blast
  with t have eq: "t' = t" by simp
  note t' = t' [unfolded eq]
  note F = pmm_init_free [OF mm fit t]
  show n: "nblocks t = bitmap_blocks es s" using t'(2) by (simp add: bitmap_blocks_def)
  show "memmap t = es" "pmm_frame s t" by (fact t')+
  show free: "free_blocks t = {b \<in> usable_blocks es. b < bitmap_blocks es s \<and>
       b \<notin> set (map (\<lambda>i. unat (fst (first_usable es s)) div 4096 + i) [0..<bitmap_blocks es s div 8])}"
    using F(2) by (simp add: n reserved_blocks_def F(3))
  have "hhdm_linear (t\<lparr>hhdmoffset := off\<rparr>)"
    using L n F(4) by (simp add: hhdm_linear_def loader_map_def nblocks_def)
  moreover have "0 \<notin> free_blocks t" using L unfolding free by (simp add: loader_map_def)
  moreover have "clear_block t b" if b: "b \<in> free_blocks t" for b
    unfolding clear_block_def
  proof
    fix x
    assume "x \<in> bitmap_bytes (nblocks t) t"
    then obtain k where "x = vm t (pmm_bitmap t + of_nat k)" and k: "k < (nblocks t + 7) div 8" by (auto simp: bitmap_bytes_def)
    moreover have k8: "k < nblocks t div 8" using k n by (simp add: bitmap_blocks_def)
    ultimately have x: "x = pmm_usable_addr t + of_nat k"
      using L n F(3,4,5) by (simp add: loader_map_def)
    have "unat x div 4096 \<in> set (reserved_blocks t)"
      unfolding x using L n F(3) k8 by (intro bitmap_storage_reserved) (simp_all add: loader_map_def)
    then show "\<not> in_block b x" using b F(2) by (auto simp: in_block_def)
  qed
  ultimately show "boot_pool off t" using F(1) by (simp add: boot_pool_def)
qed

text \<open>Nothing of this depends on what is done before \<open>pmm_init\<close>.\<close>

lemma loader_map_early:
  assumes "early_frame s p"
  shows "loader_map N off es p = loader_map N off es s" "bitmap_blocks es p = bitmap_blocks es s"
    "first_usable es p = first_usable es s"
proof -
  have f: "vm p = vm s" "boot p = boot s" "hhdmoffset p = hhdmoffset s" "pmm_mem_size p = pmm_mem_size s"
    "pmm_usable_addr p = pmm_usable_addr s" "pmm_usable_top p = pmm_usable_top s"
    by (subst assms [unfolded early_frame_def], simp)+
  show u: "first_usable es p = first_usable es s" unfolding first_usable_def f ..
  have m: "mem_blocks es p = mem_blocks es s" by (simp add: mem_blocks_def f)
  then show b: "bitmap_blocks es p = bitmap_blocks es s" by (simp add: bitmap_blocks_def)
  show "loader_map N off es p = loader_map N off es s" by (simp add: loader_map_def memmap_fits_def f u m b)
qed

text \<open>What the later parts find: memory outside the bitmap and the task state is as it was.\<close>

definition early_state :: "image \<Rightarrow> nat \<Rightarrow> limine_memmap_entry list \<Rightarrow> kernel \<Rightarrow> kernel \<Rightarrow> bool" where
  "early_state img N es s t \<longleftrightarrow>
     (\<forall>x. x \<notin> bitmap_bytes N t \<longrightarrow> phys t x = phys (snd (memset (tss_at img) 0 sizeof_tssdesc s)) x) \<and>
     vm t = vm s \<and> boot t = boot s \<and> dev t = dev s \<and> hhdmoffset t = hhdmoffset s \<and> ics_array t = ics_array s \<and>
     ioapic_address t = ioapic_address s \<and> smp_response t = smp_response s \<and> apic_timer_ticks t = apic_timer_ticks s \<and>
     memmap t = es \<and> pmm_usable_addr t = fst (first_usable es s) \<and> pmm_bitmap t = fst (first_usable es s) + hhdmoffset s \<and>
     8 * unat (pmm_block_count t div 8) = bitmap_blocks es s \<and>
     idt_ready (isr_at img) t \<and> keyboard_state t = keyboard_state s \<and>
     ft_ctx t = terminal_on img (hd (the (framebuffer_response (boot s))))"

section \<open>From the interrupt controllers to the end\<close>

text \<open>The views of memory of the allocator and of the page tables.\<close>

definition same_memory :: "kernel \<Rightarrow> kernel \<Rightarrow> bool" where
  "same_memory s t \<longleftrightarrow> phys t = phys s \<and> vm t = vm s \<and> pmm_bitmap t = pmm_bitmap s \<and> pmm_block_count t = pmm_block_count s"

lemma same_memory_views:
  assumes "same_memory s t"
  shows "free_blocks t = free_blocks s" "nblocks t = nblocks s" "tables t = tables s" "boot_pool off t = boot_pool off s"
    "hhdmoffset t = hhdmoffset s \<Longrightarrow> vmm_sound root t = vmm_sound root s"
proof -
  have v: "phys t = phys s" "vm t = vm s" "pmm_bitmap t = pmm_bitmap s" "pmm_block_count t = pmm_block_count s"
    using assms by (simp_all add: same_memory_def)
  note V = pmm_view [OF v]
  show "free_blocks t = free_blocks s" "nblocks t = nblocks s" "tables t = tables s" by (fact V)+
  have n: "nblocks (s\<lparr>hhdmoffset := off\<rparr>) = nblocks s" "nblocks (t\<lparr>hhdmoffset := off\<rparr>) = nblocks s"
    using V(2) by (simp_all add: nblocks_def)
  show "boot_pool off t = boot_pool off s" by (simp add: boot_pool_def V hhdm_linear_def n v(2))
  show "vmm_sound root t = vmm_sound root s" if "hhdmoffset t = hhdmoffset s"
    using that by (simp add: vmm_sound_def V hhdm_linear_def v(2) table_block_def)
qed

lemma boots_with_cong:
  assumes "same_memory s t" "boot t = boot s" "memmap t = memmap s"
  shows "boots_with off ka t = boots_with off ka s"
  by (simp add: boots_with_def same_memory_views [OF assms(1)] assms(2,3) image_fits_def)

lemma acpi_frame_boots:
  assumes "acpi_frame s t"
  shows "same_memory s t" "boot t = boot s" "memmap t = memmap s" "smp_response t = smp_response s"
    "apic_timer_ticks t = apic_timer_ticks s" "idt t = idt s" "keyboard_state t = keyboard_state s"
  by (simp_all add: same_memory_def) (subst assms [unfolded acpi_frame_def], simp)+

lemma kernel_requests_console: "kernel_requests off ka (s\<lparr>console := c\<rparr>) = kernel_requests off ka s"
proof -
  have "s\<lparr>console := c, hhdmoffset := off\<rparr> =
      s\<lparr>phys := phys s, console := c, hhdmoffset := off, pml4addr := pml4addr s, kernel_pml4addr := kernel_pml4addr s\<rparr>" by simp
  then have "boot_frame off s (s\<lparr>console := c, hhdmoffset := off\<rparr>)" unfolding boot_frame_def by blast
  from boot_requests_cong(1) [OF this] show ?thesis by (simp add: kernel_requests_def)
qed

text \<open>The processors are told where to start, or there is only one.\<close>

definition cpus_released :: "u64 \<Rightarrow> kernel \<Rightarrow> kernel \<Rightarrow> bool" where
  "cpus_released trampoline s t \<longleftrightarrow>
     (case smp_response s of
        None \<Rightarrow> False
      | Some cpus \<Rightarrow>
          if length cpus = 1 then state_single_processor t
          else smp_response t = Some (map (\<lambda>c. c\<lparr>goto_address := trampoline\<rparr>) cpus))"

lemma smp_init_released:
  assumes "smp_response s \<noteq> None" "\<forall>i < cpu_count s. ticking m (irqs i)" "m < 2 ^ 31"
    and "unat (apic_timer_ticks s) + (m + 1) * cpu_count s < 2 ^ 31"
  shows "\<exists>t. smp_init irqs trampoline s = Some (Inr t) \<and> cpus_released trampoline s t \<and>
    same_memory s t \<and> hhdmoffset t = hhdmoffset s \<and> cr3 t = cr3 s \<and> idt t = idt s \<and> keyboard_state t = keyboard_state s"
proof -
  obtain cpus where c: "smp_response s = Some cpus" using assms(1) by auto
  show ?thesis
    using smp_init_result [OF assms(2-4), of trampoline] unfolding c
    by (auto simp: cpus_released_def c same_memory_def split: if_splits)
qed

text \<open>
  The running kernel: its tables are in force, the processors are released, the interrupts lead
  to their stubs. The state in which the boot ends is one of these, halted, with nothing typed.
\<close>

definition kernel_runs :: "u64 \<Rightarrow> limine_kernel_address_response \<Rightarrow> image \<Rightarrow> kernel \<Rightarrow> kernel \<Rightarrow> bool" where
  "kernel_runs off ka img s t \<longleftrightarrow>
     vmm_sound (cr3 t) t \<and> (\<forall>va. entry_of (tables t) (cr3 t) va = requested (kernel_requests off ka s) va 0) \<and>
     card (free_blocks s) = card (free_blocks t) + card (insert [] (request_paths (kernel_requests off ka s))) \<and>
     cpus_released (trampoline_at img) s t \<and> idt_ready (isr_at img) t"

definition kernel_up :: "u64 \<Rightarrow> limine_kernel_address_response \<Rightarrow> image \<Rightarrow> kernel \<Rightarrow> kernel \<Rightarrow> bool" where
  "kernel_up off ka img s t \<longleftrightarrow>
     kernel_runs off ka img s t \<and> keyboard_state t = keyboard_state s \<and> last (io t) = Hlt \<and>
     (\<exists>cs. console t = cs @ printed ''Hi!{n}'' [])"

lemma kern_late_ok:
  assumes boots: "boots_with off ka s" and smp: "smp_response s \<noteq> None" "\<forall>i < cpu_count s. ticking m (irqs i)" "m < 2 ^ 31"
    "unat (apic_timer_ticks s) + (m + 1) * cpu_count s < 2 ^ 31"
    and gates: "idt_ready (isr_at img) s"
  shows "\<exists>t. kern_late img irqs s = Some (Inl (Halted, t)) \<and>
    (card (insert [] (request_paths (kernel_requests off ka s))) \<le> card (free_blocks s) \<longrightarrow>
      kernel_up off ka img s t)"
proof -
  obtain c where c: "log_info ''Loading VMM...'' s = Inr (s\<lparr>console := c\<rparr>)"
    by (simp add: printf_fits log_info_def fits_log)
  let ?s = "s\<lparr>console := c\<rparr>"
  have same: "same_memory s ?s" by (simp add: same_memory_def)
  have "boots_with off ka ?s" using boots boots_with_cong [OF same] by simp
  note V = vmm_init_result [OF this, unfolded kernel_requests_console same_memory_views(1) [OF same]]
  show ?thesis
  proof (cases "card (free_blocks s) < card (insert [] (request_paths (kernel_requests off ka s)))")
    case True
    then show ?thesis using V(1) by (auto simp: kern_late_def c)
  next
    case False
    then obtain t where t: "vmm_init ?s = Some (Inr t)" using V(2) by auto
    note T = V(3) [OF t]
    then obtain p i c' h a k r where
      f: "t = s\<lparr>phys := p, io := i, console := c', hhdmoffset := h, pml4addr := a, kernel_pml4addr := k, cr3 := r\<rparr>"
      unfolding vmm_init_frame_def by auto
    obtain c2 where c2: "\<And>f :: kernel \<Rightarrow> (failure + kernel) option.
        obind (Some (log_success ''VMM loaded!'' t)) (\<lambda>s. obind (Some (log_info ''Starting CPUs...'' s)) f) = f (t\<lparr>console := c2\<rparr>)"
      by (simp add: printf_fits log_success_def log_info_def fits_log)
    let ?t = "t\<lparr>console := c2\<rparr>"
    have "smp_response ?t = smp_response s" "apic_timer_ticks ?t = apic_timer_ticks s" "cpu_count ?t = cpu_count s"
      by (simp_all add: f cpu_count_def)
    then obtain u where u: "smp_init irqs (trampoline_at img) ?t = Some (Inr u)" "cpus_released (trampoline_at img) s u"
      "same_memory ?t u" "hhdmoffset u = hhdmoffset t" "cr3 u = cr3 t" "idt u = idt s" "keyboard_state u = keyboard_state s"
      using smp_init_released [of ?t m irqs "trampoline_at img"] smp by (auto simp: cpus_released_def f)
    define v where "v = emit Hlt (u\<lparr>console := console u @ printed ''Done!{n}'' [] @ printed ''Hi!{n}'' []\<rparr>)"
    have "kern_late img irqs s = Some (Inl (Halted, v))"
      unfolding kern_late_def c obind_simps(3) t c2 u(1) v_def by (simp add: printf_fits fits_boot hcf_def)
    moreover have m: "same_memory t v" "hhdmoffset v = hhdmoffset t" "cr3 v = cr3 t"
      using u by (simp_all add: v_def emit_def same_memory_def)
    moreover have "last (io v) = Hlt" "\<exists>cs. console v = cs @ printed ''Hi!{n}'' []" "cpus_released (trampoline_at img) s v"
      using u(2) by (simp_all add: v_def emit_def cpus_released_def split: option.splits if_splits)
    moreover have "idt_ready (isr_at img) v" "keyboard_state v = keyboard_state s"
      using u(6,7) gates idt_ready_cong [of v s] by (simp_all add: v_def emit_def)
    ultimately show ?thesis
      using T by (auto simp: kernel_up_def kernel_runs_def same_memory_views [OF m(1)])
  qed
qed

lemma kern_early_ok:
  assumes ready: "loader_ready off ka es s" and loader: "loader_map N off es s"
  shows "\<exists>t. kern_early img s = Some (Inr t) \<and> boots_with off ka t \<and>
    free_blocks t = {b \<in> usable_blocks es. b < bitmap_blocks es s \<and>
      b \<notin> set (map (\<lambda>i. unat (fst (first_usable es s)) div 4096 + i) [0..<bitmap_blocks es s div 8])} \<and>
    early_state img N es s t"
proof -
  obtain fb fbs where n: "framebuffer_response (boot s) = Some (fb # fbs)" "length (gdt s) = 7" "idt s = replicate 256 zero_idtentry"
    using ready by (auto simp: loader_ready_def)
  obtain p where p: "early_frame s p" "ft_ctx p = terminal_on img fb" "idt_ready (isr_at img) p" "phys p = phys (snd (memset (tss_at img) 0 sizeof_tssdesc s))"
    "kern_early img s = obind (pmm_init p) (\<lambda>s. obind (Some (log_success ''PMM loaded!'' s)) (\<lambda>s.
      Some (log_info ''Initalizing ACPI and APIC...'' s)))"
    using kern_early_pmm [OF n] by blast
  note E = loader_map_early [OF p(1)]
  have L: "loader_map N off es p" using loader E(1) by simp
  then have L2: "memmap_response (boot p) = Some es" "memmap_fits N es p" by (simp_all add: loader_map_def)
  obtain q where q: "pmm_init p = Some (Inr q)" "\<forall>x. x \<notin> bitmap_bytes N q \<longrightarrow> phys q x = phys p x"
    using pmm_init_blocks [OF L2] by blast
  note P = pmm_init_pool [OF L q(1), unfolded E(2,3)]
  obtain c where c: "kern_early img s = Some (Inr (q\<lparr>console := c\<rparr>))"
    by (simp add: p(5) q(1) printf_fits log_success_def log_info_def fits_log)
  have b: "boot q = boot s" "smp_response q = smp_response s" "apic_timer_ticks q = apic_timer_ticks s" "vm q = vm s" "dev q = dev s"
    "hhdmoffset q = hhdmoffset s" "ics_array q = ics_array s" "ioapic_address q = ioapic_address s" "keyboard_state q = keyboard_state s"
    by (subst P(4) [unfolded pmm_frame_def], simp, subst p(1) [unfolded early_frame_def], simp)+
  have ctx: "ft_ctx q = terminal_on img fb" by (subst P(4) [unfolded pmm_frame_def], simp add: p(2))
  have "idt q = idt p" by (subst P(4) [unfolded pmm_frame_def], simp)
  then have gates: "idt_ready (isr_at img) (q\<lparr>console := c\<rparr>)" using p(3) idt_ready_cong [of "q\<lparr>console := c\<rparr>" p] by simp
  have u: "pmm_usable_addr q = fst (first_usable es s)" "pmm_bitmap q = fst (first_usable es s) + hhdmoffset s"
    using pmm_init_free(3,5) [OF L2 q(1)] E(3) b(6) L loader by (simp_all add: loader_map_def)
  have "boots_with off ka q" using ready P(1) by (simp add: boots_with_def b loader_ready_def image_fits_def P(3))
  moreover have same: "same_memory q (q\<lparr>console := c\<rparr>)" by (simp add: same_memory_def)
  ultimately have "boots_with off ka (q\<lparr>console := c\<rparr>)" using boots_with_cong [OF same] by simp
  moreover have "early_state img N es s (q\<lparr>console := c\<rparr>)"
    using q(2) p(4) b u P(2,3) gates ctx n(1) by (simp add: early_state_def nblocks_def) (simp add: bitmap_bytes_def)
  ultimately show ?thesis using c P(5) same_memory_views(1) [OF same] by blast
qed

text \<open>What the boot comes to.\<close>

definition boot_outcome ::
  "u64 \<Rightarrow> limine_kernel_address_response \<Rightarrow> limine_memmap_entry list \<Rightarrow> image \<Rightarrow> (nat \<Rightarrow> nat \<Rightarrow> nat) \<Rightarrow> kernel \<Rightarrow> bool" where
  "boot_outcome off ka es img irqs s \<longleftrightarrow>
    (\<exists>t. kern_early img s = Some (Inr t) \<and> ft_ctx t = terminal_on img (hd (the (framebuffer_response (boot s)))) \<and>
    free_blocks t = {b \<in> usable_blocks es. b < bitmap_blocks es s \<and>
      b \<notin> set (map (\<lambda>i. unat (fst (first_usable es s)) div 4096 + i) [0..<bitmap_blocks es s div 8])} \<and>
    (\<forall>u. init_acpi (apic_signature_at img) (facp_signature_at img) t = Some (Inr u) \<longrightarrow>
      (\<exists>v. kern_start img irqs s = Some (Inl (Halted, v)) \<and>
        (card (insert [] (request_paths (kernel_requests off ka u))) \<le> card (free_blocks t) \<longrightarrow>
          kernel_up off ka img u v))))"

lemma boot_result:
  assumes ready: "loader_ready off ka es s" and loader: "loader_map N off es s"
    and smp: "smp_response s \<noteq> None" "\<forall>i < cpu_count s. ticking m (irqs i)" "m < 2 ^ 31"
    "unat (apic_timer_ticks s) + (m + 1) * cpu_count s < 2 ^ 31"
  shows "boot_outcome off ka es img irqs s"
proof -
  obtain t where t: "kern_early img s = Some (Inr t)" "boots_with off ka t" "free_blocks t = {b \<in> usable_blocks es. b < bitmap_blocks es s \<and>
      b \<notin> set (map (\<lambda>i. unat (fst (first_usable es s)) div 4096 + i) [0..<bitmap_blocks es s div 8])}"
    "smp_response t = smp_response s" "apic_timer_ticks t = apic_timer_ticks s" "idt_ready (isr_at img) t"
    "ft_ctx t = terminal_on img (hd (the (framebuffer_response (boot s))))"
    using kern_early_ok [OF ready loader, of img] unfolding early_state_def by blast
  have "\<exists>v. kern_start img irqs s = Some (Inl (Halted, v)) \<and>
        (card (insert [] (request_paths (kernel_requests off ka u))) \<le> card (free_blocks t) \<longrightarrow> kernel_up off ka img u v)"
    if u: "init_acpi (apic_signature_at img) (facp_signature_at img) t = Some (Inr u)" for u
  proof -
    note A = acpi_frame_boots [OF init_acpi_acpi [OF u]]
    have "boots_with off ka u" using t(2) boots_with_cong [OF A(1-3)] by simp
    moreover have "smp_response u \<noteq> None" "cpu_count u = cpu_count s" "apic_timer_ticks u = apic_timer_ticks s"
      using A(4,5) t(4,5) smp(1) by (simp_all add: cpu_count_def)
    moreover have "idt_ready (isr_at img) u" using t(6) idt_ready_cong [OF A(6)] by simp
    ultimately obtain v where "kern_late img irqs u = Some (Inl (Halted, v))"
      "card (insert [] (request_paths (kernel_requests off ka u))) \<le> card (free_blocks u) \<longrightarrow> kernel_up off ka img u v"
      using kern_late_ok [of off ka u m irqs img] smp by auto
    then show ?thesis by (simp add: kern_start_def t(1) u same_memory_views(1) [OF A(1)])
  qed
  with t(1,3,7) show ?thesis unfolding boot_outcome_def by blast
qed

section \<open>An example\<close>

text \<open>
  The page tables for requests below 4 GiB, at their own addresses or through the direct map.
\<close>

definition in_window :: "u64 \<Rightarrow> bool" where
  "in_window va \<longleftrightarrow> (\<exists>p. unat p < 2 ^ 32 \<and> (va = p \<or> va = p + HHDM))"

definition window_tables :: "u64 list set" where
  "window_tables = {[], [0], [256]} \<union> (\<lambda>(b, i). [b, of_nat i]) ` ({0, 256} \<times> {..<4 :: nat}) \<union>
     (\<lambda>(b, i, j). [b, of_nat i, of_nat j]) ` ({0, 256} \<times> {..<4 :: nat} \<times> {..<512 :: nat})"

lemma card_window_tables: "finite window_tables" "card window_tables \<le> 4107"
proof -
  let ?A = "{0, 256 :: u64} \<times> {..<4 :: nat}" and ?B = "{0, 256 :: u64} \<times> {..<4 :: nat} \<times> {..<512 :: nat}"
  show "finite window_tables" by (simp add: window_tables_def)
  have "card window_tables \<le> card {[], [0], [256 :: u64]} + card ((\<lambda>(b, i). [b, of_nat i :: u64]) ` ?A) +
      card ((\<lambda>(b, i, j). [b, of_nat i, of_nat j :: u64]) ` ?B)"
    unfolding window_tables_def by (intro order_trans [OF card_Un_le] add_mono order_refl)
  also have "\<dots> \<le> 3 + 8 + 4096"
    using card_image_le [of ?A "\<lambda>(b, i). [b, of_nat i :: u64]"] card_image_le [of ?B "\<lambda>(b, i, j). [b, of_nat i, of_nat j :: u64]"]
    by (intro add_mono) (simp_all add: card_cartesian_product)
  finally show "card window_tables \<le> 4107" by simp
qed

lemma window_path:
  assumes "in_window va"
  shows "set (prefixes (table_path va)) \<subseteq> window_tables"
proof -
  obtain p where p: "unat p < 2 ^ 32" "va = p \<or> va = p + HHDM" using assms by (auto simp: in_window_def)
  define i j where "i = unat p div 2 ^ 30" and "j = unat p div 2 ^ 21 mod 512"
  have ij: "i < 4" "j < 512" using p(1) by (simp_all add: i_def j_def less_mult_imp_div_less)
  have "\<exists>b \<in> {0, 256}. table_path va = [b, of_nat i, of_nat j]"
  proof (cases "va = p")
    case True
    have "unat va div 2 ^ 39 = 0" "i mod 512 = i" using p(1) True ij(1) by simp_all
    then show ?thesis by (simp add: table_path_def table_index True) (simp add: i_def j_def)
  next
    case False
    then have va: "va = p + HHDM" using p(2) by simp
    have "unat va = unat p + 2 ^ 39 * 0x1FFFF00"
      unfolding va using p(1) by (subst unat_add_no_wrap) (simp_all add: HHDM_def)
    then have u: "unat va = unat p + 2 ^ 39 * 0x1FFFF00" "unat va = unat p + 2 ^ 30 * (512 * 0x1FFFF00)"
      "unat va = unat p + 2 ^ 21 * (512 * (512 * 0x1FFFF00))" by simp_all
    have "unat va div 2 ^ 39 = 0x1FFFF00" unfolding u(1) using p(1) by simp
    then have "unat va div 2 ^ 39 mod 512 = 256" by simp
    moreover have "unat va div 2 ^ 30 = i + 512 * 0x1FFFF00" unfolding u(2) i_def by simp
    then have "unat va div 2 ^ 30 mod 512 = i mod 512" by (simp only: mod_mult_self2)
    then have "unat va div 2 ^ 30 mod 512 = i" using ij(1) by simp
    moreover have "unat va div 2 ^ 21 = unat p div 2 ^ 21 + 512 * (512 * 0x1FFFF00)" unfolding u(3) by simp
    then have "unat va div 2 ^ 21 mod 512 = j" unfolding j_def by (simp only: mod_mult_self2)
    ultimately show ?thesis by (simp add: table_path_def table_index)
  qed
  then show ?thesis using ij by (auto simp: window_tables_def image_iff)
qed

lemma window_requests:
  assumes "\<And>va pa fl. (va, pa, fl) \<in> set rs \<Longrightarrow> in_window va"
  shows "card (insert [] (request_paths rs)) \<le> 4107"
proof -
  have "set (prefixes (table_path va)) \<subseteq> window_tables" if "(va, pa, fl) \<in> set rs" for va pa fl
    using assms [OF that] by (rule window_path)
  then have "request_paths rs \<subseteq> window_tables" unfolding request_paths_def by fast
  moreover have "[] \<in> window_tables" by (simp add: window_tables_def)
  ultimately have "insert [] (request_paths rs) \<subseteq> window_tables" by simp
  then show ?thesis using card_mono [OF card_window_tables(1)] card_window_tables(2) by (meson order_trans)
qed

text \<open>
  A machine with the firmware tables of \<open>Apic_Init\<close>, 31 MiB of usable memory from 1 MiB on, two
  processors, and an image at address 0 whose task state is at 0x2000.
\<close>

definition loader_memory :: "limine_memmap_entry list" where
  "loader_memory = [\<lparr>me_base = 0x100000, me_length = 0x1F00000, me_type = 0\<rparr>]"

definition pc_screen :: limine_framebuffer where
  "pc_screen = \<lparr>fb_address = 0xffff8000fd000000, fb_width = 1280, fb_height = 800, fb_pitch = 5120\<rparr>"

definition pc :: kernel where
  "pc = acpi_machine\<lparr>vm := \<lambda>a. if a < HHDM then a else a - HHDM,
     boot := no_boot\<lparr>memmap_response := Some loader_memory, hhdm_response := Some HHDM, kernel_address_response := Some no_image,
       rsdp_response := Some 0x8000, framebuffer_response := Some [pc_screen]\<rparr>,
     smp_response := smp_response two_cpus\<rparr>"

definition pc_image :: image where
  "pc_image = \<lparr>gdt_at = 0x3000, tss_at = 0x2000, idt_at = 0x4000, isr_at = \<lambda>v. 0x5000 + of_nat v,
     apic_signature_at = 0x8110, facp_signature_at = 0x8118, trampoline_at = 0x6000,
     flanterm_fb_simple_init = \<lambda>address width height pitch. 0x7000\<rparr>"

lemma pc_fields:
  "phys pc = firmware" "dev pc = board" "hhdmoffset pc = 0" "ics_array pc = replicate 64 zero_ics" "apic_timer_ticks pc = 0"
  "length (gdt pc) = 7" "smp_response pc \<noteq> None" "cpu_count pc = 2" "rsdp_response (boot pc) = Some 0x8000"
  "memmap_response (boot pc) = Some loader_memory" "pmm_mem_size pc = 0" "ioapic_address pc = 0" "idt pc = replicate 256 zero_idtentry" "keyboard_state pc = 0"
  by (simp_all add: pc_def acpi_machine_def quiet_kernel_def initial_kernel_def two_cpus_def cpu_count_def)

lemma pc_vm: "unat a < 2 ^ 63 \<Longrightarrow> vm pc a = a" "unat p < 2 ^ 32 \<Longrightarrow> vm pc (p + HHDM) = p"
proof -
  show "unat a < 2 ^ 63 \<Longrightarrow> vm pc a = a" by (simp add: pc_def HHDM_def word_less_nat_alt)
  assume p: "unat p < 2 ^ 32"
  then have "unat (p + HHDM) = unat p + unat HHDM" by (intro unat_add_no_wrap) (simp add: HHDM_def)
  then show "vm pc (p + HHDM) = p" by (simp add: pc_def word_less_nat_alt)
qed

lemma loader_usable: "is_usable \<lparr>me_base = b, me_length = l, me_type = 0\<rparr>"
  by (simp add: is_usable_def LIMINE_MEMMAP_USABLE_def)

lemma pc_memory:
  "first_usable loader_memory pc = (0x100000, 0x2000000)" "mem_blocks loader_memory pc = 7936" "bitmap_blocks loader_memory pc = 7936"
  "usable_blocks loader_memory = {256..<8192}"
proof -
  show "first_usable loader_memory pc = (0x100000, 0x2000000)" by (simp add: first_usable_def loader_memory_def loader_usable)
  show m: "mem_blocks loader_memory pc = 7936"
    by (simp add: mem_blocks_def total_usable_def loader_memory_def loader_usable pc_fields BLOCK_SIZE_def)
  then show "bitmap_blocks loader_memory pc = 7936" by (simp add: bitmap_blocks_def)
  have "released \<lparr>me_base = 0x100000, me_length = 0x1F00000, me_type = 0\<rparr> = map (\<lambda>k. 256 + k) [0..<7936]"
    by (simp add: released_def loader_usable del: upt_rec_numeral)
  then have "usable_blocks loader_memory = (\<lambda>k. 256 + k) ` {0..<7936}"
    by (simp add: usable_blocks_def loader_memory_def del: upt_rec_numeral)
  also have "\<dots> = {256..<8192}" by (simp add: image_add_atLeastLessThan)
  finally show "usable_blocks loader_memory = {256..<8192}" .
qed

lemma pc_storage: "k < 2 ^ 20 \<Longrightarrow> vm pc (0x100000 + of_nat k) = 0x100000 + of_nat k"
  using unat_add_of_nat [of "0x100000" k] by (intro pc_vm(1)) simp

lemma pc_map: "loader_map 8192 HHDM loader_memory pc"
proof -
  have "inj_on (\<lambda>k. vm pc (0x100000 + of_nat k)) {..<1024}"
  proof (rule inj_onI)
    fix j k :: nat
    assume "j \<in> {..<1024}" "k \<in> {..<1024}" "vm pc (0x100000 + of_nat j) = vm pc (0x100000 + of_nat k)"
    then show "j = k" using pc_storage [of j] pc_storage [of k] add_of_nat_inj [of j k] by simp
  qed
  moreover have "\<forall>e \<in> set loader_memory. set (released e) \<subseteq> {..<8192}"
  proof -
    have "(\<Union>e \<in> set loader_memory. set (released e)) \<subseteq> {..<8192}"
      using pc_memory(4) unfolding usable_blocks_def by auto
    then show ?thesis by blast
  qed
  ultimately have "memmap_fits 8192 loader_memory pc"
    unfolding memmap_fits_def pc_memory(1,2) fst_conv pc_fields(3) by (simp add: loader_memory_def)
  moreover have "vm pc (p + HHDM) = p" if "unat p < 4096 * 7936" for p using that by (intro pc_vm(2)) simp
  moreover have "vm pc (0x100000 + of_nat k) = 0x100000 + of_nat k" if "k < 992" for k using that by (intro pc_storage) simp
  ultimately show ?thesis
    unfolding loader_map_def pc_memory(1,3,4) fst_conv pc_fields(3,10) by (simp add: HHDM_def)
qed

lemma pc_ready: "loader_ready HHDM no_image loader_memory pc"
  using pc_fields(6,13) by (simp add: loader_ready_def)
    (simp add: pc_def no_boot_def HHDM_def image_fits_def loader_memory_def ALIGN_UP_def PAGE_SIZE_def)

lemma window_high: "unat p < 2 ^ 32 \<Longrightarrow> in_window (p + HHDM)" and window_low: "unat p < 2 ^ 32 \<Longrightarrow> in_window p"
  by (auto simp: in_window_def)

lemma pc_requests:
  assumes "lapic_addr u = 0xFEE00000" "memmap u = loader_memory" "boot u = boot pc" "pmm_usable_addr u = 0x100000"
    "unat (pmm_block_count u div 8) = 992" "(va, pa, fl) \<in> set (kernel_requests HHDM no_image u)"
  shows "in_window va"
proof -
  let ?u = "u\<lparr>hhdmoffset := HHDM\<rparr>"
  have low: "ALIGN_DOWN 0 PAGE_SIZE = 0" "ALIGN_UP 0 PAGE_SIZE = 0" "ALIGN_DOWN (0xFEE00000 + HHDM) PAGE_SIZE = 0xFEE00000 + HHDM"
    by code_simp+
  have near: "unat (b + x) < 2 ^ 32" if "unat b \<le> 0x100000" "x \<in> set (steps 0 n 4096)" "unat n \<le> 0x1F00000" for b x n :: u64
  proof -
    have "unat x < unat n" using set_steps_0 [of 4096 n x] that(2,3) by auto
    then have "unat (b + x) = unat b + unat x" using that(1,3) by (intro unat_add_no_wrap) simp
    then show ?thesis using \<open>unat x < unat n\<close> that(1,3) by simp
  qed
  have "section_requests (ALIGN_DOWN 0 PAGE_SIZE) (ALIGN_UP 0 PAGE_SIZE) fl ka = []" for fl ka
    unfolding low by (simp add: section_requests_def steps_empty)
  then have "kernel_requests HHDM no_image u = bitmap_requests ?u @ entry_requests ?u \<lparr>me_base = 0x100000, me_length = 0x1F00000, me_type = 0\<rparr> @
      low_requests @ [lapic_request ?u]"
    by (simp add: kernel_requests_def boot_requests_def assms(2,3) loader_memory_def) (simp add: pc_def no_boot_def)
  then consider "(va, pa, fl) \<in> set (bitmap_requests ?u)"
    | "(va, pa, fl) \<in> set (entry_requests ?u \<lparr>me_base = 0x100000, me_length = 0x1F00000, me_type = 0\<rparr>)"
    | "(va, pa, fl) \<in> set low_requests" | "(va, pa, fl) = lapic_request ?u"
    using assms(6) by auto
  then show ?thesis
  proof cases
    case 1
    then obtain x where "va = (0x100000 + x) + HHDM" "x \<in> set (steps 0 (pmm_block_count u div 8) 4096)"
      by (auto simp: bitmap_requests_def assms(4))
    then show ?thesis using near [of "0x100000" x "pmm_block_count u div 8"] assms(5) window_high by simp
  next
    case 2
    then obtain x where "va = (0x100000 + x) + HHDM" "x \<in> set (steps 0 0x1F00000 4096)"
      by (auto simp: entry_requests_def split: option.splits)
    then show ?thesis using near [of "0x100000" x "0x1F00000"] window_high by simp
  next
    case 3
    then obtain k where "va = block_addr k" "k < 2 ^ 20" using low_request by blast
    then show ?thesis by (intro window_low) (simp add: unat_block_addr)
  next
    case 4
    then have "va = 0xFEE00000 + HHDM" by (simp add: lapic_request_def assms(1) low)
    then show ?thesis by (simp add: window_high)
  qed
qed

lemma pc_free:
  "card {b \<in> {256..<8192}. b < 7936 \<and> b \<notin> set (map (\<lambda>i. unat (0x100000 :: u64) div 4096 + i) [0..<7936 div 8])} = 6688"
proof -
  have "set (map (\<lambda>i. unat (0x100000 :: u64) div 4096 + i) [0..<7936 div 8]) = {256..<1248}"
    unfolding set_map set_upt by (simp add: image_add_atLeastLessThan)
  then have "{b \<in> {256..<8192}. b < 7936 \<and> b \<notin> set (map (\<lambda>i. unat (0x100000 :: u64) div 4096 + i) [0..<7936 div 8])} = {1248..<7936}"
    by (simp only:) auto
  then show ?thesis by (simp only: card_atLeastLessThan)
qed

text \<open>The firmware tables survive the early part of the boot.\<close>

lemma pc_firmware:
  assumes "early_state pc_image 8192 loader_memory pc t"
  shows "firmware_in t"
  unfolding firmware_in_def
proof (intro allI impI)
  fix a :: u64
  assume a: "0x8000 \<le> a \<and> a < 0x9000"
  then have ua: "0x8000 \<le> unat a" "unat a < 0x9000" by (simp_all add: word_le_nat_alt word_less_nat_alt)
  have e: "vm t = vm pc" "pmm_bitmap t = 0x100000"
    "\<forall>x. x \<notin> bitmap_bytes 8192 t \<longrightarrow> phys t x = phys (snd (memset 0x2000 0 sizeof_tssdesc pc)) x"
    using assms by (simp_all add: early_state_def pc_memory(1) pc_fields(3) pc_image_def)
  have va: "vm pc a = a" using ua by (intro pc_vm(1)) simp
  have "a \<notin> bitmap_bytes 8192 t"
  proof
    assume "a \<in> bitmap_bytes 8192 t"
    then obtain k where k: "a = 0x100000 + of_nat k" "k < 2 ^ 20" using pc_storage by (auto simp: bitmap_bytes_def e)
    then have "unat a = 0x100000 + k" using unat_add_of_nat [of "0x100000" k] by simp
    then show False using ua by simp
  qed
  moreover have "vm pc (0x2000 + of_nat k) \<noteq> a" if "k < 104" for k
  proof
    assume "vm pc (0x2000 + of_nat k) = a"
    moreover have "unat ((0x2000 :: u64) + of_nat k) = 0x2000 + k" using unat_add_of_nat [of "0x2000" k] that by simp
    ultimately show False using pc_vm(1) [of "0x2000 + of_nat k"] ua that by simp
  qed
  ultimately show "rd8 t a = firmware a"
    using e(3) by (auto simp: rd8_def e(1) va memset_def memset_loop_phys sizeof_tssdesc_at pc_fields(1))
qed

lemma pc_acpi:
  assumes "kern_early pc_image pc = Some (Inr t)"
  shows "\<exists>u. init_acpi 0x8110 0x8118 t = Some (Inr u) \<and>
    (\<forall>(va, pa, fl) \<in> set (kernel_requests HHDM no_image u). in_window va) \<and> smp_response u = smp_response pc \<and> keyboard_state u = 0"
proof -
  have e: "early_state pc_image 8192 loader_memory pc t" using kern_early_ok [OF pc_ready pc_map, of pc_image] assms by auto
  then have t: "boot t = boot pc" "dev t = board" "hhdmoffset t = 0" "ics_array t = replicate 64 zero_ics" "ioapic_address t = 0"
    "smp_response t = smp_response pc" "memmap t = loader_memory" "pmm_usable_addr t = 0x100000" "8 * unat (pmm_block_count t div 8) = 7936"
    "keyboard_state t = 0"
    by (simp_all add: early_state_def pc_fields pc_memory)
  note f = pc_firmware [OF e]
  note M = firmware_madt [OF f t(4)]
  have rsdp: "rsdp_response (boot t) = Some 0x8000" by (simp add: t(1) pc_fields)
  have len: "length (filter (kept t) [0x808C, 0x8094, 0x80A0]) \<le> 64" unfolding M(2) by simp
  have pin: "\<forall>h. highest_pin (dev t) 0xFEC00000 h = of_nat 23" by (simp add: t(2) highest_pin_def board_def)
  have gsi: "(case find (is_override t 1) [0x808C, 0x8094, 0x80A0] of Some r \<Rightarrow> iso_gsi t r | None \<Rightarrow> 1) = of_nat 2" using M(5) by simp
  have small: "(23 :: nat) < 120" "(2 :: nat) < 120" by simp_all
  note R = init_acpi_result [OF firmware_found [OF f rsdp t(3)] M(1) len M(3,6) M(4) [symmetric] pin small(1) gsi small(2)]
  have "madt_lapicaddr t 0x8060 = 0xFEE00000" by (simp add: madt_lapicaddr_at firmware_read(2) [OF f] firmware_words)
  then obtain u where u: "init_acpi 0x8110 0x8118 t = Some (Inr u)" "lapic_addr u = 0xFEE00000"
    using R board_not_stuck unfolding t(2) by (cases "init_acpi 0x8110 0x8118 t") auto
  note A = acpi_frame_boots [OF init_acpi_acpi [OF u(1)]]
  have "pmm_usable_addr u = pmm_usable_addr t"
    by (subst init_acpi_acpi [OF u(1), unfolded acpi_frame_def], simp)
  then have w: "memmap u = loader_memory" "boot u = boot pc" "pmm_usable_addr u = 0x100000" "unat (pmm_block_count u div 8) = 992"
    using A t by (simp_all add: same_memory_def)
  have "in_window va" if r: "(va, pa, fl) \<in> set (kernel_requests HHDM no_image u)" for va pa fl
    using pc_requests [OF u(2) w r] .
  then show ?thesis using u(1) A(4,7) t(6,10) by auto
qed

text \<open>The boot of the example.\<close>

lemma pc_ticks:
  "\<forall>i < cpu_count pc. ticking 1 ((\<lambda>_ _. 1) i)" "(1 :: nat) < 2 ^ 31"
  "unat (apic_timer_ticks pc) + (1 + 1) * cpu_count pc < 2 ^ 31"
  by (auto simp: ticking_def) (simp_all add: pc_fields)

lemma pc_up:
  assumes "boot_outcome HHDM no_image loader_memory pc_image irqs pc"
  shows "\<exists>u v. kern_start pc_image irqs pc = Some (Inl (Halted, v)) \<and>
    kernel_up HHDM no_image pc_image u v \<and> smp_response u = smp_response pc \<and> keyboard_state u = 0"
proof -
  obtain t where t: "kern_early pc_image pc = Some (Inr t)" "card (free_blocks t) = 6688"
    "\<forall>u. init_acpi 0x8110 0x8118 t = Some (Inr u) \<longrightarrow>
      (\<exists>v. kern_start pc_image irqs pc = Some (Inl (Halted, v)) \<and>
        (card (insert [] (request_paths (kernel_requests HHDM no_image u))) \<le> card (free_blocks t) \<longrightarrow>
          kernel_up HHDM no_image pc_image u v))"
    using assms pc_free unfolding boot_outcome_def pc_memory fst_conv by (auto simp: pc_image_def)
  obtain u where u: "init_acpi 0x8110 0x8118 t = Some (Inr u)" "\<forall>(va, pa, fl) \<in> set (kernel_requests HHDM no_image u). in_window va"
    "smp_response u = smp_response pc" "keyboard_state u = 0"
    using pc_acpi [OF t(1)] by blast
  have "card (insert [] (request_paths (kernel_requests HHDM no_image u))) \<le> 4107"
    using u(2) by (intro window_requests) blast
  then show ?thesis using t(2,3) u(1,3,4) by fastforce
qed

section \<open>Properties\<close>



end
