(* ===== verification/Running.thy ===== *)
theory Running
  imports Boot
begin

text \<open>
  The kernel after the boot. \<open>hcf\<close> of \<open>kern/kern.c\<close> halts the processor for ever: every interrupt
  wakes it, its stub and its handler run, and the loop halts it again, unless the handler stops the
  machine. Interrupts and exceptions of any vector come in any order.
\<close>

section \<open>The idle loop under interrupts\<close>

type_synonym running = "int_context \<times> cpu \<times> kernel"

text \<open>
  One round of the loop. A vector whose gate is not present raises the exception 11, segment not
  present, in its place. The processor enters the stub when the gate is an interrupt gate with the
  stub's address; the error code, and what the handler leaves in the registers, are arbitrary.
\<close>

definition vector_taken :: "kernel \<Rightarrow> nat \<Rightarrow> nat" where
  "vector_taken s v = (if gate_present (idt s ! v) then v else 11)"

inductive idle_step :: "image \<Rightarrow> running \<Rightarrow> nat \<Rightarrow> running \<Rightarrow> bool" for img where
  wake: "v < 256 \<Longrightarrow> vector_taken s v = w \<Longrightarrow> interrupt_gate (isr_at img w) (idt s ! w) \<Longrightarrow>
    interrupt clobber w err c p s = Inr (c', p', t) \<Longrightarrow>
    idle_step img (c, p, s) v (c', p', snd (hcf t))"

text \<open>A round in which the handler does not return.\<close>

inductive idle_stop :: "image \<Rightarrow> running \<Rightarrow> nat \<Rightarrow> failure \<Rightarrow> bool" for img where
  down: "v < 256 \<Longrightarrow> vector_taken s v = w \<Longrightarrow> interrupt_gate (isr_at img w) (idt s ! w) \<Longrightarrow>
    interrupt clobber w err c p s = Inl f \<Longrightarrow>
    idle_stop img (c, p, s) v f"

inductive idle_run :: "image \<Rightarrow> running \<Rightarrow> nat list \<Rightarrow> running \<Rightarrow> bool" for img where
  asleep: "idle_run img x [] x"
| woken: "idle_step img x v y \<Longrightarrow> idle_run img y vs z \<Longrightarrow> idle_run img x (v # vs) z"

inductive_cases idle_stepE: "idle_step img (c, p, s) v x"
inductive_cases idle_stopE: "idle_stop img (c, p, s) v f"
inductive_simps idle_run_simps: "idle_run img x [] z" "idle_run img x (v # vs) z"

text \<open>What the interrupts leave alone: memory, the tables and every other global.\<close>

definition irq_frame :: "kernel \<Rightarrow> kernel \<Rightarrow> bool" where
  "irq_frame s t \<longleftrightarrow>
     t = s\<lparr>console := console t, io := io t, apic_timer_ticks := apic_timer_ticks t, keyboard_state := keyboard_state t\<rparr>"

interpretation irq: frame irq_frame
proof
  show "irq_frame s s" for s by (simp add: irq_frame_def)
  show "irq_frame s u" if st: "irq_frame s t" and tu: "irq_frame t u" for s t u
    unfolding irq_frame_def
    by (rule trans [OF tu [unfolded irq_frame_def]]) (subst st [unfolded irq_frame_def], simp)
qed

lemma irq_frame_fields:
  assumes "irq_frame s t"
  shows "same_memory s t" "hhdmoffset t = hhdmoffset s" "cr3 t = cr3 s" "idt t = idt s" "smp_response t = smp_response s"
    "state_single_processor t = state_single_processor s" "eoi_event t = eoi_event s"
  by (simp_all add: same_memory_def eoi_event_def) (subst assms [unfolded irq_frame_def], simp)+

section \<open>One interrupt\<close>

text \<open>The accesses of the rounds: the keyboard's port, the end of the interrupt, the halt.\<close>

fun idle_events :: "io_event \<Rightarrow> nat list \<Rightarrow> u8 list \<Rightarrow> io_event list" where
  "idle_events eoi [] codes = []"
| "idle_events eoi (v # vs) codes =
     (if v = 33 then [InB 0x60 (hd codes), eoi, Hlt] @ idle_events eoi vs (tl codes)
      else [eoi, Hlt] @ idle_events eoi vs codes)"

definition session :: "kmode \<Rightarrow> nat list \<Rightarrow> u8 list \<Rightarrow> kernel \<Rightarrow> kernel \<Rightarrow> bool" where
  "session m vs codes s t \<longleftrightarrow>
     length codes = count_list vs 33 \<and> irq_frame s t \<and>
     apic_timer_ticks t = apic_timer_ticks s + of_nat (count_list vs 172) \<and>
     io t = io s @ idle_events (eoi_event s) vs codes \<and>
     (\<exists>outs m'. kb_run m codes outs m' \<and> keyboard_state t = mode_code m' \<and> shown t = shown s @ outs)"

lemma timer_round:
  assumes "keyboard_state s = mode_code m"
  shows "session m [172] [] s (snd (hcf (apic_timer s)))"
  using assms run_nil [of m]
  by (auto simp: session_def irq_frame_def hcf_def apic_timer_def apic_eoi_emit emit_def eoi_event_def shown_def)

lemma key_round:
  assumes "ps2_handler s = Inr r" "keyboard_state s = mode_code m"
  shows "session m [33] [next_code s] s (snd (hcf r))"
proof -
  obtain out m' where k: "kb_step m (next_code s) out m'" "keyboard_state r = mode_code m'" "key_served (next_code s) out s r"
    using handler_step [OF assms(2) refl] assms(1) by (auto simp: handler_ok_def next_code_def)
  have r: "r = s\<lparr>keyboard_state := mode_code m', console := console s @ map (\<lambda>c. [c]) out, io := io s @ [InB 0x60 (next_code s), eoi_event s]\<rparr>"
    using k(2,3) by (simp add: key_served_def)
  have "kb_run m [next_code s] out m'" using run_step [OF k(1) run_nil] by simp
  then show ?thesis
    unfolding session_def r
    by (intro conjI exI [of _ out] exI [of _ m']) (simp_all add: irq_frame_def hcf_def emit_def shown_def)
qed

text \<open>The rounds that can follow a state.\<close>

lemma device_gate:
  assumes "gates_installed (isr_at img) s" "v \<in> {33, 172}"
  shows "interrupt_gate (isr_at img v) (idt s ! v)" "vector_taken s v = v" "v < 256"
proof -
  show v: "v < 256" using assms(2) by auto
  have "installed v" using assms(2) by (auto simp: installed_def)
  with v show "interrupt_gate (isr_at img v) (idt s ! v)" using assms(1) by (simp add: gates_installed_def)
  then show "vector_taken s v = v" by (simp add: vector_taken_def interrupt_gate_present)
qed

lemma device_served:
  "v \<in> {33, 172} \<Longrightarrow> interrupt clobber v err c p s =
    sbind (if v = 33 then ps2_handler s else Inr (apic_timer s)) (\<lambda>t. Inr (c, p, t))"
  using interrupt_served [of clobber err c p s] by auto

lemma idle_step_iff:
  assumes "gates_installed (isr_at img) s" "v \<in> {33, 172}"
  shows "idle_step img (c, p, s) v x \<longleftrightarrow>
    (\<exists>r. (if v = 33 then ps2_handler s = Inr r else r = apic_timer s) \<and> x = (c, p, snd (hcf r)))"
proof
  assume "idle_step img (c, p, s) v x"
  then show "\<exists>r. (if v = 33 then ps2_handler s = Inr r else r = apic_timer s) \<and> x = (c, p, snd (hcf r))"
    using assms(2) device_gate(2) [OF assms] by (auto simp: device_served sbind_eq_Inr elim!: idle_stepE split: if_splits)
next
  assume "\<exists>r. (if v = 33 then ps2_handler s = Inr r else r = apic_timer s) \<and> x = (c, p, snd (hcf r))"
  then obtain r where r: "(if v = 33 then ps2_handler s else Inr (apic_timer s)) = Inr r" "x = (c, p, snd (hcf r))"
    by (auto split: if_splits)
  then show "idle_step img (c, p, s) v x"
    using wake [OF device_gate(3,2,1) [OF assms], of _ 0 c p] device_served [OF assms(2), of _ 0 c p s] by simp
qed

lemma idle_stop_iff:
  assumes "gates_installed (isr_at img) s" "v \<in> {33, 172}"
  shows "idle_stop img (c, p, s) v f \<longleftrightarrow> v = 33 \<and> ps2_handler s = Inl f"
proof
  assume "idle_stop img (c, p, s) v f"
  then show "v = 33 \<and> ps2_handler s = Inl f"
    using assms(2) device_gate(2) [OF assms] by (cases "ps2_handler s") (auto simp: device_served elim!: idle_stopE split: if_splits)
next
  assume "v = 33 \<and> ps2_handler s = Inl f"
  then show "idle_stop img (c, p, s) v f"
    using down [OF device_gate(3,2,1) [OF assms], of _ 0 c p] device_served [OF assms(2), of _ 0 c p s] by simp
qed

text \<open>Every other vector ends in an exception.\<close>

lemma other_vector:
  assumes "idt_ready (isr_at img) s" "v < 256" "v \<notin> {33, 172}"
  shows "\<exists>w < 32. vector_taken s v = w \<and> interrupt_gate (isr_at img w) (idt s ! w)"
proof -
  have "vector_taken s v < 32"
    using assms by (auto simp: idt_ready_def vector_taken_def installed_def)
  moreover from this have "interrupt_gate (isr_at img (vector_taken s v)) (idt s ! vector_taken s v)"
    using assms(1) by (simp add: idt_ready_def gates_installed_def installed_def)
  ultimately show ?thesis by blast
qed

lemma other_stops:
  assumes "idt_ready (isr_at img) s" "v < 256" "v \<notin> {33, 172}"
  shows "\<not> idle_step img (c, p, s) v x" "\<exists>f. idle_stop img (c, p, s) v f"
    "idle_stop img (c, p, s) v (f, t) \<Longrightarrow> f = Halted \<and> io t = io s @ [Cli, Hlt]"
proof -
  obtain w where w: "w < 32" "vector_taken s v = w" "interrupt_gate (isr_at img w) (idt s ! w)"
    using other_vector [OF assms] by blast
  have halts: "\<exists>r. interrupt clobber w err c p s = Inl (Halted, r) \<and> io r = io s @ [Cli, Hlt]" for clobber err
    using interrupt_halts [OF w(1)] by blast
  show "\<not> idle_step img (c, p, s) v x"
  proof
    assume "idle_step img (c, p, s) v x"
    then obtain clobber err y where "interrupt clobber w err c p s = Inr y" using w(2) by (auto elim!: idle_stepE)
    with halts [of clobber err] show False by auto
  qed
  show "\<exists>f. idle_stop img (c, p, s) v f"
    using halts [of "\<lambda>_. 0" 0] down [OF assms(2) w(2,3), of "\<lambda>_. 0" 0 c p] by blast
  assume "idle_stop img (c, p, s) v (f, t)"
  then obtain clobber err where "interrupt clobber w err c p s = Inl (f, t)" using w(2) by (auto elim!: idle_stopE)
  with halts [of clobber err] show "f = Halted \<and> io t = io s @ [Cli, Hlt]" by auto
qed

lemma idle_step_vector:
  assumes "idt_ready (isr_at img) s" "idle_step img (c, p, s) v x"
  shows "v \<in> {33, 172}"
proof -
  have "v < 256" using assms(2) by (auto elim: idle_stepE)
  then show ?thesis using other_stops(1) [OF assms(1)] assms(2) by blast
qed

lemma idle_step_session:
  assumes "idt_ready (isr_at img) s" "idle_step img (c, p, s) v x" "keyboard_state s = mode_code m"
  shows "v \<in> {33, 172} \<and> (\<exists>t codes. x = (c, p, t) \<and> session m [v] codes s t)"
proof -
  have v: "v \<in> {33, 172}" using idle_step_vector assms(1,2) by blast
  moreover have "gates_installed (isr_at img) s" using assms(1) by (simp add: idt_ready_def)
  ultimately obtain r where "if v = 33 then ps2_handler s = Inr r else r = apic_timer s" "x = (c, p, snd (hcf r))"
    using idle_step_iff assms(2) by blast
  then show ?thesis using v key_round [OF _ assms(3)] timer_round [OF assms(3)] by (cases "v = 33") auto
qed

lemma idle_events_last: "vs \<noteq> [] \<Longrightarrow> last (idle_events eoi vs codes) = Hlt"
proof (induction vs arbitrary: codes)
  case (Cons v vs)
  then show ?case by (cases vs) auto
qed simp

section \<open>A run\<close>

lemma session_Cons:
  assumes "session m [v] cs s t" "\<And>m'. keyboard_state t = mode_code m' \<Longrightarrow> session m' vs ds t u"
  shows "session m (v # vs) (cs @ ds) s u"
proof -
  obtain outs m' where cs: "kb_run m cs outs m'" "keyboard_state t = mode_code m'" "shown t = shown s @ outs"
    using assms(1) unfolding session_def by blast
  obtain outs' m'' where ds: "kb_run m' ds outs' m''" "keyboard_state u = mode_code m''" "shown u = shown t @ outs'"
    using assms(2) [OF cs(2)] unfolding session_def by blast
  note f = assms(1) [unfolded session_def] and g = assms(2) [OF cs(2), unfolded session_def]
  have one: "length cs = count_list [v] 33" using f by blast
  have "kb_run m (cs @ ds) (outs @ outs') m''"
  proof (cases cs)
    case Nil
    then show ?thesis using cs(1) ds(1) by (simp add: kb_run_simps)
  next
    case (Cons c r)
    then have "r = []" using one by (auto split: if_splits)
    then show ?thesis using cs(1) ds(1) unfolding Cons by (auto simp: kb_run_simps)
  qed
  moreover have "idle_events (eoi_event s) (v # vs) (cs @ ds) = idle_events (eoi_event s) [v] cs @ idle_events (eoi_event s) vs ds"
    using one by (cases cs) (auto split: if_splits)
  moreover have "irq_frame s u" "eoi_event t = eoi_event s"
    using f g irq.keeps_trans irq_frame_fields(7) by blast+
  ultimately show ?thesis
    unfolding session_def using f g cs ds
    by (intro conjI exI [of _ "outs @ outs'"] exI [of _ m'']) auto
qed

lemma session_idt: "session m vs codes s t \<Longrightarrow> idt_ready isr t = idt_ready isr s"
  unfolding session_def by (elim conjE) (rule idt_ready_cong [OF irq_frame_fields(4)])

lemma idle_run_session:
  "idle_run img x vs y \<Longrightarrow> x = (c, p, s) \<Longrightarrow> idt_ready (isr_at img) s \<Longrightarrow> keyboard_state s = mode_code m \<Longrightarrow>
    set vs \<subseteq> {33, 172} \<and> (\<exists>t codes. y = (c, p, t) \<and> session m vs codes s t)"
proof (induction arbitrary: s m rule: idle_run.induct)
  case (asleep x)
  then show ?case using run_nil [of m] by (auto simp: session_def irq.keeps_refl)
next
  case (woken x v y vs z)
  obtain t cs where t: "v \<in> {33, 172}" "y = (c, p, t)" "session m [v] cs s t"
    using idle_step_session woken.hyps(1) woken.prems by blast
  then obtain m' where m': "keyboard_state t = mode_code m'" by (auto simp: session_def)
  have "idt_ready (isr_at img) t" using session_idt [OF t(3)] woken.prems(2) by simp
  then obtain u ds where u: "set vs \<subseteq> {33, 172}" "z = (c, p, u)" "session m' vs ds t u"
    using woken.IH [OF t(2) _ m'] by blast
  with session_Cons [OF t(3), of vs ds u] t(1) m' show ?case by auto
qed

text \<open>
  When the keyboard controller hands over scan codes of the table, every sequence of interrupts
  is served, in one way.
\<close>

lemma scan_codes_later:
  assumes "scan_codes codes s" "io t = io s @ evs" "dev t = dev s"
  shows "scan_codes (drop (data_reads evs) codes) t"
  unfolding scan_codes_def
proof (intro allI impI)
  fix es
  assume "data_reads es < length (drop (data_reads evs) codes)"
  moreover have "data_reads (evs @ es) = data_reads evs + data_reads es" by (simp add: data_reads_def)
  ultimately show "dev_inb (dev t) (io t @ es) 0x60 = drop (data_reads evs) codes ! data_reads es"
    using assms(1) [unfolded scan_codes_def, rule_format, of "evs @ es"] by (simp add: assms(2,3))
qed

lemma idle_run_total:
  assumes "gates_installed (isr_at img) s" "keyboard_state s = mode_code m" "set vs \<subseteq> {33, 172}"
    and "scan_codes codes s" "length codes = count_list vs 33" "\<forall>c \<in> set codes. \<not> beyond_table c"
  shows "\<exists>t. (\<forall>y. idle_run img (c, p, s) vs y \<longleftrightarrow> y = (c, p, t)) \<and> session m vs codes s t"
  using assms
proof (induction vs arbitrary: s m codes)
  case Nil
  then show ?case using run_nil [of m] by (auto simp: idle_run_simps session_def irq.keeps_refl)
next
  case (Cons v vs)
  have v: "v \<in> {33, 172}" using Cons.prems(3) by simp
  obtain t cs ds where t: "\<forall>x. idle_step img (c, p, s) v x \<longleftrightarrow> x = (c, p, t)" "session m [v] cs s t" "codes = cs @ ds"
  proof (cases "v = 33")
    case True
    then obtain k ks where k: "codes = k # ks" using Cons.prems(5) by (cases codes) auto
    have "next_code s = k" using Cons.prems(4) [unfolded scan_codes_def, rule_format, of "[]"] k by (simp add: next_code_def data_reads_def)
    moreover from this obtain r where r: "ps2_handler s = Inr r"
      using handler_step [OF Cons.prems(2) refl] Cons.prems(6) k by (cases "ps2_handler s") (auto simp: handler_ok_def next_code_def)
    ultimately show ?thesis
      using that [of "snd (hcf r)" "[k]" ks] key_round [OF r Cons.prems(2)] idle_step_iff [OF Cons.prems(1) v] True k by auto
  next
    case False
    then show ?thesis
      using that [of "snd (hcf (apic_timer s))" "[]" codes] timer_round [OF Cons.prems(2)] idle_step_iff [OF Cons.prems(1) v] v by auto
  qed
  note f = t(2) [unfolded session_def]
  have gates: "gates_installed (isr_at img) t"
    using Cons.prems(1) f gates_installed_cong irq_frame_fields(4) by blast
  have "dev t = dev s" using f by (auto simp: irq_frame_def dest!: arg_cong [of _ _ dev])
  moreover have "data_reads (idle_events (eoi_event s) [v] cs) = length cs"
    using f v by (auto simp: data_reads_def eoi_event_def)
  ultimately have codes: "scan_codes ds t" using scan_codes_later [OF Cons.prems(4)] f t(3) by fastforce
  have "length ds = count_list vs 33" using f Cons.prems(5) t(3) by (auto split: if_splits)
  then have IH: "\<exists>u. (\<forall>y. idle_run img (c, p, t) vs y \<longleftrightarrow> y = (c, p, u)) \<and> session m' vs ds t u" if "keyboard_state t = mode_code m'" for m'
    using Cons.IH [OF gates that _ codes] Cons.prems(3,6) t(3) by simp
  obtain m' where m': "keyboard_state t = mode_code m'" using f by blast
  obtain u where u: "\<forall>y. idle_run img (c, p, t) vs y \<longleftrightarrow> y = (c, p, u)" "session m' vs ds t u" using IH [OF m'] by blast
  have "idle_run img (c, p, s) (v # vs) y \<longleftrightarrow> y = (c, p, u)" for y by (simp add: idle_run_simps t(1) [rule_format] u(1) [rule_format] del: split_paired_Ex)
  then show ?case using session_Cons [OF t(2), of vs ds u] u(2) m' t(3) by auto
qed

section \<open>The kernel stays up\<close>

lemma device_round:
  assumes "gates_installed (isr_at img) s" "keyboard_state s = mode_code m" "v = 172 \<or> v = 33 \<and> \<not> beyond_table (next_code s)"
  shows "\<exists>r. \<forall>x. idle_step img (c, p, s) v x \<longleftrightarrow> x = (c, p, r)" "\<not> idle_stop img (c, p, s) v f"
proof -
  have v: "v \<in> {33, 172}" using assms(3) by auto
  obtain r where r: "(if v = 33 then ps2_handler s else Inr (apic_timer s)) = Inr r"
    using handler_step [OF assms(2) refl] assms(3) by (cases "ps2_handler s") (auto simp: handler_ok_def next_code_def)
  then show "\<exists>r. \<forall>x. idle_step img (c, p, s) v x \<longleftrightarrow> x = (c, p, r)"
    by (intro exI [of _ "snd (hcf r)"]) (auto simp: idle_step_iff [OF assms(1) v] split: if_splits)
  show "\<not> idle_stop img (c, p, s) v f" using r by (auto simp: idle_stop_iff [OF assms(1) v])
qed

lemma key_beyond_table:
  assumes "gates_installed (isr_at img) s" "keyboard_state s = mode_code m" "beyond_table (next_code s)"
  shows "\<not> idle_step img (c, p, s) 33 x" "\<exists>f. idle_stop img (c, p, s) 33 f"
    "idle_stop img (c, p, s) 33 (f, t) \<Longrightarrow> f = Out_of_bounds"
proof -
  have v: "(33 :: nat) \<in> {33, 172}" by simp
  obtain t where t: "ps2_handler s = Inl (Out_of_bounds, t)"
    using handler_step [OF assms(2) refl] assms(3) by (cases "ps2_handler s") (auto simp: handler_ok_def next_code_def)
  then show "\<not> idle_step img (c, p, s) 33 x" "\<exists>f. idle_stop img (c, p, s) 33 f"
    "idle_stop img (c, p, s) 33 (f, t') \<Longrightarrow> f = Out_of_bounds" for t'
    by (simp_all add: idle_step_iff [OF assms(1) v] idle_stop_iff [OF assms(1) v])
qed

lemma kernel_runs_irq:
  assumes "irq_frame s t"
  shows "kernel_runs off ka img u t = kernel_runs off ka img u s"
proof -
  note F = irq_frame_fields [OF assms]
  note V = same_memory_views(1,3) [OF F(1)] same_memory_views(5) [OF F(1,2)]
  show ?thesis unfolding kernel_runs_def cpus_released_def idt_ready_def gates_installed_def F(3-6) V ..
qed

section \<open>Properties\<close>

text \<open>
  C3. The idle loop under any interleaving of timer and keyboard interrupts. They are all served,
  and in one way: the loop finds its registers, its stack and its place in the code as they were,
  the tick counter has counted the timer's interrupts, the terminal shows what the keyboard's state
  machine makes of the scan codes, each interrupt is acknowledged before the next halt, and nothing
  else of the kernel changes. The keys are those of the driver's table.
\<close>

theorem idle_loop_session:
  assumes "gates_installed (isr_at img) s" "keyboard_state s = mode_code m" "set vs \<subseteq> {33, 172}"
    and "scan_codes codes s" "length codes = count_list vs 33" "\<forall>c \<in> set codes. \<not> beyond_table c"
  shows "\<exists>t. (\<forall>y. idle_run img (c, p, s) vs y \<longleftrightarrow> y = (c, p, t)) \<and> irq_frame s t \<and>
    apic_timer_ticks t = apic_timer_ticks s + of_nat (count_list vs 172) \<and>
    io t = io s @ idle_events (eoi_event s) vs codes \<and>
    (\<exists>outs m'. kb_run m codes outs m' \<and> keyboard_state t = mode_code m' \<and> shown t = shown s @ outs)"
  using idle_run_total [OF assms] unfolding session_def by blast

definition typist :: "image \<Rightarrow> u8 list \<Rightarrow> kernel" where
  "typist img codes = (typing codes)\<lparr>idt := map (\<lambda>v. gate (isr_at img v) 0x8E) [0..<256]\<rparr>"

definition halt_context :: int_context where
  "halt_context = \<lparr>at_rip = 0xffffffff80001235, at_cs = 0x08, at_rflags = 0x202, at_rsp = 0xffff800000010000, at_ss = 0x10\<rparr>"

definition halt_cpu :: cpu where
  "halt_cpu = \<lparr>regs = \<lambda>_. 7, stack = [0xffffffff80001100]\<rparr>"

lemma idle_loop_session_witness:
  "\<exists>t. idle_run pc_image (halt_context, halt_cpu, typist pc_image [0x23]) [172, 33, 172] (halt_context, halt_cpu, t) \<and>
     shown t = ''h'' \<and> apic_timer_ticks t = 2"
proof -
  let ?s = "typist pc_image [0x23]"
  have gates: "gates_installed (isr_at pc_image) ?s" by (simp add: gates_installed_def typist_def interrupt_gate_gate del: upt_rec_numeral)
  have m: "keyboard_state ?s = mode_code Lower" "apic_timer_ticks ?s = 0" "shown ?s = []"
    using typing_simps(1) [of "[0x23]"] by (simp_all add: typist_def shown_def) (simp add: typing_def quiet_kernel_def initial_kernel_def)
  have codes: "scan_codes [0x23] ?s" by (simp add: scan_codes_def typist_def)
  have key: "key_at 0x23 = Some CHR ''h''" by (simp add: key_at_def key_rows_def)
  obtain t outs m' where t: "\<forall>y. idle_run pc_image (halt_context, halt_cpu, ?s) [172, 33, 172] y \<longleftrightarrow> y = (halt_context, halt_cpu, t)"
    "apic_timer_ticks t = 2" "kb_run Lower [0x23] outs m'" "shown t = outs"
    using idle_loop_session [OF gates m(1) _ codes, of "[172, 33, 172]" halt_context halt_cpu] m(2,3) by (auto simp: beyond_table_def)
  have "kb_run Lower [0x23] (''h'' @ []) Lower"
    using kb_step.key [OF key, of Lower] by (intro run_step [OF _ run_nil]) simp
  then have "outs = ''h''" using kb_run_fun [OF _ t(3)] by fastforce
  with t show ?thesis by blast
qed

text \<open>
  C2. The kernel stays up. From the state in which the boot ends, with the keyboard in one
  of its modes, whatever interrupts have been
  served since: they were the timer's and the keyboard's, the loop has its registers, its stack and
  its place in the code as they were, each interrupt was acknowledged once and before the next halt,
  the page tables translate as they did and are still sound, and the allocator's blocks and the
  processors are as they were. What comes next is decided by its vector. The timer is served, and
  the keyboard when its scan code is not beyond the driver's table, in exactly one way; with such a
  code the driver reads past its table, where the model stops. Any other vector halts the machine
  for good: the exceptions by their report, and a vector without a gate by the exception 11 that
  the processor raises for it.
\<close>

theorem kernel_stays_up:
  assumes "kernel_up off ka img u s" "keyboard_state u = mode_code m"
    and "idle_run img (c, p, s) vs (c', p', t)"
  shows "c' = c \<and> p' = p \<and> set vs \<subseteq> {33, 172} \<and> kernel_runs off ka img u t \<and> last (io t) = Hlt \<and>
    (\<exists>codes. length codes = count_list vs 33 \<and> io t = io s @ idle_events (eoi_event s) vs codes) \<and>
    (\<forall>v < 256.
      if v = 172 \<or> v = 33 \<and> \<not> beyond_table (next_code t)
      then (\<exists>r. \<forall>x. idle_step img (c, p, t) v x \<longleftrightarrow> x = (c, p, r)) \<and> (\<forall>f. \<not> idle_stop img (c, p, t) v f)
      else (\<forall>x. \<not> idle_step img (c, p, t) v x) \<and> (\<exists>f. idle_stop img (c, p, t) v f) \<and>
        (\<forall>f r. idle_stop img (c, p, t) v (f, r) \<longrightarrow>
          (if v = 33 then f = Out_of_bounds else f = Halted \<and> io r = io t @ [Cli, Hlt])))"
proof -
  have up: "kernel_runs off ka img u s" "keyboard_state s = mode_code m" "last (io s) = Hlt" "idt_ready (isr_at img) s"
    using assms(1,2) by (simp_all add: kernel_up_def kernel_runs_def)
  obtain codes m' where t: "c' = c" "p' = p" "set vs \<subseteq> {33, 172}" "length codes = count_list vs 33" "irq_frame s t"
    "keyboard_state t = mode_code m'" "io t = io s @ idle_events (eoi_event s) vs codes"
    using idle_run_session [OF assms(3) refl up(4,2)] by (auto simp: session_def)
  have runs: "kernel_runs off ka img u t" using up(1) kernel_runs_irq [OF t(5)] by simp
  then have ready: "idt_ready (isr_at img) t" by (simp add: kernel_runs_def)
  then have gates: "gates_installed (isr_at img) t" by (simp add: idt_ready_def)
  have next_round: "if v = 172 \<or> v = 33 \<and> \<not> beyond_table (next_code t)
      then (\<exists>r. \<forall>x. idle_step img (c, p, t) v x \<longleftrightarrow> x = (c, p, r)) \<and> (\<forall>f. \<not> idle_stop img (c, p, t) v f)
      else (\<forall>x. \<not> idle_step img (c, p, t) v x) \<and> (\<exists>f. idle_stop img (c, p, t) v f) \<and>
        (\<forall>f r. idle_stop img (c, p, t) v (f, r) \<longrightarrow>
          (if v = 33 then f = Out_of_bounds else f = Halted \<and> io r = io t @ [Cli, Hlt]))" if "v < 256" for v
  proof (cases "v \<in> {33, 172}")
    case True
    then show ?thesis using device_round [OF gates t(6)] key_beyond_table [OF gates t(6)] by (cases "v = 33") auto
  next
    case False
    then show ?thesis using other_stops [OF ready that False] by auto
  qed
  have "last (io t) = Hlt"
    using t(7) up(3) idle_events_last [of vs] by (cases "vs = []") (auto simp: last_append)
  with t runs next_round show ?thesis by blast
qed

lemma kernel_stays_up_witness:
  "\<exists>v t. kern_start pc_image (\<lambda>_ _. 1) pc = Some (Inl (Halted, v)) \<and>
     idle_run pc_image (halt_context, halt_cpu, v) [172] (halt_context, halt_cpu, t) \<and> vmm_sound (cr3 t) t \<and>
     io t = io v @ [eoi_event v, Hlt] \<and> (\<exists>x. idle_step pc_image (halt_context, halt_cpu, t) 172 x) \<and>
     (\<exists>r. idle_stop pc_image (halt_context, halt_cpu, t) 255 (Halted, r))"
proof -
  obtain u v where v: "kern_start pc_image (\<lambda>_ _. 1) pc = Some (Inl (Halted, v))" "kernel_up HHDM no_image pc_image u v"
    "keyboard_state u = 0"
    using pc_up [OF boot_result [OF pc_ready pc_map pc_fields(7) pc_ticks]] by blast
  have m: "keyboard_state u = mode_code Lower" using v(3) by (simp add: NORMAL_STATE_def)
  have g: "idt_ready (isr_at pc_image) v" "gates_installed (isr_at pc_image) v" "keyboard_state v = mode_code Lower"
    using v(2) m by (simp_all add: kernel_up_def kernel_runs_def idt_ready_def)
  then obtain x where x: "idle_step pc_image (halt_context, halt_cpu, v) 172 x" using device_round(1) [OF g(2,3)] by blast
  then obtain t where "x = (halt_context, halt_cpu, t)" using idle_step_session g(1,3) by blast
  with x have run: "idle_run pc_image (halt_context, halt_cpu, v) [172] (halt_context, halt_cpu, t)" by (simp add: idle_run_simps)
  note S = kernel_stays_up [OF v(2) m run]
  have "vmm_sound (cr3 t) t" "io t = io v @ [eoi_event v, Hlt]" using S by (auto simp: kernel_runs_def)
  moreover have "\<exists>x. idle_step pc_image (halt_context, halt_cpu, t) 172 x"
    using S [THEN conjunct2, THEN conjunct2, THEN conjunct2, THEN conjunct2, THEN conjunct2, THEN conjunct2, rule_format, of 172] by auto
  moreover obtain f r where "idle_stop pc_image (halt_context, halt_cpu, t) 255 (f, r)" "f = Halted"
    using S [THEN conjunct2, THEN conjunct2, THEN conjunct2, THEN conjunct2, THEN conjunct2, THEN conjunct2, rule_format, of 255] by fastforce
  ultimately show ?thesis using v(1) run by blast
qed

end
