(* ===== verification/Spec2Isabelle.thy ===== *)
theory Spec2Isabelle
  imports Pmm_Properties Vmm_Properties Gdt Idt Apic_Init Smp Ticks Running
begin

text \<open>
  A verification of Neobird64, an x86-64 kernel that is started by the Limine boot loader.

  The program. \<open>kern/kern.c\<close> starts the parts in order: descriptor tables (\<open>kern/sys/gdt.c\<close>,
  \<open>kern/sys/idt.c\<close>), the physical memory manager (\<open>kern/mm/pmm.c\<close>), ACPI and the interrupt
  controllers (\<open>kern/sys/acpi\<close>), the page tables (\<open>kern/mm/vmm.c\<close>), the other processors
  (\<open>kern/sys/smp\<close>). All of them print through \<open>kern/include/printf.c\<close> and use the byte loops
  of \<open>kern/include/string.c\<close>.

  The state. \<open>Machine\<close> has one record \<open>kernel\<close> with physical memory,
  the translation of virtual addresses in force, the terminal, the sequence of device accesses,
  what the boot loader answered to the requests, and the C globals under their own names. An
  operation is a function on this record; one that can stop (a panic, or an access the C language
  gives no meaning to) returns a sum whose left side is the fault with the state it happened in,
  and one that may run for ever returns an option. The sequence of accesses has the loads of the
  processor's tables and segment registers too, and the stores that release the other processors.
  Reads of devices are decided by the \<open>device\<close> field, which may look at everything
  done before. The \<open>Prelude\<close> has the machine integers, the sequencing of such
  operations, and the C \<open>for\<close> loop with a step and wrap-around.

  The theories.
  \<open>CString\<close>: the memory and string functions, by induction over their index loops.
  \<open>Video\<close>, \<open>Printf\<close>: number and string output over the interface of the terminal (locale
  \<open>terminal\<close>; the two digit loops share locale \<open>digit_loop\<close>), the format interpreter proved
  equal to a reference grammar, the log functions.
  \<open>Pmm\<close>, \<open>Pmm_Init\<close>, \<open>Pmm_Properties\<close>: the bitmap (locale \<open>bitset\<close>), the allocator's
  contract (locale \<open>block_allocator\<close>, whose clients' lemmas are about repeated allocation), its
  initialisation from the memory map.
  \<open>PageTable\<close>, \<open>Vmm\<close>, \<open>Vmm_Init\<close>, \<open>Vmm_Properties\<close>: four-level tables as the processor reads
  them (locale \<open>word_memory\<close> over the 64-bit words of memory), the invariant \<open>vmm_sound\<close> that no
  table is shared, free or inside the bitmap, \<open>vmm_map_page\<close> as an update of the abstract map
  from pages to entries, and \<open>vmm_init\<close> as a list of such updates.
  \<open>Gdt\<close>: descriptors and what the processor decodes from them.
  \<open>Ps2\<close>: the keyboard driver, refining the step relation \<open>kb_step\<close> of a keyboard with three modes.
  \<open>Idt\<close>: gates, the assembly stubs on a stack machine, the exception report.
  \<open>Lapic\<close>: local APIC registers, end of interrupt, the timer tick and the busy wait.
  \<open>Ticks\<close>: the timer handler of several processors as interleaved loads and stores of the counter.
  \<open>Layout\<close>: the packed structs of the firmware's and the processor's tables, from which the
  offsets of their members are computed.
  \<open>Acpi\<close>: the lookup of a table by its signature over the RSDT or XSDT in memory, and the delay
  on the power-management timer, with the readings the timer gives as the device's.
  \<open>Apic\<close>: the records of the MADT as a list of addresses, which \<open>get_madt_tables\<close> collects and
  \<open>find_gsi\<close> looks up; the IOAPIC's registers as the sequence of accesses leaves them; the
  calibration of the local timer.
  \<open>Apic_Init\<close>: \<open>init_apic\<close> and \<open>init_acpi\<close> as a whole. That the walk through the tables changes
  the terminal, the devices and the tables' own globals only is the relation \<open>acpi_frame\<close>, an
  instance of the locale \<open>frame\<close>; its theorem says which interrupt reaches which vector.
  \<open>Smp\<close>: \<open>smp_init\<close> starts the processors one after the other, and \<open>ap_trampoline\<close> is what each
  does from there to its halt.
  \<open>Boot\<close>: \<open>_start\<close> of \<open>kern/kern.c\<close>. Its theorem composes those of the parts in the order of the
  code: on a machine whose boot loader answered the requests, the kernel reaches its last halt
  with the pool, the page tables and the processors as their theorems describe them, and one
  witness is such a machine in full.
  \<open>Running\<close>: the loop the boot ends in, as the step relation \<open>idle_step\<close>: an interrupt or exception
  of any vector arrives at the halt, goes through its gate and its stub to its handler and back;
  \<open>idle_stop\<close> are the rounds whose handler does not return. By induction over the runs the state of the boot's end is kept, and the runs are those of the
  keyboard's state machine and the tick counter side by side.

  How the parts rest on each other. \<open>pmm_init\<close> gives \<open>pmm_sound\<close> and the pool of free blocks, which
  \<open>init_acpi\<close> keeps by \<open>acpi_frame\<close> and \<open>vmm_init\<close> takes its tables from; \<open>vmm_init\<close> gives the root
  that \<open>ap_trampoline\<close> loads. Before \<open>vmm_init\<close> the global \<open>hhdmoffset\<close> is zero, so the bitmap and
  the ACPI tables are reached at their physical addresses; \<open>loader_map\<close> is the hypothesis that the
  boot loader maps them there.

  Bounds. There is no fuel: loops with a bound are recursive functions with a termination
  measure, loops without one are \<open>partial_function (option)\<close>, and the properties state that
  they return. \<open>pmm_sound\<close> keeps block numbers below 2^31, where the \<open>int\<close> parameters of the
  bitmap functions are exact.

  Not modelled. The terminal library flanterm and the boot loader are not in the repository:
  the first is the buffers handed to \<open>flanterm_write\<close>, the second the record \<open>boot_info\<close>.
  Loading CR3 is an event: the translation in force stays the boot loader's, and the theorems
  about \<open>vmm_init\<close> say what the new tables translate. Interrupts arrive where the code waits for
  them, in \<open>apic_sleep\<close> and in the loop at the end; none arrives between two other statements of
  the initialisation. The processors started by \<open>smp_init\<close> run beside the first one:
  \<open>ap_trampoline\<close> is modelled on the state it is given, and but for the tick counter the steps of
  several processors are not interleaved. The stack of the stubs is a list of its own, apart from
  physical memory. A read past the end of the keyboard's table stops the model, where the compiled
  code goes on with whatever lies there. Timing is left out, as are the structures of \<open>limine.h\<close>
  that no function reads.
\<close>

end
